(* ===== verification/Prelude.thy ===== *)
theory Prelude
  imports Main "HOL-Library.Word" "HOL-Library.Multiset"
begin

text \<open>
  Shared types, constants and generic lemmas of the development.  Bytes are 8-bit words; a
  C string or buffer is a list of bytes; a C \<open>long long\<close> is an \<open>int\<close> between
  \<open>LLONG_MIN\<close> and \<open>LLONG_MAX\<close>; an \<open>unsigned long long\<close> is a \<open>nat\<close> with the
  wrap-around written out, or a 64-bit word where the code works on its bits.
\<close>

unbundle bit_operations_syntax

type_synonym byte = "8 word"
type_synonym u16 = "16 word"
type_synonym u32 = "32 word"
type_synonym u64 = "64 word"

named_theorems redis_simps \<open>unfolding equations shared by the component proofs\<close>

abbreviation LLONG_MAX :: int where "LLONG_MAX \<equiv> 9223372036854775807"
abbreviation LLONG_MIN :: int where "LLONG_MIN \<equiv> - 9223372036854775808"
abbreviation ULLONG_MAX :: nat where "ULLONG_MAX \<equiv> 18446744073709551615"

text \<open>A string literal of the source, as bytes.\<close>

definition bytes :: "string \<Rightarrow> byte list" where
  "bytes s = map of_char s"

text \<open>Conversion of an \<open>unsigned long long\<close> to \<open>long long\<close> (two's complement).\<close>

definition ll_of_ull :: "nat \<Rightarrow> int" where
  "ll_of_ull x = (if int x \<le> LLONG_MAX then int x else int x - 18446744073709551616)"

section \<open>Lists\<close>

lemma list_update_append_mid [simp]:
  "length xs = n \<Longrightarrow> (xs @ y # ys)[n := z] = xs @ z # ys"
  by (simp add: list_update_append)

lemma nth_append_mid [simp]:
  "length xs = n \<Longrightarrow> (xs @ y # ys) ! n = y"
  by (simp add: nth_append)

lemma length_add2_snoc:
  assumes "length xs = n + 2"
  obtains ys a b where "xs = ys @ [a, b]" "length ys = n"
proof -
  have "length (drop n xs) = 2" using assms by simp
  then obtain a b where "drop n xs = [a, b]"
    by (simp only: numeral_2_eq_2 length_Suc_conv length_0_conv) blast
  then have "xs = take n xs @ [a, b]" by (metis append_take_drop_id)
  moreover have "length (take n xs) = n" using assms by simp
  ultimately show ?thesis using that by blast
qed

lemma nth_concat_pairs:
  "i < n \<Longrightarrow> concat (map (\<lambda>i. [f i, g i]) [0..<n]) ! (i * 2) = f i"
  "i < n \<Longrightarrow> concat (map (\<lambda>i. [f i, g i]) [0..<n]) ! (i * 2 + 1) = g i"
proof (induction n)
  case (Suc n)
  have len: "length (concat (map (\<lambda>i. [f i, g i]) [0..<n])) = n * 2"
    by (simp add: length_concat comp_def sum_list_triv)
  {
    case 1
    then show ?case using Suc len by (cases "i = n") (auto simp: nth_append)
  next
    case 2
    then show ?case using Suc len by (cases "i = n") (auto simp: nth_append)
  }
qed simp_all

lemma ex_drop_Cons:
  "(\<exists>k < length (c # s). G (drop k (c # s))) \<longleftrightarrow> G (c # s) \<or> (\<exists>k < length s. G (drop k s))"
  by (auto simp: less_Suc_eq_0_disj)

lemma all_upt_nat: "list_all P [0..<n] \<Longrightarrow> i < n \<Longrightarrow> P i"
  by (simp add: list_all_iff)

section \<open>Words\<close>

lemma unat_and_mask: "unat (x AND mask k :: 'a::len word) = unat x mod 2 ^ k"
  by (metis take_bit_eq_mask take_bit_eq_mod unsigned_take_bit_eq)

end
