(* ===== verification/Util.thy ===== *)
theory Util
  imports Prelude
begin

text \<open>
  Number conversions of \<open>util.c\<close>: \<open>digits10\<close>, \<open>sdigits10\<close>, \<open>ll2string\<close>, \<open>string2ll\<close>,
  \<open>string2l\<close>.  The reference is \<open>dec\<close>, the decimal notation of an integer.
\<close>

section \<open>Definitions\<close>

text \<open>\<open>digits10\<close>: the number of decimal digits of an unsigned 64-bit value.\<close>

function digits10 :: "nat \<Rightarrow> nat" where
  "digits10 v =
    (if v < 10 then 1
     else if v < 100 then 2
     else if v < 1000 then 3
     else if v < 1000000000000 then
       (if v < 100000000 then
          (if v < 1000000 then
             (if v < 10000 then 4 else 5 + of_bool (v \<ge> 100000))
           else 7 + of_bool (v \<ge> 10000000))
        else if v < 10000000000 then 9 + of_bool (v \<ge> 1000000000)
        else 11 + of_bool (v \<ge> 100000000000))
     else 12 + digits10 (v div 1000000000000))"
  by pat_completeness auto
termination
  by (relation "measure id") auto

declare digits10.simps [simp del]

definition sdigits10 :: "int \<Rightarrow> nat" where
  "sdigits10 v =
    (if v < 0 then
       (let uv = (if v \<noteq> LLONG_MIN then nat (- v) else nat LLONG_MAX + 1)
        in digits10 uv + 1)
     else digits10 (nat v))"

text \<open>The table of two-digit strings of \<open>ll2string\<close>.\<close>

definition ll2string_tab :: "byte list" where
  "ll2string_tab = bytes (
     ''0001020304050607080910111213141516171819'' @
     ''2021222324252627282930313233343536373839'' @
     ''4041424344454647484950515253545556575859'' @
     ''6061626364656667686970717273747576777879'' @
     ''8081828384858687888990919293949596979899'')"

text \<open>
  The main loop of \<open>ll2string\<close>, filling \<open>dst\<close> downwards from index \<open>next\<close>, two digits at
  a time; it returns the remaining value, the index and the buffer.
\<close>

function ll2string_loop :: "nat \<Rightarrow> nat \<Rightarrow> byte list \<Rightarrow> nat \<times> nat \<times> byte list" where
  "ll2string_loop value next dst =
    (if value \<ge> 100 then
       (let i = (value mod 100) * 2;
            value' = value div 100;
            dst' = dst[next := ll2string_tab ! (i + 1)];
            dst'' = dst'[next - 1 := ll2string_tab ! i]
        in ll2string_loop value' (next - 2) dst'')
     else (value, next, dst))"
  by pat_completeness auto
termination
  by (relation "measure fst") auto

declare ll2string_loop.simps [simp del]

text \<open>
  \<open>ll2string dst svalue\<close> returns the number of characters written and the buffer; a return
  of 0 says that the buffer, of \<open>length dst\<close> bytes, is too small.
\<close>

definition ll2string :: "byte list \<Rightarrow> int \<Rightarrow> nat \<times> byte list" where
  "ll2string dst svalue =
    (let negative = (svalue < 0);
         value = (if svalue < 0
                  then (if svalue \<noteq> LLONG_MIN then nat (- svalue) else nat LLONG_MAX + 1)
                  else nat svalue);
         len = digits10 value + of_bool negative
     in if len \<ge> length dst then (0, dst)
        else
          (let dst0 = dst[len := 0];
               (value', next, dst1) = ll2string_loop value (len - 1) dst0;
               dst2 = (if value' < 10 then dst1[next := 48 + of_nat value']
                       else (let i = value' * 2
                             in dst1[next := ll2string_tab ! (i + 1),
                                     next - 1 := ll2string_tab ! i]));
               dst3 = (if negative then dst2[0 := 45] else dst2)
           in (len, dst3)))"

text \<open>
  The digit loop of \<open>string2ll\<close>: \<open>None\<close> is a return because of overflow, otherwise the
  value and the characters that were not consumed.
\<close>

fun string2ll_loop :: "nat \<Rightarrow> byte list \<Rightarrow> (nat \<times> byte list) option" where
  "string2ll_loop v [] = Some (v, [])"
| "string2ll_loop v (c # p) =
    (if 48 \<le> c \<and> c \<le> 57 then
       (if v > ULLONG_MAX div 10 then None
        else
          (let v1 = (v * 10) mod 2 ^ 64; d = unat (c - 48)
           in if v1 > ULLONG_MAX - d then None
              else string2ll_loop ((v1 + d) mod 2 ^ 64) p))
     else Some (v, c # p))"

text \<open>\<open>string2ll\<close>: \<open>None\<close> is the return value 0, \<open>Some v\<close> is 1 with \<open>*value = v\<close>.\<close>

definition string2ll :: "byte list \<Rightarrow> int option" where
  "string2ll s =
    (if s = [] then None
     else if length s = 1 \<and> s ! 0 = 48 then Some 0
     else
       (let negative = (s ! 0 = 45);
            p = (if negative then tl s else s)
        in if p = [] then None
           else if 49 \<le> p ! 0 \<and> p ! 0 \<le> 57 then
             (case string2ll_loop (unat (p ! 0 - 48)) (tl p) of
                None \<Rightarrow> None
              | Some (v, rest) \<Rightarrow>
                  if rest \<noteq> [] then None
                  else if negative then
                    (if v > nat (- (LLONG_MIN + 1)) + 1 then None
                     else Some (ll_of_ull ((2 ^ 64 - v) mod 2 ^ 64)))
                  else if int v > LLONG_MAX then None
                  else Some (ll_of_ull v))
           else None))"

text \<open>\<open>string2l\<close>, with \<open>long\<close> of 64 bits.\<close>

definition string2l :: "byte list \<Rightarrow> int option" where
  "string2l s =
    (case string2ll s of
       None \<Rightarrow> None
     | Some llval \<Rightarrow> if llval < LLONG_MIN \<or> llval > LLONG_MAX then None else Some llval)"

section \<open>Decimal notation\<close>

fun dec_nat :: "nat \<Rightarrow> byte list" where
  "dec_nat n = (if n < 10 then [48 + of_nat n]
                else dec_nat (n div 10) @ [48 + of_nat (n mod 10)])"

declare dec_nat.simps [simp del]

definition dec :: "int \<Rightarrow> byte list" where
  "dec v = (if v < 0 then 45 # dec_nat (nat (- v)) else dec_nat (nat v))"

definition undec :: "byte list \<Rightarrow> nat" where
  "undec s = foldl (\<lambda>a c. a * 10 + unat (c - 48)) 0 s"

lemma dec_nat_nonempty [simp]: "dec_nat n \<noteq> []"
  by (subst dec_nat.simps) simp

lemmas dec_nat_nonempty' [simp] = dec_nat_nonempty [symmetric]

lemma dec_nat_step: "10 \<le> n \<Longrightarrow> dec_nat n = dec_nat (n div 10) @ [48 + of_nat (n mod 10)]"
  by (subst dec_nat.simps) simp

lemma dec_nat_snoc: "0 < v \<Longrightarrow> d < 10 \<Longrightarrow> dec_nat (v * 10 + d) = dec_nat v @ [48 + of_nat d]"
  by (subst dec_nat_step) auto

lemma length_dec_nat_div: "10 ^ k \<le> v \<Longrightarrow> length (dec_nat v) = k + length (dec_nat (v div 10 ^ k))"
proof (induction k arbitrary: v)
  case (Suc k)
  have "10 \<le> 10 * (10::nat) ^ k" by simp
  also have "\<dots> \<le> v" using Suc.prems by simp
  finally have "10 \<le> v" .
  moreover have "10 ^ k \<le> v div 10"
    using Suc.prems by (simp add: less_eq_div_iff_mult_less_eq mult.commute)
  ultimately show ?case
    using Suc.IH [of "v div 10"] by (simp add: dec_nat_step div_mult2_eq)
qed simp

lemma length_dec_nat_small: "v < 10 \<Longrightarrow> length (dec_nat v) = 1"
  by (subst dec_nat.simps) simp

lemma length_dec_nat_eq: "10 ^ k \<le> v \<Longrightarrow> v < 10 ^ Suc k \<Longrightarrow> length (dec_nat v) = Suc k"
proof -
  assume a: "10 ^ k \<le> v" "v < 10 ^ Suc k"
  then have "v div 10 ^ k < 10"
    by (simp add: div_less_iff_less_mult)
  with a show ?thesis
    by (simp add: length_dec_nat_div length_dec_nat_small)
qed


lemma digits10_ivl:
  assumes "10 ^ k \<le> v" "v < 10 ^ Suc k" "k < 12"
  shows "digits10 v = Suc k"
proof -
  have "k \<in> {0, 1, 2, 3, 4, 5, 6, 7, 8, 9, 10, 11}"
    using assms(3) by (simp, presburger)
  then show ?thesis
    using assms(1,2) by (elim insertE emptyE) (simp_all add: digits10.simps [of v])
qed

lemma digits10_spec: "digits10 v = length (dec_nat v)"
proof (induction v rule: digits10.induct)
  case (1 v)
  consider "v = 0" | "0 < v" "v < 10 ^ 12" | "10 ^ 12 \<le> v" by fastforce
  then show ?case
  proof cases
    case 1
    then show ?thesis by (simp add: digits10.simps dec_nat.simps)
  next
    case 2
    then obtain k where k: "10 ^ k \<le> v" "v < 10 ^ Suc k"
      using ex_power_ivl1 [of 10 v] by auto
    with 2 have "(10::nat) ^ k < 10 ^ 12" by linarith
    then have "k < 12" by (rule power_less_imp_less_exp [rotated]) simp
    with k show ?thesis by (simp add: digits10_ivl length_dec_nat_eq)
  next
    case 3
    then have "length (dec_nat v) = 12 + length (dec_nat (v div 10 ^ 12))"
      by (rule length_dec_nat_div)
    moreover have "digits10 (v div 1000000000000) = length (dec_nat (v div 1000000000000))"
      using 3 by (intro "1.IH") auto
    ultimately show ?thesis
      using 3 by (subst digits10.simps) simp
  qed
qed

lemma dec_nat_digits: "c \<in> set (dec_nat v) \<Longrightarrow> 48 \<le> c \<and> c \<le> 57"
proof (induction v rule: dec_nat.induct)
  case (1 v)
  have d: "48 \<le> (48 + of_nat k :: byte) \<and> (48 + of_nat k :: byte) \<le> 57" if "k < 10" for k
  proof -
    have "unat (48 + of_nat k :: byte) = 48 + k"
      using that by (simp add: unat_word_ariths unat_of_nat)
    then show ?thesis
      using that by (simp add: word_le_nat_alt)
  qed
  show ?case
  proof (cases "v < 10")
    case True
    then show ?thesis using "1.prems" d [of v] by (simp add: dec_nat.simps [of v])
  next
    case False
    then show ?thesis
      using "1.prems" "1.IH" d [of "v mod 10"] by (auto simp: dec_nat.simps [of v])
  qed
qed

lemma unat_digit: "d < 10 \<Longrightarrow> unat (48 + of_nat d - 48 :: byte) = d"
  by (simp add: unat_of_nat)

lemma undec_snoc: "undec (s @ [c]) = undec s * 10 + unat (c - 48)"
  by (simp add: undec_def)

lemma undec_dec_nat [simp]: "undec (dec_nat v) = v"
proof (induction v rule: dec_nat.induct)
  case (1 v)
  show ?case
  proof (cases "v < 10")
    case True
    then show ?thesis using unat_digit [of v] by (simp add: dec_nat.simps [of v] undec_def)
  next
    case False
    then show ?thesis
      using "1.IH" unat_digit [of "v mod 10"]
      by (simp add: dec_nat.simps [of v] undec_snoc del: add_diff_cancel_left')
  qed
qed

lemma dec_nat_inject [simp]: "dec_nat a = dec_nat b \<longleftrightarrow> a = b"
  by (metis undec_dec_nat)

lemma undec_append_ge: "undec s \<le> undec (s @ t)"
proof (induction t rule: rev_induct)
  case (snoc c t)
  have "undec (s @ t) \<le> undec ((s @ t) @ [c])" by (simp add: undec_snoc del: append_assoc)
  with snoc show ?case by simp
qed simp

lemma dec_nat_prefix_le: "dec_nat a @ s = dec_nat b \<Longrightarrow> a \<le> b"
  by (metis undec_append_ge undec_dec_nat)

section \<open>ll2string\<close>

lemma ll2string_tab_concat:
  "ll2string_tab = concat (map (\<lambda>i. [48 + of_nat (i div 10), 48 + of_nat (i mod 10)]) [0..<100])"
  by code_simp

lemma ll2string_tab:
  "i < 100 \<Longrightarrow> ll2string_tab ! (i * 2) = 48 + of_nat (i div 10)"
  "i < 100 \<Longrightarrow> ll2string_tab ! (i * 2 + 1) = 48 + of_nat (i mod 10)"
  by (simp_all only: ll2string_tab_concat nth_concat_pairs)

lemma dec_nat_100:
  "100 \<le> n \<Longrightarrow> dec_nat n = dec_nat (n div 100) @ [48 + of_nat (n mod 100 div 10), 48 + of_nat (n mod 100 mod 10)]"
proof -
  assume a: "100 \<le> n"
  have "dec_nat n = dec_nat (n div 10) @ [48 + of_nat (n mod 10)]"
    using a by (simp add: dec_nat_step)
  moreover have "dec_nat (n div 10) = dec_nat (n div 10 div 10) @ [48 + of_nat (n div 10 mod 10)]"
    using a by (intro dec_nat_step) auto
  moreover have "n div 10 mod 10 = n mod 100 div 10" "n mod 10 = n mod 100 mod 10"
      "n div 10 div 10 = n div 100"
    using mod_mult2_eq [of n 10 10] by (simp_all add: div_mult2_eq [symmetric])
  ultimately show ?thesis by simp
qed

lemma dec_nat_2digits:
  "10 \<le> n \<Longrightarrow> n < 100 \<Longrightarrow> dec_nat n = [48 + of_nat (n div 10), 48 + of_nat (n mod 10)]"
  by (subst dec_nat_step) (simp_all add: dec_nat.simps [of "n div 10"])

text \<open>The digits written by the loop and the two lines after it.\<close>

definition ll2string_fill :: "nat \<Rightarrow> nat \<Rightarrow> byte list \<Rightarrow> byte list" where
  "ll2string_fill value next dst =
     (let (value', next', dst1) = ll2string_loop value next dst
      in if value' < 10 then dst1[next' := 48 + of_nat value']
         else (let i = value' * 2
               in dst1[next' := ll2string_tab ! (i + 1), next' - 1 := ll2string_tab ! i]))"

lemma ll2string_fill_spec:
  assumes "length mid = length (dec_nat n)"
  shows "ll2string_fill n (length pre + length mid - 1) (pre @ mid @ post) = pre @ dec_nat n @ post"
  using assms
proof (induction n arbitrary: mid post rule: nat_less_induct)
  case (1 n)
  show ?case
  proof (cases "100 \<le> n")
    case True
    have dn: "dec_nat n = dec_nat (n div 100) @
        [48 + of_nat (n mod 100 div 10), 48 + of_nat (n mod 100 mod 10)]"
      using True by (rule dec_nat_100)
    with "1.prems" have "length mid = length (dec_nat (n div 100)) + 2" by simp
    then obtain mid' a b where mid: "mid = mid' @ [a, b]"
      and lm: "length mid' = length (dec_nat (n div 100))"
      by (rule length_add2_snoc)
    have pos: "0 < length mid'" using lm by simp
    let ?nx = "length pre + length mid - 1"
    have "(pre @ mid @ post)[?nx := x] = pre @ mid' @ a # x # post" for x
      using mid by (simp add: list_update_append)
    moreover have "(pre @ mid' @ a # x # post)[?nx - 1 := y] = pre @ mid' @ y # x # post" for x y
      using mid by (simp add: list_update_append)
    ultimately have "ll2string_loop n ?nx (pre @ mid @ post)
        = ll2string_loop (n div 100) (length pre + length mid' - 1)
            (pre @ mid' @ [ll2string_tab ! (n mod 100 * 2), ll2string_tab ! (n mod 100 * 2 + 1)] @ post)"
      using True mid pos by (subst ll2string_loop.simps) (simp add: Let_def)
    then have "ll2string_fill n ?nx (pre @ mid @ post)
        = ll2string_fill (n div 100) (length pre + length mid' - 1)
            (pre @ mid' @ [ll2string_tab ! (n mod 100 * 2), ll2string_tab ! (n mod 100 * 2 + 1)] @ post)"
      by (simp add: ll2string_fill_def)
    also have "\<dots> = pre @ dec_nat (n div 100) @
        [ll2string_tab ! (n mod 100 * 2), ll2string_tab ! (n mod 100 * 2 + 1)] @ post"
      using True lm by (intro "1.IH" [rule_format]) auto
    finally show ?thesis
      using ll2string_tab [of "n mod 100"] by (simp add: dn)
  next
    case False
    then have lp: "ll2string_loop n m d = (n, m, d)" for m d
      by (subst ll2string_loop.simps) simp
    show ?thesis
    proof (cases "n < 10")
      case True
      then obtain a where "mid = [a]"
        using "1.prems" by (auto simp: dec_nat.simps [of n] length_Suc_conv)
      with True show ?thesis
        by (simp add: ll2string_fill_def lp dec_nat.simps [of n])
    next
      case False2: False
      then have dn: "dec_nat n = [48 + of_nat (n div 10), 48 + of_nat (n mod 10)]"
        using False by (intro dec_nat_2digits) auto
      then obtain a b where mid: "mid = [a, b]"
        using "1.prems" by (auto simp: length_Suc_conv)
      show ?thesis
        using False False2 mid ll2string_tab [of n]
        by (simp add: ll2string_fill_def lp dn list_update_append)
    qed
  qed
qed


lemma ll2string_alt:
  "ll2string dst v =
    (let n = nat \<bar>v\<bar>; len = length (dec_nat n) + of_bool (v < 0)
     in if len \<ge> length dst then (0, dst)
        else (len, let dst' = ll2string_fill n (len - 1) (dst[len := 0])
                   in if v < 0 then dst'[0 := 45] else dst'))"
proof -
  have "(if v < 0 then if v \<noteq> LLONG_MIN then nat (- v) else nat LLONG_MAX + 1 else nat v) = nat \<bar>v\<bar>"
    by auto
  then show ?thesis
    by (simp add: ll2string_def ll2string_fill_def digits10_spec Let_def split_beta)
qed

lemma ll2string_split:
  assumes "m + k < length dst"
  obtains pre mid c post where "dst = pre @ mid @ c # post" "length pre = m" "length mid = k"
    "post = drop (m + k + 1) dst"
proof
  show "dst = take m dst @ take k (drop m dst) @ dst ! (m + k) # drop (m + k + 1) dst"
    using id_take_nth_drop [OF assms] by (simp add: take_add)
qed (use assms in auto)

lemma ll2string_spec:
  "ll2string dst v =
    (if length (dec v) < length dst
     then (length (dec v), dec v @ 0 # drop (length (dec v) + 1) dst)
     else (0, dst))"
proof (cases "length (dec v) < length dst")
  case False
  then show ?thesis by (auto simp: ll2string_alt dec_def Let_def)
next
  case True
  let ?n = "nat \<bar>v\<bar>" and ?m = "of_bool (v < 0) :: nat"
  let ?k = "length (dec_nat ?n)"
  have len: "length (dec v) = ?m + ?k" by (auto simp: dec_def)
  obtain pre mid c post where dst: "dst = pre @ mid @ c # post" and m: "length pre = ?m"
    and k: "length mid = ?k" and post: "post = drop (?m + ?k + 1) dst"
    using True len by (auto elim: ll2string_split)
  have "dst[?m + ?k := 0] = pre @ mid @ 0 # post"
    unfolding dst using m k by (simp add: list_update_append)
  then have "ll2string_fill ?n (?m + ?k - 1) (dst[?m + ?k := 0]) = pre @ dec_nat ?n @ 0 # post"
    using ll2string_fill_spec [of mid ?n pre "0 # post"] m k by simp
  then show ?thesis
    using True len m post
    by (cases "v < 0") (auto simp: ll2string_alt dec_def Let_def add.commute length_Suc_conv)
qed

section \<open>string2ll\<close>

lemma digit_byte:
  assumes "48 \<le> c" "c \<le> (57 :: byte)"
  shows "unat (c - 48) < 10" "48 + of_nat (unat (c - 48)) = c"
proof -
  have "unat (c - 48) = unat c - 48"
    using assms(1) by (simp add: unat_sub)
  moreover have "unat c \<le> 57" using assms(2) by (simp add: word_le_nat_alt)
  ultimately show "unat (c - 48) < 10" by simp
qed simp

lemma string2ll_loop_sound:
  assumes "0 < v" "v \<le> ULLONG_MAX" "string2ll_loop v s = Some (v', [])"
  shows "dec_nat v' = dec_nat v @ s \<and> v' \<le> ULLONG_MAX"
  using assms
proof (induction v s rule: string2ll_loop.induct)
  case (2 v c p)
  let ?d = "unat (c - 48)"
  from "2.prems" have c: "48 \<le> c" "c \<le> 57" and v: "v \<le> ULLONG_MAX div 10"
    by (auto split: if_splits)
  then have v1: "(v * 10) mod 2 ^ 64 = v * 10" by simp
  with "2.prems" c have ov: "v * 10 + ?d \<le> ULLONG_MAX"
    using digit_byte(1) [OF c] by (auto simp: Let_def split: if_splits)
  have "string2ll_loop (v * 10 + ?d) p = Some (v', [])"
    using "2.prems" c v ov v1 by (auto simp: Let_def split: if_splits)
  moreover have "dec_nat (v * 10 + ?d) = dec_nat v @ [c]"
    using digit_byte [OF c] "2.prems"(1) by (simp add: dec_nat_snoc)
  ultimately show ?case
    using "2.IH" [of "v * 10" ?d] c v v1 ov "2.prems"(1) by auto
qed auto

lemma string2ll_loop_complete:
  assumes "0 < v" "dec_nat v' = dec_nat v @ s" "v' \<le> ULLONG_MAX"
  shows "string2ll_loop v s = Some (v', [])"
  using assms
proof (induction v s rule: string2ll_loop.induct)
  case (2 v c p)
  let ?d = "unat (c - 48)"
  have "c \<in> set (dec_nat v')" using "2.prems"(2) by simp
  then have c: "48 \<le> c" "c \<le> 57" by (auto dest: dec_nat_digits)
  have dn: "dec_nat (v * 10 + ?d) = dec_nat v @ [c]"
    using digit_byte [OF c] "2.prems"(1) by (simp add: dec_nat_snoc)
  then have dn': "dec_nat (v * 10 + ?d) @ p = dec_nat v'" using "2.prems"(2) by simp
  then have ov: "v * 10 + ?d \<le> ULLONG_MAX"
    using dec_nat_prefix_le [OF dn'] "2.prems"(3) by linarith
  then have "(v * 10) mod 2 ^ 64 = v * 10" "v \<le> ULLONG_MAX div 10" "(v * 10 + ?d) mod 2 ^ 64 = v * 10 + ?d"
    by simp_all
  then show ?case
    using c ov "2.IH" [of "v * 10" ?d] dn' "2.prems" by (auto simp: Let_def)
qed auto

lemma dec_nat_hd: "0 < v \<Longrightarrow> 49 \<le> hd (dec_nat v) \<and> hd (dec_nat v) \<le> 57"
proof (induction v rule: dec_nat.induct)
  case (1 v)
  show ?case
  proof (cases "v < 10")
    case True
    have "unat (48 + of_nat v :: byte) = 48 + v"
      using True by (simp add: unat_word_ariths unat_of_nat)
    then show ?thesis
      using True "1.prems" by (simp add: dec_nat.simps [of v] word_le_nat_alt)
  next
    case False
    then show ?thesis
      using "1.IH" by (simp add: dec_nat.simps [of v])
  qed
qed

lemma dec_nat_0: "dec_nat 0 = [48]"
  by (simp add: dec_nat.simps)

lemma dec_nat_one: "0 < v \<Longrightarrow> v < 10 \<Longrightarrow> dec_nat v = [48 + of_nat v]"
  by (simp add: dec_nat.simps)

text \<open>The unsigned part of \<open>string2ll\<close>: a first digit 1 to 9 and the loop.\<close>

lemma string2ll_digits:
  "(c = c1 # p \<and> 49 \<le> c1 \<and> c1 \<le> 57 \<and> string2ll_loop (unat (c1 - 48)) p = Some (v, []))
    \<longleftrightarrow> (c = c1 # p \<and> 0 < v \<and> v \<le> ULLONG_MAX \<and> c = dec_nat v)"
proof (intro iffI; elim conjE)
  assume a: "c = c1 # p" "49 \<le> c1" "c1 \<le> 57" "string2ll_loop (unat (c1 - 48)) p = Some (v, [])"
  let ?d = "unat (c1 - 48)"
  have "48 \<le> c1" using a(2) by (rule order_trans [rotated]) simp
  note d = digit_byte [OF this a(3)]
  have "unat c1 \<ge> 49" using a(2) by (simp add: word_le_nat_alt)
  then have "0 < ?d" using \<open>48 \<le> c1\<close> by (simp add: unat_sub)
  with d a(4) string2ll_loop_sound [of ?d p v] have "dec_nat v = dec_nat ?d @ p" "v \<le> ULLONG_MAX"
    by auto
  with \<open>0 < ?d\<close> d a(1) show "c = c1 # p \<and> 0 < v \<and> v \<le> ULLONG_MAX \<and> c = dec_nat v"
    using dec_nat_0 by (cases "v = 0") (auto simp: dec_nat_one)
next
  assume a: "c = c1 # p" "0 < v" "v \<le> ULLONG_MAX" "c = dec_nat v"
  then have c1: "49 \<le> c1" "c1 \<le> 57" using dec_nat_hd [of v] by (metis list.sel(1))+
  have "48 \<le> c1" using c1(1) by (rule order_trans [rotated]) simp
  note d = digit_byte [OF this c1(2)]
  have "unat c1 \<ge> 49" using c1(1) by (simp add: word_le_nat_alt)
  then have "0 < unat (c1 - 48)" using \<open>48 \<le> c1\<close> by (simp add: unat_sub)
  then have "string2ll_loop (unat (c1 - 48)) p = Some (v, [])"
    using a d by (intro string2ll_loop_complete) (simp_all add: dec_nat_one)
  with a c1 show "c = c1 # p \<and> 49 \<le> c1 \<and> c1 \<le> 57 \<and> string2ll_loop (unat (c1 - 48)) p = Some (v, [])"
    by simp
qed

definition string2ll_u :: "byte list \<Rightarrow> nat option" where
  "string2ll_u p =
    (case p of [] \<Rightarrow> None
     | c # q \<Rightarrow> if 49 \<le> c \<and> c \<le> 57
         then (case string2ll_loop (unat (c - 48)) q of Some (v, []) \<Rightarrow> Some v | _ \<Rightarrow> None)
         else None)"

lemma string2ll_u_iff: "string2ll_u p = Some v \<longleftrightarrow> 0 < v \<and> v \<le> ULLONG_MAX \<and> p = dec_nat v"
proof (cases p)
  case Nil
  then show ?thesis by (simp add: string2ll_u_def)
next
  case (Cons c q)
  have "string2ll_u p = Some v \<longleftrightarrow>
      49 \<le> c \<and> c \<le> 57 \<and> string2ll_loop (unat (c - 48)) q = Some (v, [])"
    by (auto simp: string2ll_u_def Cons split: option.splits list.splits)
  also have "\<dots> \<longleftrightarrow> 0 < v \<and> v \<le> ULLONG_MAX \<and> p = dec_nat v"
    using string2ll_digits [of p c q v] Cons by simp
  finally show ?thesis .
qed

lemma string2ll_alt:
  "string2ll s =
    (if s = [48] then Some 0
     else if s \<noteq> [] \<and> hd s = 45
     then (case string2ll_u (tl s) of None \<Rightarrow> None
           | Some v \<Rightarrow> if v > 9223372036854775808 then None
                       else Some (ll_of_ull ((2 ^ 64 - v) mod 2 ^ 64)))
     else (case string2ll_u s of None \<Rightarrow> None
           | Some v \<Rightarrow> if int v > LLONG_MAX then None else Some (ll_of_ull v)))"
proof (cases s)
  case Nil
  then show ?thesis by (simp add: string2ll_def string2ll_u_def)
next
  case (Cons c q)
  show ?thesis
  proof (cases "c = 45")
    case True
    then show ?thesis
      by (cases q) (auto simp: Cons string2ll_def string2ll_u_def split: option.splits list.splits)
  next
    case False
    then show ?thesis
      by (auto simp: Cons string2ll_def string2ll_u_def split: option.splits list.splits)
  qed
qed

lemma string2ll_spec: "string2ll s = Some v \<longleftrightarrow> LLONG_MIN \<le> v \<and> v \<le> LLONG_MAX \<and> s = dec v"
proof -
  have pos: "string2ll s = Some v \<longleftrightarrow> LLONG_MIN \<le> v \<and> v \<le> LLONG_MAX \<and> s = dec v"
    if ns: "s \<noteq> [48]" "\<not> (s \<noteq> [] \<and> hd s = 45)"
  proof -
    have "string2ll s = Some v \<longleftrightarrow> (\<exists>n. string2ll_u s = Some n \<and> int n \<le> LLONG_MAX \<and> v = int n)"
      using ns by (auto simp: string2ll_alt ll_of_ull_def split: option.splits)
    also have "\<dots> \<longleftrightarrow> (0 < v \<and> v \<le> LLONG_MAX \<and> s = dec_nat (nat v))"
      by (auto simp: string2ll_u_iff intro: exI [of _ "nat v"])
    also have "\<dots> \<longleftrightarrow> LLONG_MIN \<le> v \<and> v \<le> LLONG_MAX \<and> s = dec v"
      using ns dec_nat_0 by (cases "v = 0") (auto simp: dec_def)
    finally show ?thesis .
  qed
  have neg: "string2ll s = Some v \<longleftrightarrow> LLONG_MIN \<le> v \<and> v \<le> LLONG_MAX \<and> s = dec v"
    if ns: "s \<noteq> []" "hd s = 45"
  proof -
    have conv: "0 < n \<Longrightarrow> n \<le> 9223372036854775808 \<Longrightarrow> ll_of_ull ((2 ^ 64 - n) mod 2 ^ 64) = - int n" for n
      by (auto simp: ll_of_ull_def)
    have "string2ll s = Some v \<longleftrightarrow>
        (\<exists>n. string2ll_u (tl s) = Some n \<and> n \<le> 9223372036854775808 \<and> v = ll_of_ull ((2 ^ 64 - n) mod 2 ^ 64))"
      using ns by (auto simp: string2ll_alt split: option.splits)
    also have "\<dots> \<longleftrightarrow> (\<exists>n. 0 < n \<and> n \<le> 9223372036854775808 \<and> tl s = dec_nat n \<and> v = - int n)"
      using conv by (auto simp: string2ll_u_iff)
    also have "\<dots> \<longleftrightarrow> (LLONG_MIN \<le> v \<and> v < 0 \<and> tl s = dec_nat (nat (- v)))"
      by (auto intro: exI [of _ "nat (- v)"])
    also have "\<dots> \<longleftrightarrow> LLONG_MIN \<le> v \<and> v \<le> LLONG_MAX \<and> s = dec v"
    proof -
      have "s \<noteq> dec_nat n" for n
        using ns dec_nat_digits [of 45 n] by (auto dest: hd_in_set)
      moreover have "s = 45 # tl s" using ns by (metis list.collapse)
      ultimately show ?thesis by (auto simp: dec_def)
    qed
    finally show ?thesis .
  qed
  show ?thesis
  proof (cases "s = [48]")
    case True
    have "dec v = [48] \<longleftrightarrow> v = 0"
      using dec_nat_inject [of "nat v" 0] by (auto simp: dec_def dec_nat_0 simp del: dec_nat_inject)
    with True show ?thesis by (auto simp: string2ll_alt)
  qed (use pos neg in blast)
qed

lemma sdigits10_spec: "sdigits10 v = length (dec v)"
  by (auto simp: sdigits10_def dec_def digits10_spec Let_def)

lemma length_dec_nat_le: "n < 10 ^ Suc k \<Longrightarrow> length (dec_nat n) \<le> Suc k"
proof (induction k arbitrary: n)
  case 0
  then show ?case by (simp add: length_dec_nat_small)
next
  case (Suc k)
  show ?case
  proof (cases "n < 10 ^ Suc k")
    case True
    then show ?thesis using Suc.IH [of n] by simp
  next
    case False
    then show ?thesis using Suc.prems length_dec_nat_eq [of "Suc k" n] by simp
  qed
qed

lemma length_dec_le:
  assumes "LLONG_MIN \<le> v" "v \<le> LLONG_MAX"
  shows "length (dec v) \<le> 20"
proof -
  have "length (dec_nat (nat \<bar>v\<bar>)) \<le> Suc 18"
    using assms by (intro length_dec_nat_le) simp
  then show ?thesis by (auto simp: dec_def)
qed

section \<open>Properties\<close>

text \<open>
  C23: \<open>ll2string\<close> writes exactly the decimal notation of the value, NUL-terminated, and leaves the
  rest of the buffer alone; it returns 0 and writes nothing when the buffer has no room.  The code's
  length computation, two-digit table and backwards fill are all part of the statement.
\<close>

theorem ll2string_correct:
  "ll2string dst v =
    (if sdigits10 v < length dst
     then (length (dec v), dec v @ 0 # drop (length (dec v) + 1) dst)
     else (0, dst))"
  by (simp add: ll2string_spec sdigits10_spec)

text \<open>
  C40: \<open>string2ll\<close> is the exact inverse of \<open>ll2string\<close>: it accepts a string exactly when the string is what
  \<open>ll2string\<close> prints, in a buffer of at least 21 bytes, for some \<open>long long\<close>, and returns that value.  So
  every value is read back, and other spellings (signs, leading zeros, blanks) and values out of range
  are refused.
\<close>

theorem string2ll_inverse:
  assumes "21 \<le> length dst"
  shows "string2ll s = Some v \<longleftrightarrow>
    LLONG_MIN \<le> v \<and> v \<le> LLONG_MAX \<and> take (fst (ll2string dst v)) (snd (ll2string dst v)) = s"
  using assms length_dec_le [of v] by (auto simp: ll2string_spec string2ll_spec)

theorem string2ll_inverse_witness:
  "string2ll (take (fst (ll2string (replicate 21 0) LLONG_MIN)) (snd (ll2string (replicate 21 0) LLONG_MIN)))
     = Some LLONG_MIN"
  using string2ll_inverse [of "replicate 21 0" "take (fst (ll2string (replicate 21 0) LLONG_MIN)) (snd (ll2string (replicate 21 0) LLONG_MIN))" LLONG_MIN]
  by simp

end
