(* ===== verification/Glob.thy ===== *)
theory Glob
  imports Prelude
begin

text \<open>
  Glob-style pattern matching: \<open>stringmatchlen\<close> of \<open>util.c\<close>.  The code reads the byte after
  the pattern in several places, so the pattern is a pointer \<open>p\<close> into a memory of bytes together
  with the (signed) length \<open>patternLen\<close>, and what lies behind the pattern is part of the model.
  Every loop spends fuel, and running out of fuel is \<open>None\<close>; \<open>stringmatchlen_correct\<close> shows that
  for a NUL-terminated pattern \<open>2 * patternLen + stringLen + 2\<close> units are enough.  The reference is a
  parser of patterns into tokens and a matcher of token lists.
\<close>

section \<open>The code\<close>

type_synonym mem = "nat \<Rightarrow> byte"

text \<open>\<open>tolower\<close> of the C locale, on the \<open>int\<close> value of a character.\<close>

definition c_tolower :: "int \<Rightarrow> int" where
  "c_tolower c = (if 65 \<le> c \<and> c \<le> 90 then c + 32 else c)"

text \<open>\<open>while (pattern[off] == '*') { pattern++; patternLen--; }\<close>\<close>

fun sml_stars :: "nat \<Rightarrow> mem \<Rightarrow> nat \<Rightarrow> nat \<Rightarrow> int \<Rightarrow> (nat \<times> int) option" where
  "sml_stars 0 m off p plen = None"
| "sml_stars (Suc f) m off p plen =
    (if m (p + off) = 42 then sml_stars f m off (p + 1) (plen - 1) else Some (p, plen))"

text \<open>The comparison of one pattern character with one string character.\<close>

definition sml_eq :: "bool \<Rightarrow> byte \<Rightarrow> byte \<Rightarrow> bool" where
  "sml_eq nocase a c =
    (if \<not> nocase then a = c else c_tolower (sint a) = c_tolower (sint c))"

text \<open>The test of a range \<open>a-b\<close> of a character class, on signed characters.\<close>

definition sml_range :: "bool \<Rightarrow> byte \<Rightarrow> byte \<Rightarrow> byte \<Rightarrow> bool" where
  "sml_range nocase a b c0 =
    (let start = sint a; end' = sint b; c = sint c0;
         (start, end') = (if start > end' then (end', start) else (start, end'));
         (start, end', c) = (if nocase then (c_tolower start, c_tolower end', c_tolower c)
                             else (start, end', c))
     in c \<ge> start \<and> c \<le> end')"

text \<open>The loop over a character class; \<open>c\<close> is \<open>string[0]\<close>.\<close>

fun sml_class :: "nat \<Rightarrow> mem \<Rightarrow> nat \<Rightarrow> int \<Rightarrow> byte \<Rightarrow> bool \<Rightarrow> bool \<Rightarrow> (nat \<times> int \<times> bool) option" where
  "sml_class 0 m p plen c nocase match = None"
| "sml_class (Suc f) m p plen c nocase match =
    (if m p = 92 \<and> plen \<ge> 2 then
       (let p1 = p + 1; plen1 = plen - 1; match1 = (match \<or> m p1 = c)
        in sml_class f m (p1 + 1) (plen1 - 1) c nocase match1)
     else if m p = 93 then Some (p, plen, match)
     else if plen = 0 then Some (p - 1, plen + 1, match)
     else if m (p + 1) = 45 \<and> plen \<ge> 3 then
       (let match1 = (match \<or> sml_range nocase (m p) (m (p + 2)) c)
        in sml_class f m (p + 2 + 1) (plen - 2 - 1) c nocase match1)
     else
       sml_class f m (p + 1) (plen - 1) c nocase (match \<or> sml_eq nocase (m p) c))"

text \<open>
  The cases \<open>?\<close>, \<open>[\<close>, backslash and default of the switch: \<open>Some None\<close> is \<open>return 0\<close>,
  \<open>Some (Some (p, plen))\<close> is the pattern before the final \<open>pattern++; patternLen--\<close>; one
  character of the string has been consumed.
\<close>

definition sml_step :: "nat \<Rightarrow> mem \<Rightarrow> nat \<Rightarrow> int \<Rightarrow> byte list \<Rightarrow> bool \<Rightarrow> (nat \<times> int) option option" where
  "sml_step f m p plen s nocase =
    (if m p = 63 then
       (if length s = 0 then Some None else Some (Some (p, plen)))
     else if m p = 91 then
       (let p1 = p + 1; plen1 = plen - 1;
            neg = (m p1 = 94);
            (p2, plen2) = (if neg then (p1 + 1, plen1 - 1) else (p1, plen1))
        in case sml_class f m p2 plen2 (s ! 0) nocase False of
             None \<Rightarrow> None
           | Some (p3, plen3, match) \<Rightarrow>
               (let match' = (if neg then \<not> match else match)
                in if \<not> match' then Some None else Some (Some (p3, plen3))))
     else
       (let (p1, plen1) = (if m p = 92 \<and> plen \<ge> 2 then (p + 1, plen - 1) else (p, plen))
        in if \<not> sml_eq nocase (m p1) (s ! 0) then Some None else Some (Some (p1, plen1))))"

text \<open>
  \<open>stringmatchlen\<close>; \<open>stringmatch_star\<close> is the loop \<open>while (stringLen)\<close> of the case \<open>*\<close>, which
  calls \<open>stringmatchlen\<close> on every suffix of the string.
\<close>

fun stringmatchlen :: "nat \<Rightarrow> mem \<Rightarrow> nat \<Rightarrow> int \<Rightarrow> byte list \<Rightarrow> bool \<Rightarrow> bool option"
  and stringmatch_star :: "nat \<Rightarrow> mem \<Rightarrow> nat \<Rightarrow> int \<Rightarrow> byte list \<Rightarrow> bool \<Rightarrow> bool option"
where
  "stringmatchlen 0 m p plen s nocase = None"
| "stringmatchlen (Suc f) m p plen s nocase =
    (if plen \<noteq> 0 \<and> length s \<noteq> 0 then
       (if m p = 42 then
          (case sml_stars (Suc f) m 1 p plen of
             None \<Rightarrow> None
           | Some (p1, plen1) \<Rightarrow>
               if plen1 = 1 then Some True else stringmatch_star f m p1 plen1 s nocase)
        else
          (case sml_step (Suc f) m p plen s nocase of
             None \<Rightarrow> None
           | Some None \<Rightarrow> Some False
           | Some (Some (p1, plen1)) \<Rightarrow>
               (let p2 = p1 + 1; plen2 = plen1 - 1; s' = tl s
                in if length s' = 0 then
                     (case sml_stars (Suc f) m 0 p2 plen2 of
                        None \<Rightarrow> None
                      | Some (p3, plen3) \<Rightarrow> Some (plen3 = 0 \<and> length s' = 0))
                   else stringmatchlen f m p2 plen2 s' nocase)))
     else Some (plen = 0 \<and> length s = 0))"
| "stringmatch_star 0 m p plen s nocase = None"
| "stringmatch_star (Suc f) m p plen s nocase =
    (if length s = 0 then Some False
     else
       (case stringmatchlen f m (p + 1) (plen - 1) s nocase of
          None \<Rightarrow> None
        | Some True \<Rightarrow> Some True
        | Some False \<Rightarrow> stringmatch_star f m p plen (tl s) nocase))"

section \<open>The reference: tokens\<close>

datatype cls_item = CEsc byte | CRange byte byte | CChar byte

datatype tok = Star | AnyChar | Lit byte | Cls bool "cls_item list"

fun parse_cls :: "byte list \<Rightarrow> cls_item list \<times> byte list" where
  "parse_cls [] = ([], [])"
| "parse_cls (a # r) =
    (if a = 92 \<and> r \<noteq> [] then
       (let (is, rest) = parse_cls (tl r) in (CEsc (hd r) # is, rest))
     else if a = 93 then ([], r)
     else if length r \<ge> 2 \<and> hd r = 45 then
       (let (is, rest) = parse_cls (tl (tl r)) in (CRange a (hd (tl r)) # is, rest))
     else (let (is, rest) = parse_cls r in (CChar a # is, rest)))"

lemma parse_cls_length: "length (snd (parse_cls r)) \<le> length r"
  by (induction r rule: parse_cls.induct) (auto simp: Let_def split_beta)

definition parse_bracket :: "byte list \<Rightarrow> tok \<times> byte list" where
  "parse_bracket r =
    (let neg = (r \<noteq> [] \<and> hd r = 94);
         (is, rest) = parse_cls (if neg then tl r else r)
     in (Cls neg is, rest))"

lemma parse_bracket_length: "length (snd (parse_bracket r)) \<le> length r"
  using parse_cls_length [of r] parse_cls_length [of "tl r"]
  by (auto simp: parse_bracket_def Let_def split_beta)

function parse_glob :: "byte list \<Rightarrow> tok list" where
  "parse_glob [] = []"
| "parse_glob (a # r) =
    (if a = 42 then Star # parse_glob r
     else if a = 63 then AnyChar # parse_glob r
     else if a = 91 then fst (parse_bracket r) # parse_glob (snd (parse_bracket r))
     else if a = 92 \<and> r \<noteq> [] then Lit (hd r) # parse_glob (tl r)
     else Lit a # parse_glob r)"
  by pat_completeness auto
termination
  by (relation "measure length") (auto simp: parse_bracket_length le_imp_less_Suc)

text \<open>
  Characters up to case, if it is ignored; a range holds what lies between its bounds, whichever is
  given first.
\<close>

definition fold_char :: "bool \<Rightarrow> byte \<Rightarrow> int" where
  "fold_char nc a = (if nc then c_tolower (sint a) else sint a)"

definition char_between :: "bool \<Rightarrow> byte \<Rightarrow> byte \<Rightarrow> byte \<Rightarrow> bool" where
  "char_between nc a b c \<longleftrightarrow>
    (if sint a \<le> sint b then fold_char nc c \<in> {fold_char nc a..fold_char nc b}
     else fold_char nc c \<in> {fold_char nc b..fold_char nc a})"

lemma sml_eq_fold [simp]: "sml_eq nc a c \<longleftrightarrow> fold_char nc a = fold_char nc c"
  by (auto simp: sml_eq_def fold_char_def intro: signed_word_eqI)

lemma sml_range_between [simp]: "sml_range nc a b c \<longleftrightarrow> char_between nc a b c"
  by (auto simp: sml_range_def char_between_def fold_char_def Let_def)

fun item_matches :: "bool \<Rightarrow> byte \<Rightarrow> cls_item \<Rightarrow> bool" where
  "item_matches nc c (CEsc a) = (a = c)"
| "item_matches nc c (CRange a b) = char_between nc a b c"
| "item_matches nc c (CChar a) = (fold_char nc a = fold_char nc c)"

fun tok_matches :: "bool \<Rightarrow> tok \<Rightarrow> byte \<Rightarrow> bool" where
  "tok_matches nc Star c = True"
| "tok_matches nc AnyChar c = True"
| "tok_matches nc (Lit a) c = (fold_char nc a = fold_char nc c)"
| "tok_matches nc (Cls neg is) c = ((\<exists>i \<in> set is. item_matches nc c i) \<noteq> neg)"

text \<open>A token list matches a string: a star stands for any string, any other token for one character.\<close>

fun glob_matches :: "bool \<Rightarrow> tok list \<Rightarrow> byte list \<Rightarrow> bool" where
  "glob_matches nc [] s = (s = [])"
| "glob_matches nc (t # ts) s =
    (if t = Star then \<exists>k \<in> {..length s}. glob_matches nc ts (drop k s)
     else s \<noteq> [] \<and> tok_matches nc t (hd s) \<and> glob_matches nc ts (tl s))"

text \<open>The pattern bytes \<open>pat\<close> are at \<open>p\<close> in memory, followed by a NUL byte.\<close>

primrec pat_at :: "mem \<Rightarrow> nat \<Rightarrow> byte list \<Rightarrow> bool" where
  "pat_at m p [] = (m p = 0)"
| "pat_at m p (c # cs) = (m p = c \<and> pat_at m (Suc p) cs)"

section \<open>Correctness\<close>

lemma pat_at_Suc: "pat_at m p (c # cs) \<Longrightarrow> m (Suc p) = (case cs of [] \<Rightarrow> 0 | d # _ \<Rightarrow> d)"
  by (cases cs) auto

lemma sml_stars_0:
  assumes "pat_at m p pat" "length pat < f"
  shows "sml_stars f m 0 p (int (length pat)) =
    Some (p + length (takeWhile ((=) 42) pat), int (length (dropWhile ((=) 42) pat)))"
  using assms
proof (induction pat arbitrary: f p)
  case Nil
  then show ?case by (cases f) auto
next
  case (Cons a pat)
  then obtain f' where "f = Suc f'" by (cases f) auto
  with Cons show ?case by auto
qed

text \<open>Skipping stars behind a first star: \<open>n\<close> further ones, then the rest \<open>pat'\<close> that does not start with one.\<close>

lemma sml_stars_1:
  assumes "pat_at m p (42 # pat)" "length pat < f"
  shows "sml_stars f m 1 p (int (length pat) + 1) =
    Some (p + length (takeWhile ((=) 42) pat), int (length (dropWhile ((=) 42) pat)) + 1)"
  using assms
proof (induction pat arbitrary: f p)
  case Nil
  then show ?case by (cases f) auto
next
  case (Cons a pat)
  then obtain f' where "f = Suc f'" by (cases f) auto
  with Cons show ?case by (auto simp: algebra_simps)
qed

lemma pat_at_dropWhile:
  "pat_at m p pat \<Longrightarrow> pat_at m (p + length (takeWhile P pat)) (dropWhile P pat)"
  by (induction pat arbitrary: p) (auto simp flip: add_Suc)

lemma sml_class_correct:
  assumes "pat_at m p pat" "0 < p" "length pat < f"
  shows "\<exists>p'. sml_class f m p (int (length pat)) c nc b =
      Some (p', int (length (snd (parse_cls pat))) + 1,
            b \<or> (\<exists>i \<in> set (fst (parse_cls pat)). item_matches nc c i)) \<and>
      pat_at m (Suc p') (snd (parse_cls pat))"
  using assms
proof (induction pat arbitrary: p f b rule: parse_cls.induct)
  case 1
  then show ?case by (cases f) auto
next
  case (2 a r)
  then obtain f' where f: "f = Suc f'" by (cases f) auto
  consider (esc) "a = 92" "r \<noteq> []" | (close) "a = 93"
    | (range) "\<not> (a = 92 \<and> r \<noteq> [])" "a \<noteq> 93" "length r \<ge> 2" "hd r = 45"
    | (char) "\<not> (a = 92 \<and> r \<noteq> [])" "a \<noteq> 93" "\<not> (length r \<ge> 2 \<and> hd r = 45)"
    by auto
  then show ?case
  proof cases
    case esc
    then obtain x r' where r: "r = x # r'" by (cases r) auto
    with 2 f esc have "pat_at m (Suc (Suc p)) r'" "length r' < f'" by auto
    with "2.IH"(1) [of "Suc (Suc p)" f' "b \<or> x = c"] esc r
    obtain p' where "sml_class f' m (Suc (Suc p)) (int (length r')) c nc (b \<or> x = c) =
      Some (p', int (length (snd (parse_cls r'))) + 1,
            (b \<or> x = c) \<or> (\<exists>i \<in> set (fst (parse_cls r')). item_matches nc c i))"
      "pat_at m (Suc p') (snd (parse_cls r'))" by auto
    then show ?thesis
      using 2 f esc r by (intro exI [of _ p']) (auto simp: Let_def split_beta)
  next
    case close
    then show ?thesis using 2 f by auto
  next
    case range
    then obtain y r' where r: "r = 45 # y # r'"
      by (cases r; cases "tl r") auto
    with 2 f range have "pat_at m (Suc (Suc (Suc p))) r'" "length r' < f'" by auto
    with "2.IH"(2) [of "Suc (Suc (Suc p))" f' "b \<or> char_between nc a y c"] range r
    obtain p' where "sml_class f' m (Suc (Suc (Suc p))) (int (length r')) c nc (b \<or> char_between nc a y c) =
      Some (p', int (length (snd (parse_cls r'))) + 1,
            (b \<or> char_between nc a y c) \<or> (\<exists>i \<in> set (fst (parse_cls r')). item_matches nc c i))"
      "pat_at m (Suc p') (snd (parse_cls r'))" by auto
    then show ?thesis
      using 2 f range r by (intro exI [of _ p']) (auto simp: Let_def split_beta eval_nat_numeral)
  next
    case char
    with 2 f have "pat_at m (Suc p) r" "length r < f'" by auto
    with "2.IH"(3) [of "Suc p" f' "b \<or> fold_char nc a = fold_char nc c"] char
    obtain p' where "sml_class f' m (Suc p) (int (length r)) c nc (b \<or> fold_char nc a = fold_char nc c) =
      Some (p', int (length (snd (parse_cls r))) + 1,
            (b \<or> fold_char nc a = fold_char nc c) \<or> (\<exists>i \<in> set (fst (parse_cls r)). item_matches nc c i))"
      "pat_at m (Suc p') (snd (parse_cls r))" by auto
    moreover have "\<not> (m (Suc p) = 45 \<and> 3 \<le> 1 + int (length r))"
      using char 2 by (cases r) auto
    moreover have "\<not> (a = 92 \<and> 2 \<le> 1 + int (length r))"
      using char by (cases r) auto
    ultimately show ?thesis
      using 2 f char by (intro exI [of _ p']) (auto simp: Let_def split_beta)
  qed
qed

lemma sml_step_correct:
  assumes "pat_at m p (a # r)" "a \<noteq> 42" "length r < f"
  shows "\<exists>t rest p'. parse_glob (a # r) = t # parse_glob rest \<and> t \<noteq> Star \<and>
    length rest \<le> length r \<and> pat_at m (Suc p') rest \<and>
    sml_step f m p (int (length r) + 1) (c # s) nc =
      Some (if tok_matches nc t c then Some (p', int (length rest) + 1) else None)"
proof -
  consider (any) "a = 63" | (cls) "a = 91" | (esc) "a = 92" "r \<noteq> []"
    | (lit) "a \<noteq> 63" "a \<noteq> 91" "\<not> (a = 92 \<and> r \<noteq> [])" by auto
  then show ?thesis
  proof cases
    case any
    then show ?thesis
      using assms by (intro exI [of _ AnyChar] exI [of _ r] exI [of _ p]) (auto simp: sml_step_def)
  next
    case cls
    define neg where "neg = (r \<noteq> [] \<and> hd r = 94)"
    define q where "q = (if neg then tl r else r)"
    define p2 where "p2 = (if neg then p + 2 else p + 1)"
    have neg: "(m (Suc p) = 94) = neg"
      using assms(1) by (cases r) (auto simp: neg_def)
    have q: "pat_at m p2 q" "0 < p2" "length q < f"
      using assms by (cases r; auto simp: q_def p2_def neg_def)+
    have plen: "(if neg then int (length r) - 1 else int (length r)) = int (length q)"
      by (cases r) (auto simp: q_def neg_def)
    obtain p' where cl: "sml_class f m p2 (int (length q)) c nc False =
        Some (p', int (length (snd (parse_cls q))) + 1,
              (\<exists>i \<in> set (fst (parse_cls q)). item_matches nc c i))"
      and rest: "pat_at m (Suc p') (snd (parse_cls q))"
      using sml_class_correct [OF q, of c nc False] by auto
    have pb: "parse_bracket r = (Cls neg (fst (parse_cls q)), snd (parse_cls q))"
      by (simp add: parse_bracket_def Let_def split_beta q_def neg_def)
    have len: "length (snd (parse_cls q)) \<le> length r"
      using parse_cls_length [of q] by (auto simp: q_def split: if_splits)
    have "sml_step f m p (int (length r) + 1) (c # s) nc =
        (case sml_class f m p2 (int (length q)) c nc False of
           None \<Rightarrow> None
         | Some (p3, plen3, match) \<Rightarrow>
             if (if neg then match else \<not> match) then Some None else Some (Some (p3, plen3)))"
      using assms(1) cls neg plen
      by (cases neg) (auto simp: sml_step_def p2_def Let_def split: option.splits)
    then show ?thesis
      using cls pb rest len cl
      by (intro exI [of _ "Cls neg (fst (parse_cls q))"] exI [of _ "snd (parse_cls q)"] exI [of _ p'])
        (cases neg; auto)
  next
    case esc
    then obtain x r' where r: "r = x # r'" by (cases r) auto
    then show ?thesis
      using assms esc by (intro exI [of _ "Lit x"] exI [of _ r'] exI [of _ "Suc p"]) (auto simp: sml_step_def)
  next
    case lit
    then have "\<not> (a = 92 \<and> 2 \<le> int (length r) + 1)" by (cases r) auto
    with lit show ?thesis
      using assms by (intro exI [of _ "Lit a"] exI [of _ r] exI [of _ p]) (auto simp: sml_step_def)
  qed
qed

lemma parse_glob_stars:
  "parse_glob pat = replicate (length (takeWhile ((=) 42) pat)) Star @ parse_glob (dropWhile ((=) 42) pat)"
  by (induction pat) auto

lemma parse_glob_hd: "a \<noteq> 42 \<Longrightarrow> \<exists>t ts. parse_glob (a # r) = t # ts \<and> t \<noteq> Star"
  by (auto simp: parse_bracket_def Let_def split_beta)

lemma glob_matches_Nil_iff: "glob_matches nc ts [] \<longleftrightarrow> (\<forall>t \<in> set ts. t = Star)"
  by (induction ts) auto

lemma glob_matches_star2: "glob_matches nc (Star # Star # ts) s \<longleftrightarrow> glob_matches nc (Star # ts) s"
proof
  assume "glob_matches nc (Star # Star # ts) s"
  then obtain j k where "k \<le> length s" "j \<le> length s - k" "glob_matches nc ts (drop (j + k) s)"
    by (auto simp: Bex_def)
  then show "glob_matches nc (Star # ts) s"
    by (auto intro!: bexI [of _ "j + k"])
next
  assume "glob_matches nc (Star # ts) s"
  then have "glob_matches nc (Star # ts) (drop 0 s)" by simp
  then show "glob_matches nc (Star # Star # ts) s"
    by (subst glob_matches.simps(2)) (auto simp del: glob_matches.simps intro: bexI [of _ 0])
qed

lemma glob_matches_stars:
  "glob_matches nc (Star # replicate n Star @ ts) s \<longleftrightarrow> glob_matches nc (Star # ts) s"
proof (induction n)
  case (Suc n)
  have "glob_matches nc (Star # replicate (Suc n) Star @ ts) s
      = glob_matches nc (Star # Star # replicate n Star @ ts) s" by simp
  also have "\<dots> = glob_matches nc (Star # replicate n Star @ ts) s"
    by (rule glob_matches_star2)
  finally show ?case using Suc by simp
qed simp

lemma glob_matches_star_less:
  assumes "\<not> glob_matches nc ts []"
  shows "glob_matches nc (Star # ts) s \<longleftrightarrow> (\<exists>k < length s. glob_matches nc ts (drop k s))"
proof -
  have "k \<le> length s \<and> glob_matches nc ts (drop k s) \<longleftrightarrow> k < length s \<and> glob_matches nc ts (drop k s)" for k
    using assms by (cases "k = length s") auto
  then show ?thesis by (simp add: Bex_def)
qed

lemma dropWhile_stars_Nil: "dropWhile ((=) 42) pat = [] \<longleftrightarrow> (\<forall>t \<in> set (parse_glob pat). t = Star)"
proof -
  have "(\<forall>t \<in> set (parse_glob (dropWhile ((=) 42) pat)). t = Star) \<longleftrightarrow> dropWhile ((=) 42) pat = []"
  proof (cases "dropWhile ((=) 42) pat")
    case Nil
    then show ?thesis by (simp only: Nil) simp
  next
    case (Cons a r)
    then have "a \<noteq> 42" using hd_dropWhile [of "(=) 42" pat] by auto
    with Cons show ?thesis using parse_glob_hd [of a r] by auto
  qed
  then show ?thesis
    using parse_glob_stars [of pat] by auto
qed

definition sml_result :: "bool \<Rightarrow> byte list \<Rightarrow> byte list \<Rightarrow> bool" where
  "sml_result nc pat s = (if s = [] then pat = [] else glob_matches nc (parse_glob pat) s)"

lemma stringmatchlen_star_case:
  assumes "m p = 42" "s \<noteq> []" "plen \<noteq> 0" "sml_stars (Suc f) m 1 p plen = Some (p1, plen1)"
  shows "stringmatchlen (Suc f) m p plen s nc =
    (if plen1 = 1 then Some True else stringmatch_star f m p1 plen1 s nc)"
  using assms by (simp del: sml_stars.simps)

lemma stringmatchlen_step_case:
  assumes "m p \<noteq> 42" "s \<noteq> []" "plen \<noteq> 0" "sml_step (Suc f) m p plen s nc = Some r"
  shows "stringmatchlen (Suc f) m p plen s nc =
    (case r of None \<Rightarrow> Some False
     | Some (p1, plen1) \<Rightarrow>
         if tl s = [] then map_option (\<lambda>(p3, plen3). plen3 = 0) (sml_stars (Suc f) m 0 (Suc p1) (plen1 - 1))
         else stringmatchlen f m (Suc p1) (plen1 - 1) (tl s) nc)"
proof -
  have "length (tl s) = 0 \<longleftrightarrow> tl s = []" by (rule length_0_conv)
  with assms show ?thesis
    by (auto simp del: sml_stars.simps length_tl split: option.splits)
qed

lemma stringmatchlen_main:
  "\<forall>p pat s. pat_at m p pat \<longrightarrow> 2 * length pat + length s + 1 < f \<longrightarrow>
     stringmatchlen f m p (int (length pat)) s nc = Some (sml_result nc pat s)"
  "\<forall>p a r s. pat_at m (Suc p) (a # r) \<longrightarrow> a \<noteq> 42 \<longrightarrow> 2 * length r + 4 + length s < f \<longrightarrow>
     stringmatch_star f m p (int (length r) + 2) s nc =
       Some (\<exists>k < length s. glob_matches nc (parse_glob (a # r)) (drop k s))"
proof (induction f)
  case (Suc f)
  note IHA = Suc.IH(1) [rule_format] and IHB = Suc.IH(2) [rule_format]
  {
    case 1
    show ?case
    proof (intro allI impI)
      fix p pat and s :: "byte list"
      assume at: "pat_at m p pat" and fuel: "2 * length pat + length s + 1 < Suc f"
      show "stringmatchlen (Suc f) m p (int (length pat)) s nc = Some (sml_result nc pat s)"
      proof (cases "pat = [] \<or> s = []")
        case True
        then show ?thesis by (auto simp: sml_result_def)
      next
        case False
        then obtain a r c s' where pat: "pat = a # r" and s: "s = c # s'"
          by (cases pat; cases s) auto
        show ?thesis
        proof (cases "a = 42")
          case star: True
          let ?d = "dropWhile ((=) 42) r" and ?n = "length (takeWhile ((=) 42) r)"
          have stars: "sml_stars (Suc f) m 1 p (int (length r) + 1) = Some (p + ?n, int (length ?d) + 1)"
            using at fuel pat star by (intro sml_stars_1) auto
          have pg: "glob_matches nc (parse_glob pat) s = glob_matches nc (Star # parse_glob ?d) s"
            using pat star glob_matches_stars [of nc ?n "parse_glob ?d" s] parse_glob_stars [of r] by simp
          show ?thesis
          proof (cases ?d)
            case Nil
            have "glob_matches nc (Star # parse_glob ?d) s" unfolding Nil by (auto simp: Bex_def)
            with Nil at pg star pat s show ?thesis
              using stringmatchlen_star_case [OF _ _ _ stars, of s nc]
              by (simp add: sml_result_def add.commute del: glob_matches.simps stringmatchlen.simps)
          next
            case (Cons b r')
            have b: "b \<noteq> 42" using Cons hd_dropWhile [of "(=) 42" r] by auto
            have "pat_at m (Suc p + ?n) ?d"
              using at pat by (intro pat_at_dropWhile) simp
            then have atd: "pat_at m (Suc (p + ?n)) (b # r')" using Cons by simp
            have "length ?d \<le> length r" by (simp add: length_dropWhile_le)
            then have "2 * length r' + 4 + length s < f" using fuel Cons pat by simp
            then have "stringmatch_star f m (p + ?n) (int (length r') + 2) s nc =
                Some (\<exists>k < length s. glob_matches nc (parse_glob (b # r')) (drop k s))"
              by (intro IHB atd b)
            moreover have "\<not> glob_matches nc (parse_glob (b # r')) []"
              using parse_glob_hd [OF b, of r'] by (auto simp: glob_matches_Nil_iff)
            then have "(\<exists>k < length s. glob_matches nc (parse_glob (b # r')) (drop k s)) \<longleftrightarrow>
                glob_matches nc (Star # parse_glob (b # r')) s"
              by (rule glob_matches_star_less [symmetric])
            ultimately show ?thesis
              using stringmatchlen_star_case [OF _ _ _ stars, of s nc] at pg star pat s Cons
              by (simp add: sml_result_def add.commute del: glob_matches.simps stringmatchlen.simps)
          qed
        next
          case nostar: False
          obtain t rest p' where pg: "parse_glob pat = t # parse_glob rest" "t \<noteq> Star"
            and len: "length rest \<le> length r" and atr: "pat_at m (Suc p') rest"
            and step: "sml_step (Suc f) m p (int (length r) + 1) (c # s') nc =
              Some (if tok_matches nc t c then Some (p', int (length rest) + 1) else None)"
            using sml_step_correct [of m p a r "Suc f" c s' nc] at fuel pat nostar by auto
          have res: "sml_result nc pat s = (tok_matches nc t c \<and> glob_matches nc (parse_glob rest) s')"
            using pg s by (auto simp: sml_result_def)
          have st: "sml_stars (Suc f) m 0 (Suc p') (int (length rest)) =
              Some (Suc p' + length (takeWhile ((=) 42) rest), int (length (dropWhile ((=) 42) rest)))"
            using atr len fuel pat by (intro sml_stars_0) auto
          show ?thesis
          proof (cases "s' = []")
            case True
            have "glob_matches nc (parse_glob rest) [] \<longleftrightarrow> dropWhile ((=) 42) rest = []"
              by (simp only: glob_matches_Nil_iff dropWhile_stars_Nil)
            then show ?thesis
              using stringmatchlen_step_case [OF _ _ _ step] True s pat at nostar res st
              by (simp add: add.commute del: glob_matches.simps stringmatchlen.simps sml_stars.simps)
          next
            case False
            have "stringmatchlen f m (Suc p') (int (length rest)) s' nc = Some (sml_result nc rest s')"
              using atr fuel len pat s by (intro IHA) auto
            then show ?thesis
              using stringmatchlen_step_case [OF _ _ _ step] False s pat at nostar res
              by (simp add: sml_result_def add.commute del: glob_matches.simps stringmatchlen.simps sml_stars.simps)
          qed
        qed
      qed
    qed
  next
    case 2
    show ?case
    proof (intro allI impI)
      fix p a r and s :: "byte list"
      assume at: "pat_at m (Suc p) (a # r)" and a: "a \<noteq> 42" and fuel: "2 * length r + 4 + length s < Suc f"
      let ?G = "glob_matches nc (parse_glob (a # r))"
      show "stringmatch_star (Suc f) m p (int (length r) + 2) s nc = Some (\<exists>k < length s. ?G (drop k s))"
      proof (cases s)
        case Nil
        then show ?thesis by simp
      next
        case (Cons c s')
        have A: "stringmatchlen f m (Suc p) (int (length r) + 1) s nc = Some (?G s)"
          using IHA [OF at, of s] fuel Cons by (simp add: sml_result_def add.commute)
        have B: "stringmatch_star f m p (int (length r) + 2) s' nc = Some (\<exists>k < length s'. ?G (drop k s'))"
          using fuel Cons by (intro IHB at a) simp
        have "(\<exists>k < length s. ?G (drop k s)) \<longleftrightarrow> ?G s \<or> (\<exists>k < length s'. ?G (drop k s'))"
          unfolding Cons by (rule ex_drop_Cons)
        moreover have "stringmatch_star (Suc f) m p (int (length r) + 2) s nc =
            Some (?G s \<or> (\<exists>k < length s'. ?G (drop k s')))"
          using A B Cons by (simp add: add.commute [of 1] split: bool.split del: parse_glob.simps)
        ultimately show ?thesis by (simp only:)
      qed
    qed
  }
qed simp_all

section \<open>Properties\<close>

text \<open>
  C13: for every NUL-terminated pattern and every string, \<open>stringmatchlen\<close> returns (the fuel bound
  is enough), and a non-empty string is matched exactly when the parsed pattern matches it; the empty
  string is matched by the empty pattern only.
\<close>

theorem stringmatchlen_correct:
  assumes "pat_at m p pat" and "fuel \<ge> 2 * length pat + length s + 2"
  shows "stringmatchlen fuel m p (int (length pat)) s nocase =
    Some (if s = [] then pat = [] else glob_matches nocase (parse_glob pat) s)"
  using stringmatchlen_main(1) [of m fuel nocase, rule_format, OF assms(1), of s] assms(2)
  by (simp add: sml_result_def)

theorem stringmatchlen_correct_witness:
  "stringmatchlen 40 (\<lambda>i. (bytes ''h[a-e]*o'' @ [0]) ! i) 0 8 (bytes ''hello'') False = Some True"
proof -
  have p: "pat_at (\<lambda>i. (bytes ''h[a-e]*o'' @ [0]) ! i) 0 (bytes ''h[a-e]*o'')" by code_simp
  have l: "length (bytes ''h[a-e]*o'') = 8" "length (bytes ''hello'') = 5" "bytes ''hello'' \<noteq> []"
    by (simp_all add: bytes_def)
  have "glob_matches False (parse_glob (bytes ''h[a-e]*o'')) (bytes ''hello'')" by code_simp
  then show ?thesis
    using stringmatchlen_correct [OF p, of "bytes ''hello''" 40 False] l by simp
qed

end
