(* ===== verification/Refine.thy ===== *)
theory Refine
  imports Prelude
begin

text \<open>
  The contract between a data structure and its clients, as a simulation: every operation of the
  structure, run on a state that satisfies the invariant, returns, keeps the invariant and answers
  what the abstract operation answers on the abstract value.  The size bound says how long a
  sequence of operations may be before the counters of the structure could overflow.  Each
  container interprets the locale on its own operations; what it gets back is the same statement
  for arbitrary sequences of operations.
\<close>

text \<open>A sequence of operations on the structure; \<open>None\<close> when one of them fails.\<close>

fun run_ops :: "('op \<Rightarrow> 's \<Rightarrow> ('s \<times> 'r) option) \<Rightarrow> 'op list \<Rightarrow> 's \<Rightarrow> ('s \<times> 'r list) option" where
  "run_ops step [] s = Some (s, [])"
| "run_ops step (op # ops) s =
    (case step op s of
       None \<Rightarrow> None
     | Some (s1, r) \<Rightarrow>
         (case run_ops step ops s1 of None \<Rightarrow> None | Some (s2, rs) \<Rightarrow> Some (s2, r # rs)))"

text \<open>The same sequence on the abstract value.\<close>

fun run_spec :: "('op \<Rightarrow> 'a \<Rightarrow> 'a \<times> 'r) \<Rightarrow> 'op list \<Rightarrow> 'a \<Rightarrow> 'a \<times> 'r list" where
  "run_spec spec [] a = (a, [])"
| "run_spec spec (op # ops) a =
    (let (a1, r) = spec op a; (a2, rs) = run_spec spec ops a1 in (a2, r # rs))"

text \<open>Every operation of the sequence is legal on the abstract value it meets.\<close>

fun legal_run :: "('op \<Rightarrow> 'a \<Rightarrow> bool) \<Rightarrow> ('op \<Rightarrow> 'a \<Rightarrow> 'a \<times> 'r) \<Rightarrow> 'op list \<Rightarrow> 'a \<Rightarrow> bool" where
  "legal_run legal spec [] a \<longleftrightarrow> True"
| "legal_run legal spec (op # ops) a \<longleftrightarrow> legal op a \<and> legal_run legal spec ops (fst (spec op a))"

lemma legal_run_const [simp]: "legal_run (\<lambda>op _. P op) spec ops a \<longleftrightarrow> list_all P ops"
  by (induction ops arbitrary: a) auto

locale simulation =
  fixes step :: "'op \<Rightarrow> 's \<Rightarrow> ('s \<times> 'r) option"
    and spec :: "'op \<Rightarrow> 'a \<Rightarrow> 'a \<times> 'r"
    and abst :: "'s \<Rightarrow> 'a"
    and inv :: "'s \<Rightarrow> bool"
    and legal :: "'op \<Rightarrow> 'a \<Rightarrow> bool"
    and card_of :: "'s \<Rightarrow> nat"
    and limit :: nat
  assumes step_sim: "\<lbrakk>inv s; legal op (abst s); card_of s < limit\<rbrakk> \<Longrightarrow>
      \<exists>s' r. step op s = Some (s', r) \<and> inv s' \<and> spec op (abst s) = (abst s', r) \<and>
             card_of s' \<le> card_of s + 1"
begin

lemma run_sim:
  assumes "inv s" "legal_run legal spec ops (abst s)" "card_of s + length ops \<le> limit"
  shows "\<exists>s' rs. run_ops step ops s = Some (s', rs) \<and> inv s' \<and> run_spec spec ops (abst s) = (abst s', rs)"
  using assms
proof (induction ops arbitrary: s)
  case (Cons op ops)
  then obtain s1 r where 1: "step op s = Some (s1, r)" "inv s1" "spec op (abst s) = (abst s1, r)"
    "card_of s1 \<le> card_of s + 1"
    using step_sim [of s op] by auto
  with Cons.prems have "card_of s1 + length ops \<le> limit" by simp
  with Cons.IH [of s1] Cons.prems 1 obtain s2 rs where
    "run_ops step ops s1 = Some (s2, rs)" "inv s2" "run_spec spec ops (abst s1) = (abst s2, rs)"
    by auto
  with 1 show ?case by simp
qed simp

text \<open>What a client sees: the answers of a run are those of the abstract run.\<close>

lemma run_answers:
  assumes "inv s" "legal_run legal spec ops (abst s)" "card_of s + length ops \<le> limit"
  shows "map_option snd (run_ops step ops s) = Some (snd (run_spec spec ops (abst s)))"
  using run_sim [OF assms] by auto

end

end
