(* ===== verification/Dict.thy ===== *)
theory Dict
  imports Refine "HOL-Library.Monad_Syntax"
begin

text \<open>
  The hash tables of \<open>dict.c\<close>, with incremental rehashing.  A chain of \<open>dictEntry\<close> is the list of
  its key/value pairs, head first, so \<open>NULL\<close> is \<open>[]\<close>; a \<open>dictEntry *\<close> into the table is a triple of
  table number, bucket index and position in the chain.  Reading a table outside its bounds and a
  failing \<open>assert\<close> are the result \<open>None\<close>.  Keys and values are values of the model, so the \<open>Dup\<close>
  and \<open>Destructor\<close> methods, which copy and free memory, have no counterpart.  The global
  \<open>dict_can_resize\<close> is an argument of the operations that read it.
\<close>

section \<open>Data\<close>

record 'k dictType =
  hashFunction :: "'k \<Rightarrow> u64"
  keyCompare :: "('k \<Rightarrow> 'k \<Rightarrow> bool) option"

record ('k, 'v) dictht =
  table :: "('k \<times> 'v) list list"
  ht_size :: nat
  sizemask :: u64
  used :: nat

record ('k, 'v) dict =
  dtype :: "'k dictType"
  ht0 :: "('k, 'v) dictht"
  ht1 :: "('k, 'v) dictht"
  rehashidx :: int
  iterators :: nat

type_synonym entry_ref = "nat \<times> nat \<times> nat"

definition DICT_HT_INITIAL_SIZE :: nat where
  "DICT_HT_INITIAL_SIZE = 4"

definition dict_force_resize_ratio :: nat where
  "dict_force_resize_ratio = 5"

definition dictCompareKeys :: "'k dictType \<Rightarrow> 'k \<Rightarrow> 'k \<Rightarrow> bool" where
  "dictCompareKeys ty key1 key2 =
    (case keyCompare ty of Some f \<Rightarrow> f key1 key2 | None \<Rightarrow> key1 = key2)"

text \<open>The test \<open>key==he->key || dictCompareKeys(d, key, he->key)\<close> of every chain walk.\<close>

definition key_eq :: "'k dictType \<Rightarrow> 'k \<Rightarrow> 'k \<Rightarrow> bool" where
  "key_eq ty key key' = (key = key' \<or> dictCompareKeys ty key key')"

definition dictHashKey :: "('k, 'v) dict \<Rightarrow> 'k \<Rightarrow> u64" where
  "dictHashKey d key = hashFunction (dtype d) key"

definition dictSize :: "('k, 'v) dict \<Rightarrow> nat" where
  "dictSize d = used (ht0 d) + used (ht1 d)"

definition dictIsRehashing :: "('k, 'v) dict \<Rightarrow> bool" where
  "dictIsRehashing d = (rehashidx d \<noteq> - 1)"

text \<open>\<open>d->ht[t]\<close>, read and written.\<close>

definition dict_ht :: "('k, 'v) dict \<Rightarrow> nat \<Rightarrow> ('k, 'v) dictht" where
  "dict_ht d t = (if t = 0 then ht0 d else ht1 d)"

definition set_dict_ht :: "nat \<Rightarrow> ('k, 'v) dictht \<Rightarrow> ('k, 'v) dict \<Rightarrow> ('k, 'v) dict" where
  "set_dict_ht t h d = (if t = 0 then d\<lparr>ht0 := h\<rparr> else d\<lparr>ht1 := h\<rparr>)"

definition get_bucket :: "('k, 'v) dictht \<Rightarrow> nat \<Rightarrow> ('k \<times> 'v) list option" where
  "get_bucket h i = (if i < length (table h) then Some (table h ! i) else None)"

definition set_bucket :: "('k, 'v) dictht \<Rightarrow> nat \<Rightarrow> ('k \<times> 'v) list \<Rightarrow> ('k, 'v) dictht option" where
  "set_bucket h i b = (if i < length (table h) then Some (h\<lparr>table := (table h)[i := b]\<rparr>) else None)"

text \<open>The walk along a chain: the position of the first entry whose key compares equal.\<close>

fun chain_find :: "'k dictType \<Rightarrow> 'k \<Rightarrow> ('k \<times> 'v) list \<Rightarrow> nat option" where
  "chain_find ty key [] = None"
| "chain_find ty key (he # rest) =
    (if key_eq ty key (fst he) then Some 0 else map_option Suc (chain_find ty key rest))"

section \<open>Creation, expansion, rehashing\<close>

definition dictReset :: "('k, 'v) dictht" where
  "dictReset = \<lparr>table = [], ht_size = 0, sizemask = 0, used = 0\<rparr>"

definition dictCreate :: "'k dictType \<Rightarrow> ('k, 'v) dict" where
  "dictCreate ty = \<lparr>dtype = ty, ht0 = dictReset, ht1 = dictReset, rehashidx = - 1, iterators = 0\<rparr>"

text \<open>
  The loop of \<open>_dictNextPower\<close>; \<open>i\<close> starts at 4, so the test \<open>i = 0\<close>, which makes the function
  total, is never true.
\<close>

function dictNextPower_loop :: "nat \<Rightarrow> nat \<Rightarrow> nat" where
  "dictNextPower_loop i n = (if i \<ge> n \<or> i = 0 then i else dictNextPower_loop (i * 2) n)"
  by pat_completeness auto
termination
  by (relation "measure (\<lambda>(i, n). n - i)") auto

declare dictNextPower_loop.simps [simp del]

definition dictNextPower :: "nat \<Rightarrow> nat" where
  "dictNextPower n =
    (if int n \<ge> LLONG_MAX then nat LLONG_MAX + 1 else dictNextPower_loop DICT_HT_INITIAL_SIZE n)"

text \<open>\<open>dictExpand\<close> returns whether it succeeded (\<open>DICT_OK\<close>).\<close>

definition dictExpand :: "('k, 'v) dict \<Rightarrow> nat \<Rightarrow> ('k, 'v) dict \<times> bool" where
  "dictExpand d n =
    (if dictIsRehashing d \<or> used (ht0 d) > n then (d, False)
     else
       (let realsize = dictNextPower n
        in if realsize = ht_size (ht0 d) then (d, False)
           else
             (let h = \<lparr>table = replicate realsize [], ht_size = realsize,
                       sizemask = of_nat realsize - 1, used = 0\<rparr>
              in if table (ht0 d) = [] then (d\<lparr>ht0 := h\<rparr>, True)
                 else (d\<lparr>ht1 := h, rehashidx := 0\<rparr>, True))))"

definition dictResize :: "bool \<Rightarrow> ('k, 'v) dict \<Rightarrow> ('k, 'v) dict \<times> bool" where
  "dictResize can_resize d =
    (if \<not> can_resize \<or> dictIsRehashing d then (d, False)
     else
       (let minimal = used (ht0 d);
            minimal' = (if minimal < DICT_HT_INITIAL_SIZE then DICT_HT_INITIAL_SIZE else minimal)
        in dictExpand d minimal'))"

definition dictExpandIfNeeded :: "bool \<Rightarrow> ('k, 'v) dict \<Rightarrow> ('k, 'v) dict \<times> bool" where
  "dictExpandIfNeeded can_resize d =
    (if dictIsRehashing d then (d, True)
     else if ht_size (ht0 d) = 0 then dictExpand d DICT_HT_INITIAL_SIZE
     else if used (ht0 d) \<ge> ht_size (ht0 d) \<and>
             (can_resize \<or> used (ht0 d) div ht_size (ht0 d) > dict_force_resize_ratio)
     then dictExpand d (used (ht0 d) * 2)
     else (d, True))"

text \<open>
  The inner loop of \<open>dictRehash\<close> over empty buckets: the index and the visits left, and whether
  the budget of empty visits was used up.
\<close>

function rehash_skip :: "('k \<times> 'v) list list \<Rightarrow> nat \<Rightarrow> int \<Rightarrow> (nat \<times> int \<times> bool) option" where
  "rehash_skip tab i ev =
    (if i < length tab then
       (if tab ! i = [] then
          (if ev - 1 = 0 then Some (i + 1, ev - 1, True) else rehash_skip tab (i + 1) (ev - 1))
        else Some (i, ev, False))
     else None)"
  by pat_completeness auto
termination
  by (relation "measure (\<lambda>(tab, i, ev). length tab - i)") auto

declare rehash_skip.simps [simp del]

text \<open>The inner loop of \<open>dictRehash\<close> that moves the entries of one chain to \<open>ht[1]\<close>.\<close>

fun rehash_move :: "('k, 'v) dict \<Rightarrow> ('k \<times> 'v) list \<Rightarrow> ('k, 'v) dict option" where
  "rehash_move d [] = Some d"
| "rehash_move d (de # rest) =
    do {
      let h = unat (dictHashKey d (fst de) AND sizemask (ht1 d));
      b \<leftarrow> get_bucket (ht1 d) h;
      t1 \<leftarrow> set_bucket (ht1 d) h (de # b);
      rehash_move (d\<lparr>ht0 := (ht0 d)\<lparr>used := used (ht0 d) - 1\<rparr>, ht1 := t1\<lparr>used := used t1 + 1\<rparr>\<rparr>) rest
    }"

text \<open>The last part of \<open>dictRehash\<close>: is the whole table rehashed?\<close>

definition rehash_finish :: "('k, 'v) dict \<Rightarrow> ('k, 'v) dict \<times> bool" where
  "rehash_finish d =
    (if used (ht0 d) = 0 then (d\<lparr>ht0 := ht1 d, ht1 := dictReset, rehashidx := - 1\<rparr>, False)
     else (d, True))"

fun rehash_loop :: "nat \<Rightarrow> int \<Rightarrow> ('k, 'v) dict \<Rightarrow> (('k, 'v) dict \<times> bool) option" where
  "rehash_loop 0 ev d = Some (rehash_finish d)"
| "rehash_loop (Suc n) ev d =
    (if used (ht0 d) = 0 then Some (rehash_finish d)
     else if \<not> (ht_size (ht0 d) > nat (rehashidx d)) then None
     else
       do {
         (i, ev', stop) \<leftarrow> rehash_skip (table (ht0 d)) (nat (rehashidx d)) ev;
         let d1 = d\<lparr>rehashidx := int i\<rparr>;
         if stop then Some (d1, True)
         else
           do {
             de \<leftarrow> get_bucket (ht0 d1) i;
             d2 \<leftarrow> rehash_move d1 de;
             t0 \<leftarrow> set_bucket (ht0 d2) i [];
             rehash_loop n ev' (d2\<lparr>ht0 := t0, rehashidx := int i + 1\<rparr>)
           }
       })"

text \<open>\<open>dictRehash\<close>: the result says whether there are more keys to move.\<close>

definition dictRehash :: "('k, 'v) dict \<Rightarrow> nat \<Rightarrow> (('k, 'v) dict \<times> bool) option" where
  "dictRehash d n =
    (if \<not> dictIsRehashing d then Some (d, False) else rehash_loop n (int (n * 10)) d)"

definition dictRehashStep :: "('k, 'v) dict \<Rightarrow> ('k, 'v) dict option" where
  "dictRehashStep d = (if iterators d = 0 then map_option fst (dictRehash d 1) else Some d)"

text \<open>The line \<open>if (dictIsRehashing(d)) _dictRehashStep(d);\<close>\<close>

definition rehash_if_needed :: "('k, 'v) dict \<Rightarrow> ('k, 'v) dict option" where
  "rehash_if_needed d = (if dictIsRehashing d then dictRehashStep d else Some d)"

text \<open>
  \<open>dictRehashMilliseconds\<close>: the argument \<open>clock\<close> gives the successive results of
  \<open>timeInMilliseconds\<close>, the first of them the start; the first argument bounds the rounds.  The count \<open>rehashes\<close>, an
  \<open>int\<close> in the code, is unbounded here.
\<close>

fun rehash_ms_loop ::
  "nat \<Rightarrow> (nat \<Rightarrow> int) \<Rightarrow> nat \<Rightarrow> int \<Rightarrow> ('k, 'v) dict \<Rightarrow> nat \<Rightarrow> (('k, 'v) dict \<times> nat) option" where
  "rehash_ms_loop 0 clock i ms d rehashes = None"
| "rehash_ms_loop (Suc fuel) clock i ms d rehashes =
    do {
      (d1, more) \<leftarrow> dictRehash d 100;
      if \<not> more then Some (d1, rehashes)
      else if clock (Suc i) - clock 0 > ms then Some (d1, rehashes + 100)
      else rehash_ms_loop fuel clock (Suc i) ms d1 (rehashes + 100)
    }"

definition dictRehashMilliseconds ::
  "nat \<Rightarrow> (nat \<Rightarrow> int) \<Rightarrow> ('k, 'v) dict \<Rightarrow> int \<Rightarrow> (('k, 'v) dict \<times> nat) option" where
  "dictRehashMilliseconds fuel clock d ms = rehash_ms_loop fuel clock 0 ms d 0"

section \<open>Lookup, insertion, deletion\<close>

text \<open>
  The loop over the two tables shared by \<open>dictFind\<close>, \<open>_dictKeyIndex\<close> and \<open>dictGenericDelete\<close>: the
  reference of the first entry whose key compares equal, and the last bucket index computed.
\<close>

definition dict_search :: "('k, 'v) dict \<Rightarrow> 'k \<Rightarrow> u64 \<Rightarrow> (entry_ref option \<times> nat) option" where
  "dict_search d key h =
    do {
      let idx0 = unat (h AND sizemask (ht0 d));
      b0 \<leftarrow> get_bucket (ht0 d) idx0;
      (case chain_find (dtype d) key b0 of
         Some pos \<Rightarrow> Some (Some (0, idx0, pos), idx0)
       | None \<Rightarrow>
           if \<not> dictIsRehashing d then Some (None, idx0)
           else
             do {
               let idx1 = unat (h AND sizemask (ht1 d));
               b1 \<leftarrow> get_bucket (ht1 d) idx1;
               (case chain_find (dtype d) key b1 of
                  Some pos \<Rightarrow> Some (Some (1, idx1, pos), idx1)
                | None \<Rightarrow> Some (None, idx1))
             })
    }"

definition deref :: "('k, 'v) dict \<Rightarrow> entry_ref \<Rightarrow> ('k \<times> 'v)" where
  "deref d r = (case r of (t, i, pos) \<Rightarrow> table (dict_ht d t) ! i ! pos)"

definition dictFind :: "('k, 'v) dict \<Rightarrow> 'k \<Rightarrow> (('k, 'v) dict \<times> entry_ref option) option" where
  "dictFind d key =
    (if dictSize d = 0 then Some (d, None)
     else
       do {
         d1 \<leftarrow> rehash_if_needed d;
         (r, _) \<leftarrow> dict_search d1 key (dictHashKey d1 key);
         Some (d1, r)
       })"

definition dictFetchValue :: "('k, 'v) dict \<Rightarrow> 'k \<Rightarrow> (('k, 'v) dict \<times> 'v option) option" where
  "dictFetchValue d key =
    do {
      (d1, he) \<leftarrow> dictFind d key;
      Some (d1, map_option (\<lambda>r. snd (deref d1 r)) he)
    }"

text \<open>\<open>_dictKeyIndex\<close>: the index, or -1, and \<open>*existing\<close>.\<close>

definition dictKeyIndex ::
  "bool \<Rightarrow> ('k, 'v) dict \<Rightarrow> 'k \<Rightarrow> u64 \<Rightarrow> (('k, 'v) dict \<times> int \<times> entry_ref option) option" where
  "dictKeyIndex can_resize d key hash =
    (case dictExpandIfNeeded can_resize d of
       (d1, False) \<Rightarrow> Some (d1, - 1, None)
     | (d1, True) \<Rightarrow>
         do {
           (r, idx) \<leftarrow> dict_search d1 key hash;
           Some (case r of Some he \<Rightarrow> (d1, - 1, Some he) | None \<Rightarrow> (d1, int idx, None))
         })"

text \<open>
  \<open>dictAddRaw\<close>: \<open>Inr r\<close> is the new entry, \<open>Inl existing\<close> is the result \<open>NULL\<close>.  The value of the
  new entry is what the fresh memory holds, the argument \<open>junk\<close>.
\<close>

definition dictAddRaw ::
  "bool \<Rightarrow> ('k, 'v) dict \<Rightarrow> 'k \<Rightarrow> 'v \<Rightarrow> (('k, 'v) dict \<times> (entry_ref option + entry_ref)) option" where
  "dictAddRaw can_resize d key junk =
    do {
      d1 \<leftarrow> rehash_if_needed d;
      (d2, index, existing) \<leftarrow> dictKeyIndex can_resize d1 key (dictHashKey d1 key);
      if index = - 1 then Some (d2, Inl existing)
      else
        do {
          let t = (if dictIsRehashing d2 then 1 else 0);
          let h = dict_ht d2 t;
          b \<leftarrow> get_bucket h (nat index);
          h1 \<leftarrow> set_bucket h (nat index) ((key, junk) # b);
          Some (set_dict_ht t (h1\<lparr>used := used h1 + 1\<rparr>) d2, Inr (t, nat index, 0))
        }
    }"

definition dictSetVal :: "('k, 'v) dict \<Rightarrow> entry_ref \<Rightarrow> 'v \<Rightarrow> ('k, 'v) dict" where
  "dictSetVal d r v =
    (case r of (t, i, pos) \<Rightarrow>
       let h = dict_ht d t; b = table h ! i
       in set_dict_ht t (h\<lparr>table := (table h)[i := b[pos := (fst (b ! pos), v)]]\<rparr>) d)"

text \<open>\<open>dictAdd\<close>: the result says whether the key was added (\<open>DICT_OK\<close>).\<close>

definition dictAdd ::
  "bool \<Rightarrow> ('k, 'v) dict \<Rightarrow> 'k \<Rightarrow> 'v \<Rightarrow> 'v \<Rightarrow> (('k, 'v) dict \<times> bool) option" where
  "dictAdd can_resize d key junk val =
    do {
      (d1, r) \<leftarrow> dictAddRaw can_resize d key junk;
      (case r of
         Inl _ \<Rightarrow> Some (d1, False)
       | Inr entry \<Rightarrow> Some (dictSetVal d1 entry val, True))
    }"

text \<open>
  \<open>dictReplace\<close>: the result says whether the key is new.  The second \<open>None\<close> is the dereference of
  \<open>existing\<close> when it is \<open>NULL\<close>.
\<close>

definition dictReplace ::
  "bool \<Rightarrow> ('k, 'v) dict \<Rightarrow> 'k \<Rightarrow> 'v \<Rightarrow> 'v \<Rightarrow> (('k, 'v) dict \<times> bool) option" where
  "dictReplace can_resize d key junk val =
    do {
      (d1, r) \<leftarrow> dictAddRaw can_resize d key junk;
      (case r of
         Inr entry \<Rightarrow> Some (dictSetVal d1 entry val, True)
       | Inl (Some existing) \<Rightarrow> Some (dictSetVal d1 existing val, False)
       | Inl None \<Rightarrow> None)
    }"

definition dictAddOrFind ::
  "bool \<Rightarrow> ('k, 'v) dict \<Rightarrow> 'k \<Rightarrow> 'v \<Rightarrow> (('k, 'v) dict \<times> entry_ref option) option" where
  "dictAddOrFind can_resize d key junk =
    do {
      (d1, r) \<leftarrow> dictAddRaw can_resize d key junk;
      Some (d1, case r of Inr entry \<Rightarrow> Some entry | Inl existing \<Rightarrow> existing)
    }"

text \<open>
  \<open>dictGenericDelete\<close>: the unlinked entry, if any.  Whether it is freed (\<open>dictDelete\<close>) or handed
  to the caller (\<open>dictUnlink\<close>) makes no difference to the dictionary.
\<close>

definition dictGenericDelete ::
  "('k, 'v) dict \<Rightarrow> 'k \<Rightarrow> (('k, 'v) dict \<times> ('k \<times> 'v) option) option" where
  "dictGenericDelete d key =
    (if used (ht0 d) = 0 \<and> used (ht1 d) = 0 then Some (d, None)
     else
       do {
         d1 \<leftarrow> rehash_if_needed d;
         (r, _) \<leftarrow> dict_search d1 key (dictHashKey d1 key);
         Some (case r of
                 None \<Rightarrow> (d1, None)
               | Some (t, i, pos) \<Rightarrow>
                   (let h = dict_ht d1 t; b = table h ! i
                    in (set_dict_ht t (h\<lparr>table := (table h)[i := take pos b @ drop (Suc pos) b],
                                         used := used h - 1\<rparr>) d1,
                        Some (b ! pos))))
       })"

definition dictDelete :: "('k, 'v) dict \<Rightarrow> 'k \<Rightarrow> (('k, 'v) dict \<times> bool) option" where
  "dictDelete d key =
    do { (d1, he) \<leftarrow> dictGenericDelete d key; Some (d1, he \<noteq> None) }"

definition dictUnlink :: "('k, 'v) dict \<Rightarrow> 'k \<Rightarrow> (('k, 'v) dict \<times> ('k \<times> 'v) option) option" where
  "dictUnlink d key = dictGenericDelete d key"

text \<open>
  The loop of \<open>_dictClear\<close> over the buckets, which stops early when the counter reaches 0; the
  second component lists the entries it frees.
\<close>

function dictClear_loop :: "('k, 'v) dictht \<Rightarrow> nat \<Rightarrow> (('k, 'v) dictht \<times> ('k \<times> 'v) list) option" where
  "dictClear_loop h i =
    (if i < ht_size h \<and> used h > 0 then
       do {
         he \<leftarrow> get_bucket h i;
         (h1, freed) \<leftarrow> dictClear_loop (h\<lparr>used := used h - length he\<rparr>) (i + 1);
         Some (h1, he @ freed)
       }
     else Some (h, []))"
  by pat_completeness auto
termination
  by (relation "measure (\<lambda>(h, i). ht_size h - i)") auto

declare dictClear_loop.simps [simp del]

definition dictClear :: "('k, 'v) dictht \<Rightarrow> (('k, 'v) dictht \<times> ('k \<times> 'v) list) option" where
  "dictClear h = do { (_, freed) \<leftarrow> dictClear_loop h 0; Some (dictReset, freed) }"

text \<open>\<open>dictRelease\<close> frees the structure too, so what is left of it are the entries it freed.\<close>

definition dictRelease :: "('k, 'v) dict \<Rightarrow> ('k \<times> 'v) list option" where
  "dictRelease d =
    do { (_, freed0) \<leftarrow> dictClear (ht0 d); (_, freed1) \<leftarrow> dictClear (ht1 d); Some (freed0 @ freed1) }"

definition dictEmpty :: "('k, 'v) dict \<Rightarrow> (('k, 'v) dict \<times> ('k \<times> 'v) list) option" where
  "dictEmpty d =
    do {
      (t0, freed0) \<leftarrow> dictClear (ht0 d);
      (t1, freed1) \<leftarrow> dictClear (ht1 d);
      Some (d\<lparr>ht0 := t0, ht1 := t1, rehashidx := - 1, iterators := 0\<rparr>, freed0 @ freed1)
    }"

section \<open>Invariant and abstraction\<close>

text \<open>
  The key type is usable: equality of keys is an equivalence, and equal keys have equal hashes.
\<close>

definition type_ok :: "'k dictType \<Rightarrow> bool" where
  "type_ok ty \<longleftrightarrow> equivp (key_eq ty) \<and>
     (\<forall>a b. key_eq ty a b \<longrightarrow> hashFunction ty a = hashFunction ty b)"

text \<open>The class of a key: the keys the dictionary does not tell apart from it.\<close>

definition cls :: "'k dictType \<Rightarrow> 'k \<Rightarrow> 'k set" where
  "cls ty a = {b. key_eq ty a b}"

definition entries :: "('k, 'v) dict \<Rightarrow> ('k \<times> 'v) list" where
  "entries d = concat (table (ht0 d)) @ concat (table (ht1 d))"

definition keyed :: "'k dictType \<Rightarrow> ('k \<times> 'v) list \<Rightarrow> ('k set \<times> 'v) list" where
  "keyed ty es = map (\<lambda>(k, v). (cls ty k, v)) es"

text \<open>What a dictionary stands for: a map from key classes to values.\<close>

definition dict_map :: "('k, 'v) dict \<Rightarrow> 'k set \<Rightarrow> 'v option" where
  "dict_map d = map_of (keyed (dtype d) (entries d))"

definition ht_null :: "('k, 'v) dictht \<Rightarrow> bool" where
  "ht_null h \<longleftrightarrow> table h = [] \<and> ht_size h = 0 \<and> sizemask h = 0 \<and> used h = 0"

definition ht_live :: "('k, 'v) dictht \<Rightarrow> bool" where
  "ht_live h \<longleftrightarrow>
     (\<exists>k \<in> {2..63}. length (table h) = 2 ^ k \<and> ht_size h = 2 ^ k \<and> sizemask h = mask k)"

text \<open>The counter is right and every entry is in the bucket of its hash.\<close>

definition ht_fill :: "'k dictType \<Rightarrow> ('k, 'v) dictht \<Rightarrow> bool" where
  "ht_fill ty h \<longleftrightarrow> used h = length (concat (table h)) \<and>
     (\<forall>i < length (table h). \<forall>e \<in> set (table h ! i). unat (hashFunction ty (fst e) AND sizemask h) = i)"

definition dict_shape :: "('k, 'v) dict \<Rightarrow> bool" where
  "dict_shape d \<longleftrightarrow>
     (if dictIsRehashing d
      then ht_live (ht0 d) \<and> ht_live (ht1 d) \<and> 0 \<le> rehashidx d \<and>
           rehashidx d \<le> int (ht_size (ht0 d)) \<and>
           (\<forall>i < nat (rehashidx d). table (ht0 d) ! i = [])
      else (ht_null (ht0 d) \<or> ht_live (ht0 d)) \<and> ht_null (ht1 d))"

definition dict_ok :: "('k, 'v) dict \<Rightarrow> bool" where
  "dict_ok d \<longleftrightarrow> type_ok (dtype d) \<and> dict_shape d \<and>
     ht_fill (dtype d) (ht0 d) \<and> ht_fill (dtype d) (ht1 d) \<and>
     distinct (map fst (keyed (dtype d) (entries d)))"

subsection \<open>Key classes\<close>

lemma key_eq_cls: "type_ok ty \<Longrightarrow> key_eq ty a b \<longleftrightarrow> cls ty a = cls ty b"
proof -
  assume "type_ok ty"
  then have "key_eq ty a b \<longleftrightarrow> key_eq ty a = key_eq ty b"
    unfolding type_ok_def equivp_def by blast
  then show ?thesis by (auto simp: cls_def)
qed

lemma cls_hash: "type_ok ty \<Longrightarrow> cls ty a = cls ty b \<Longrightarrow> hashFunction ty a = hashFunction ty b"
  using key_eq_cls [of ty a b] by (simp add: type_ok_def)

lemma fst_keyed: "map fst (keyed ty es) = map (\<lambda>e. cls ty (fst e)) es"
  by (simp add: keyed_def comp_def split_beta)

lemma keyed_append [simp]: "keyed ty (a @ b) = keyed ty a @ keyed ty b"
  by (simp add: keyed_def)

lemma keyed_Cons [simp]: "keyed ty (e # b) = (cls ty (fst e), snd e) # keyed ty b"
  by (simp add: keyed_def split_beta)

lemma keyed_Nil [simp]: "keyed ty [] = []"
  by (simp add: keyed_def)

text \<open>The abstraction depends on the entries only as a multiset.\<close>

lemma keyed_mset: "mset es = mset es' \<Longrightarrow> mset (keyed ty es) = mset (keyed ty es')"
  by (simp add: keyed_def)

lemma distinct_keyed_mset:
  assumes "mset es = mset es'"
  shows "distinct (map fst (keyed ty es)) \<longleftrightarrow> distinct (map fst (keyed ty es'))"
  using keyed_mset [OF assms, of ty] by (intro mset_eq_imp_distinct_iff) simp

lemma map_of_mset:
  assumes "mset xs = mset ys" "distinct (map fst xs)"
  shows "map_of xs = map_of ys"
proof -
  have "distinct (map fst ys)"
    using assms by (metis mset_eq_imp_distinct_iff mset_map)
  moreover have "set xs = set ys" using assms(1) by (rule mset_eq_setD)
  ultimately show ?thesis using assms(2) by (simp add: map_of_inject_set)
qed

lemma mset_concat_update:
  "i < length xs \<Longrightarrow> mset (concat (xs[i := ys])) + mset (xs ! i) = mset (concat xs) + mset ys"
proof (induction xs arbitrary: i)
  case (Cons x xs)
  then show ?case by (cases i) (auto simp: ac_simps)
qed simp

lemma length_concat_update:
  "i < length xs \<Longrightarrow> length (concat (xs[i := ys])) + length (xs ! i) = length (concat xs) + length ys"
  using arg_cong [OF mset_concat_update [of i xs ys], of size] by simp

subsection \<open>Bucket indices\<close>

lemma ht_live_idx: "ht_live h \<Longrightarrow> unat (x AND sizemask h) < length (table h)"
proof -
  assume "ht_live h"
  then obtain k where k: "k \<le> 63" "length (table h) = 2 ^ k" "sizemask h = mask k"
    by (auto simp: ht_live_def)
  have "unat (x AND mask k) = unat x mod 2 ^ k" by (rule unat_and_mask)
  with k show ?thesis by simp
qed

lemma ht_live_get: "ht_live h \<Longrightarrow>
    get_bucket h (unat (x AND sizemask h)) = Some (table h ! unat (x AND sizemask h))"
  by (simp add: get_bucket_def ht_live_idx)

lemma ht_live_nonempty: "ht_live h \<Longrightarrow> table h \<noteq> [] \<and> \<not> ht_null h \<and> 0 < ht_size h \<and> ht_size h = length (table h)"
  by (auto simp: ht_live_def ht_null_def)

lemma ht_live_cong:
  "ht_live h \<Longrightarrow> length (table h') = length (table h) \<Longrightarrow> ht_size h' = ht_size h \<Longrightarrow>
     sizemask h' = sizemask h \<Longrightarrow> ht_live h'"
  by (auto simp: ht_live_def)


subsection \<open>Rehashing keeps the entries\<close>

lemma rehash_skip_Some:
  assumes "j < length tab" "i \<le> j" "tab ! j \<noteq> []"
  obtains i' ev' stop where "rehash_skip tab i ev = Some (i', ev', stop)" "i \<le> i'" "i' \<le> j"
    "\<forall>x \<in> {i..<i'}. tab ! x = []" "\<not> stop \<Longrightarrow> tab ! i' \<noteq> []"
proof -
  have "\<exists>i' ev' stop. rehash_skip tab i ev = Some (i', ev', stop) \<and> i \<le> i' \<and> i' \<le> j \<and>
      (\<forall>x \<in> {i..<i'}. tab ! x = []) \<and> (\<not> stop \<longrightarrow> tab ! i' \<noteq> [])"
    using assms
  proof (induction tab i ev rule: rehash_skip.induct)
    case (1 tab i ev)
    show ?case
    proof (cases "tab ! i = []")
      case False
      then show ?thesis using "1.prems" by (auto simp: rehash_skip.simps [of tab i])
    next
      case True
      with "1.prems" have "i < j" by (cases "i = j") auto
      then have "Suc i \<le> j" "i < length tab" using "1.prems" by auto
      have set: "(\<forall>x \<in> {i..<y}. tab ! x = []) \<longleftrightarrow> (\<forall>x \<in> {Suc i..<y}. tab ! x = [])" for y
        using True by (auto simp: Suc_le_eq nat_less_le)
      show ?thesis
      proof (cases "ev - 1 = 0")
        case stop: True
        then show ?thesis
          using \<open>Suc i \<le> j\<close> \<open>i < length tab\<close> True by (auto simp: rehash_skip.simps [of tab i])
      next
        case False
        obtain i' ev' stop where "rehash_skip tab (Suc i) (ev - 1) = Some (i', ev', stop)"
          "Suc i \<le> i'" "i' \<le> j" "\<forall>x \<in> {Suc i..<i'}. tab ! x = []" "\<not> stop \<longrightarrow> tab ! i' \<noteq> []"
          using "1.IH" True False \<open>Suc i \<le> j\<close> \<open>i < length tab\<close> "1.prems" by auto
        then show ?thesis
          using True False \<open>i < length tab\<close> set [of i']
          by (auto simp: rehash_skip.simps [of tab i])
      qed
    qed
  qed
  then show ?thesis using that by blast
qed

lemma ht_fill_insert:
  assumes "ht_fill ty h" "i < length (table h)" "unat (hashFunction ty (fst e) AND sizemask h) = i"
  shows "ht_fill ty (h\<lparr>table := (table h)[i := e # table h ! i], used := used h + 1\<rparr>)"
  using assms length_concat_update [of i "table h" "e # table h ! i"]
  by (auto simp: ht_fill_def nth_list_update)

lemma rehash_move_Some:
  assumes "ht_live (ht1 d)" "ht_fill (dtype d) (ht1 d)"
  obtains d' where "rehash_move d es = Some d'" "dtype d' = dtype d" "rehashidx d' = rehashidx d"
    "iterators d' = iterators d" "ht0 d' = (ht0 d)\<lparr>used := used (ht0 d) - length es\<rparr>"
    "ht_live (ht1 d')" "ht_fill (dtype d) (ht1 d')"
    "mset (concat (table (ht1 d'))) = mset es + mset (concat (table (ht1 d)))"
proof -
  have "\<exists>d'. rehash_move d es = Some d' \<and> dtype d' = dtype d \<and> rehashidx d' = rehashidx d \<and>
      iterators d' = iterators d \<and> ht0 d' = (ht0 d)\<lparr>used := used (ht0 d) - length es\<rparr> \<and>
      ht_live (ht1 d') \<and> ht_fill (dtype d) (ht1 d') \<and>
      mset (concat (table (ht1 d'))) = mset es + mset (concat (table (ht1 d)))"
    using assms
  proof (induction d es rule: rehash_move.induct)
    case (1 d)
    then show ?case by simp
  next
    case (2 d de rest)
    let ?i = "unat (dictHashKey d (fst de) AND sizemask (ht1 d))"
    let ?b = "table (ht1 d) ! ?i"
    let ?t1 = "(ht1 d)\<lparr>table := (table (ht1 d))[?i := de # ?b]\<rparr>"
    let ?d = "d\<lparr>ht0 := (ht0 d)\<lparr>used := used (ht0 d) - 1\<rparr>, ht1 := ?t1\<lparr>used := used ?t1 + 1\<rparr>\<rparr>"
    have i: "?i < length (table (ht1 d))" using "2.prems"(1) by (rule ht_live_idx)
    have live: "ht_live (ht1 ?d)" by (rule ht_live_cong [OF "2.prems"(1)]) simp_all
    have fill: "ht_fill (dtype ?d) (ht1 ?d)"
      using ht_fill_insert [OF "2.prems"(2) i, of de] by (simp add: dictHashKey_def)
    have g: "get_bucket (ht1 d) ?i = Some ?b" "set_bucket (ht1 d) ?i (de # ?b) = Some ?t1"
      using i by (simp_all add: get_bucket_def set_bucket_def)
    have ms: "mset (concat (table (ht1 ?d))) = mset (concat (table (ht1 d))) + {#de#}"
      using mset_concat_update [OF i, of "de # ?b"] by simp
    have "rehash_move d (de # rest) = rehash_move ?d rest"
      using g by (simp add: Let_def)
    moreover note "2.IH" [OF refl g(1) g(2) live fill]
    ultimately show ?case using ms by auto
  qed
  then show ?thesis using that by blast
qed


text \<open>What every operation that only reorganises the tables guarantees.\<close>

definition same_dict :: "('k, 'v) dict \<Rightarrow> ('k, 'v) dict \<Rightarrow> bool" where
  "same_dict d d' \<longleftrightarrow> dict_ok d' \<and> dtype d' = dtype d \<and> iterators d' = iterators d \<and>
     mset (entries d') = mset (entries d)"

lemma same_dict_refl: "dict_ok d \<Longrightarrow> same_dict d d"
  by (simp add: same_dict_def)

lemma same_dict_trans: "same_dict d d' \<Longrightarrow> same_dict d' d'' \<Longrightarrow> same_dict d d''"
  by (simp add: same_dict_def)

lemma same_dict_map: "dict_ok d \<Longrightarrow> same_dict d d' \<Longrightarrow> dict_map d' = dict_map d"
  unfolding dict_map_def same_dict_def dict_ok_def
  by (metis keyed_mset map_of_mset)

lemma dict_okD:
  assumes "dict_ok d"
  shows "type_ok (dtype d)" "dict_shape d" "ht_fill (dtype d) (ht0 d)" "ht_fill (dtype d) (ht1 d)"
    "distinct (map fst (keyed (dtype d) (entries d)))"
  using assms by (simp_all add: dict_ok_def)

lemma dictSize_entries: "dict_ok d \<Longrightarrow> dictSize d = length (entries d)"
  by (simp add: dict_ok_def ht_fill_def dictSize_def entries_def)

lemma ht_fill_empty: "ht_fill ty h \<Longrightarrow> used h = 0 \<Longrightarrow> concat (table h) = []"
  by (simp add: ht_fill_def)

lemma concat_Nil_iff: "concat xs = [] \<longleftrightarrow> (\<forall>i < length xs. xs ! i = [])"
  by (simp add: all_set_conv_all_nth)

lemma dictReset_facts [simp]:
  "ht_null dictReset" "ht_fill ty dictReset" "table dictReset = []" "used dictReset = 0"
  by (simp_all add: dictReset_def ht_null_def ht_fill_def)

lemma rehash_finish_same:
  assumes "dict_ok d" "dictIsRehashing d"
  shows "same_dict d (fst (rehash_finish d)) \<and> (snd (rehash_finish d) \<longleftrightarrow> dictIsRehashing (fst (rehash_finish d)))"
proof (cases "used (ht0 d) = 0")
  case True
  then have e: "concat (table (ht0 d)) = []"
    using dict_okD(3) [OF assms(1)] by (intro ht_fill_empty)
  let ?d = "d\<lparr>ht0 := ht1 d, ht1 := dictReset, rehashidx := - 1\<rparr>"
  have "entries ?d = entries d" using e by (simp add: entries_def)
  moreover have "dict_shape ?d"
    using assms by (simp add: dict_ok_def dict_shape_def dictIsRehashing_def)
  ultimately show ?thesis
    using assms True by (simp add: same_dict_def dict_ok_def rehash_finish_def dictIsRehashing_def)
next
  case False
  then show ?thesis using assms by (simp add: rehash_finish_def same_dict_refl)
qed

text \<open>Moving the first non-empty bucket and clearing it.\<close>

lemma ht_fill_clear:
  assumes "ht_fill ty h" "i < length (table h)"
  shows "ht_fill ty (h\<lparr>used := used h - length (table h ! i), table := (table h)[i := []]\<rparr>)"
  using assms length_concat_update [of i "table h" "[]"]
  by (auto simp: ht_fill_def nth_list_update)

lemma rehash_loop_same:
  assumes "dict_ok d" "dictIsRehashing d"
  obtains d' more where "rehash_loop n ev d = Some (d', more)" "same_dict d d'"
    "more \<longleftrightarrow> dictIsRehashing d'"
proof -
  have "\<exists>d' more. rehash_loop n ev d = Some (d', more) \<and> same_dict d d' \<and> (more \<longleftrightarrow> dictIsRehashing d')"
    using assms
  proof (induction n arbitrary: d ev)
    case 0
    then show ?case using rehash_finish_same [of d] by (cases "rehash_finish d") auto
  next
    case (Suc n)
    show ?case
    proof (cases "used (ht0 d) = 0")
      case True
      then show ?thesis
        using rehash_finish_same [of d] Suc.prems by (cases "rehash_finish d") auto
    next
      case False
      let ?r = "nat (rehashidx d)"
      have sh: "ht_live (ht0 d)" "ht_live (ht1 d)" "0 \<le> rehashidx d" "\<forall>i < ?r. table (ht0 d) ! i = []"
        using Suc.prems by (auto simp: dict_ok_def dict_shape_def)
      have len: "ht_size (ht0 d) = length (table (ht0 d))" using sh(1) ht_live_nonempty by blast
      have "concat (table (ht0 d)) \<noteq> []"
        using False Suc.prems(1) by (auto simp: dict_ok_def ht_fill_def)
      then obtain j where j: "j < length (table (ht0 d))" "table (ht0 d) ! j \<noteq> []"
        by (auto simp: concat_Nil_iff simp del: concat_eq_Nil_conv)
      with sh(4) have rj: "?r \<le> j" by (meson not_le)
      obtain i ev' stop where sk: "rehash_skip (table (ht0 d)) ?r ev = Some (i, ev', stop)"
        and i: "?r \<le> i" "i \<le> j" and gap: "\<forall>x \<in> {?r..<i}. table (ht0 d) ! x = []"
        by (rule rehash_skip_Some [OF j(1) rj j(2)])
      have empty: "\<forall>x < i. table (ht0 d) ! x = []"
        using gap sh(4) by (metis atLeastLessThan_iff not_le)
      let ?d1 = "d\<lparr>rehashidx := int i\<rparr>"
      have ok1: "same_dict d ?d1" "dictIsRehashing ?d1"
        using Suc.prems empty i j(1) len
        by (auto simp: same_dict_def dict_ok_def dict_shape_def dictIsRehashing_def entries_def)
      have guard: "ht_size (ht0 d) > ?r" using rj j(1) len by simp
      show ?thesis
      proof (cases stop)
        case True
        then show ?thesis
          using False guard sk ok1 by auto
      next
        case nstop: False
        let ?b = "table (ht0 d) ! i"
        have ilen: "i < length (table (ht0 d))" using i j by simp
        obtain d2 where d2: "rehash_move ?d1 ?b = Some d2" "dtype d2 = dtype d" "rehashidx d2 = int i"
          "iterators d2 = iterators d" "ht0 d2 = (ht0 d)\<lparr>used := used (ht0 d) - length ?b\<rparr>"
          "ht_live (ht1 d2)" "ht_fill (dtype d) (ht1 d2)"
          "mset (concat (table (ht1 d2))) = mset ?b + mset (concat (table (ht1 d)))"
          using rehash_move_Some [of ?d1 ?b] sh(2) Suc.prems(1) by (auto simp: dict_ok_def)
        let ?t0 = "(ht0 d2)\<lparr>table := (table (ht0 d2))[i := []]\<rparr>"
        let ?d3 = "d2\<lparr>ht0 := ?t0, rehashidx := int i + 1\<rparr>"
        have ms: "mset (entries ?d3) = mset (entries d)"
          using mset_concat_update [OF ilen, of "[]"] d2 by (simp add: entries_def ac_simps)
        have "ht_fill (dtype d) ?t0"
          using ht_fill_clear [OF _ ilen, of "dtype d"] Suc.prems(1) d2(5) by (simp add: dict_ok_def)
        moreover have "ht_live ?t0"
          by (rule ht_live_cong [OF sh(1)]) (simp_all add: d2)
        moreover have "\<forall>x < Suc i. (table (ht0 d))[i := []] ! x = []"
          using empty ilen by (auto simp: nth_list_update less_Suc_eq)
        ultimately have "dict_ok ?d3"
          using Suc.prems(1) d2 ms ilen len distinct_keyed_mset [OF ms, of "dtype d"]
          by (auto simp: dict_ok_def dict_shape_def dictIsRehashing_def nat_add_distrib)
        with d2 ms have sm: "same_dict d ?d3" by (simp add: same_dict_def)
        have "dictIsRehashing ?d3" by (simp add: dictIsRehashing_def)
        with Suc.IH [OF \<open>dict_ok ?d3\<close>] obtain d' more where
          "rehash_loop n ev' ?d3 = Some (d', more)" "same_dict ?d3 d'" "more \<longleftrightarrow> dictIsRehashing d'"
          by blast
        moreover have "rehash_loop (Suc n) ev d = rehash_loop n ev' ?d3"
          using False guard sk nstop d2(1) ilen d2(5)
          by (simp add: get_bucket_def set_bucket_def Let_def)
        ultimately show ?thesis
          using same_dict_trans [OF sm] by (auto simp del: rehash_loop.simps)
      qed
    qed
  qed
  then show ?thesis using that by blast
qed

lemma rehash_if_needed_same:
  assumes "dict_ok d"
  obtains d' where "rehash_if_needed d = Some d'" "same_dict d d'"
proof (cases "dictIsRehashing d \<and> iterators d = 0")
  case True
  obtain d' more where "rehash_loop 1 10 d = Some (d', more)" "same_dict d d'"
    using rehash_loop_same [of d 1 10] True assms by blast
  with True show ?thesis
    by (intro that [of d']) (simp_all add: rehash_if_needed_def dictRehashStep_def dictRehash_def)
next
  case False
  with assms show ?thesis
    by (intro that [of d]) (auto simp: rehash_if_needed_def dictRehashStep_def same_dict_refl)
qed


subsection \<open>Searching\<close>

lemma chain_find_None: "chain_find ty key b = None \<longleftrightarrow> (\<forall>e \<in> set b. \<not> key_eq ty key (fst e))"
  by (induction b) auto

lemma chain_find_Some:
  "chain_find ty key b = Some pos \<Longrightarrow> pos < length b \<and> key_eq ty key (fst (b ! pos))"
  by (induction b arbitrary: pos) (auto split: if_splits)

text \<open>A reference to an entry of the dictionary.\<close>

definition valid_ref :: "('k, 'v) dict \<Rightarrow> entry_ref \<Rightarrow> bool" where
  "valid_ref d r \<longleftrightarrow> (case r of (t, i, pos) \<Rightarrow>
     t \<le> 1 \<and> i < length (table (dict_ht d t)) \<and> pos < length (table (dict_ht d t) ! i))"

lemma valid_ref_entry: "valid_ref d r \<Longrightarrow> deref d r \<in> set (entries d)"
  by (auto simp: valid_ref_def deref_def entries_def dict_ht_def split: prod.splits if_splits)
    (metis nth_mem)+

lemma map_of_keyed_Some:
  assumes "dict_ok d" "e \<in> set (entries d)"
  shows "dict_map d (cls (dtype d) (fst e)) = Some (snd e)"
proof -
  have "(cls (dtype d) (fst e), snd e) \<in> set (keyed (dtype d) (entries d))"
    using assms(2) by (auto simp: keyed_def image_iff split_beta)
  then show ?thesis using dict_okD(5) [OF assms(1)] by (simp add: dict_map_def)
qed

lemma dict_map_None:
  "dict_map d c = None \<longleftrightarrow> (\<forall>e \<in> set (entries d). cls (dtype d) (fst e) \<noteq> c)"
  by (auto simp: dict_map_def map_of_eq_None_iff keyed_def image_iff)

text \<open>Entries with the key's class can only be in the bucket of the key's hash.\<close>

lemma in_table_bucket:
  assumes "type_ok ty" "ht_fill ty h" "e \<in> set (concat (table h))" "cls ty (fst e) = cls ty key"
  shows "e \<in> set (table h ! unat (hashFunction ty key AND sizemask h))"
proof -
  obtain i where i: "i < length (table h)" "e \<in> set (table h ! i)"
    using assms(3) by (metis UN_E in_set_conv_nth set_concat)
  have "hashFunction ty (fst e) = hashFunction ty key" using assms(1,4) by (rule cls_hash)
  moreover have "unat (hashFunction ty (fst e) AND sizemask h) = i"
    using i assms(2) by (simp add: ht_fill_def)
  ultimately have "unat (hashFunction ty key AND sizemask h) = i" by simp
  with i show ?thesis by simp
qed

lemma chain_find_None_table:
  assumes "type_ok ty" "ht_fill ty h"
    "chain_find ty key (table h ! unat (hashFunction ty key AND sizemask h)) = None"
  shows "\<forall>e \<in> set (concat (table h)). cls ty (fst e) \<noteq> cls ty key"
proof
  fix e
  assume e: "e \<in> set (concat (table h))"
  show "cls ty (fst e) \<noteq> cls ty key"
  proof
    assume c: "cls ty (fst e) = cls ty key"
    then have "e \<in> set (table h ! unat (hashFunction ty key AND sizemask h))"
      using in_table_bucket [OF assms(1,2) e] by simp
    with assms(3) c key_eq_cls [OF assms(1), of key "fst e"] show False
      by (simp add: chain_find_None)
  qed
qed

lemma dict_search_spec:
  assumes ok: "dict_ok d" and live: "ht_live (ht0 d)"
  shows "\<exists>r idx. dict_search d key (dictHashKey d key) = Some (r, idx) \<and>
    (case r of
       None \<Rightarrow> dict_map d (cls (dtype d) key) = None \<and>
         idx = unat (dictHashKey d key AND sizemask (dict_ht d (if dictIsRehashing d then 1 else 0)))
     | Some r \<Rightarrow> valid_ref d r \<and> cls (dtype d) (fst (deref d r)) = cls (dtype d) key \<and>
         dict_map d (cls (dtype d) key) = Some (snd (deref d r)))"
proof -
  let ?h = "dictHashKey d key" and ?c = "cls (dtype d) key"
  let ?i0 = "unat (?h AND sizemask (ht0 d))" and ?i1 = "unat (?h AND sizemask (ht1 d))"
  note ty = dict_okD(1) [OF ok]
  have i0: "?i0 < length (table (ht0 d))" using live by (rule ht_live_idx)
  have found: "case Some r of None \<Rightarrow> False | Some r \<Rightarrow> valid_ref d r \<and>
      cls (dtype d) (fst (deref d r)) = ?c \<and> dict_map d ?c = Some (snd (deref d r))"
    if "valid_ref d r" "key_eq (dtype d) key (fst (deref d r))" for r
    using that map_of_keyed_Some [OF ok valid_ref_entry [OF that(1)]]
    by (simp add: key_eq_cls [OF ty])
  show ?thesis
  proof (cases "chain_find (dtype d) key (table (ht0 d) ! ?i0)")
    case (Some pos)
    then have "valid_ref d (0, ?i0, pos)" "key_eq (dtype d) key (fst (deref d (0, ?i0, pos)))"
      using chain_find_Some [OF Some] i0 by (simp_all add: valid_ref_def deref_def dict_ht_def)
    then show ?thesis
      using found [of "(0, ?i0, pos)"] Some i0 by (simp add: dict_search_def get_bucket_def Let_def)
  next
    case None
    have n0: "\<forall>e \<in> set (concat (table (ht0 d))). cls (dtype d) (fst e) \<noteq> ?c"
      using chain_find_None_table [OF ty dict_okD(3) [OF ok]] None by (simp add: dictHashKey_def)
    show ?thesis
    proof (cases "dictIsRehashing d")
      case False
      then have "concat (table (ht1 d)) = []"
        using ok by (simp add: dict_ok_def dict_shape_def ht_null_def)
      then have "entries d = concat (table (ht0 d))" by (simp only: entries_def append_Nil2)
      with n0 have "dict_map d ?c = None" by (simp only: dict_map_None)
      with False show ?thesis
        using None i0 by (simp add: dict_search_def get_bucket_def Let_def dict_ht_def)
    next
      case True
      then have "ht_live (ht1 d)" using ok by (simp add: dict_ok_def dict_shape_def)
      then have i1: "?i1 < length (table (ht1 d))" by (rule ht_live_idx)
      show ?thesis
      proof (cases "chain_find (dtype d) key (table (ht1 d) ! ?i1)")
        case s1: (Some pos)
        then have "valid_ref d (1, ?i1, pos)" "key_eq (dtype d) key (fst (deref d (1, ?i1, pos)))"
          using chain_find_Some [OF s1] i1 by (simp_all add: valid_ref_def deref_def dict_ht_def)
        then show ?thesis
          using found [of "(1, ?i1, pos)"] None s1 i0 i1 True
          by (simp add: dict_search_def get_bucket_def Let_def)
      next
        case n1: None
        have "\<forall>e \<in> set (concat (table (ht1 d))). cls (dtype d) (fst e) \<noteq> ?c"
          using chain_find_None_table [OF ty dict_okD(4) [OF ok]] n1 by (simp add: dictHashKey_def)
        with n0 have "dict_map d ?c = None"
          by (simp only: dict_map_None entries_def set_append ball_Un)
        with True show ?thesis
          using None n1 i0 i1 by (simp add: dict_search_def get_bucket_def Let_def dict_ht_def)
      qed
    qed
  qed
qed

lemma dictSize_live: "dict_ok d \<Longrightarrow> dictSize d \<noteq> 0 \<Longrightarrow> ht_live (ht0 d)"
  by (auto simp: dict_ok_def dict_shape_def ht_null_def dictSize_def split: if_splits)

lemma same_dict_size: "dict_ok d \<Longrightarrow> same_dict d d' \<Longrightarrow> dictSize d' = dictSize d"
  by (metis dictSize_entries same_dict_def size_mset)

lemma dictFind_spec:
  assumes "dict_ok d"
  obtains d' r where "dictFind d key = Some (d', r)" "same_dict d d'"
    "map_option (\<lambda>r. snd (deref d' r)) r = dict_map d (cls (dtype d) key)"
    "\<And>x. r = Some x \<Longrightarrow> valid_ref d' x \<and> cls (dtype d) (fst (deref d' x)) = cls (dtype d) key"
proof (cases "dictSize d = 0")
  case True
  then have "entries d = []" using assms by (simp add: dictSize_entries)
  with True assms show ?thesis
    by (intro that [of d None]) (simp_all add: dictFind_def same_dict_refl dict_map_def)
next
  case False
  obtain d1 where d1: "rehash_if_needed d = Some d1" "same_dict d d1"
    using rehash_if_needed_same [OF assms] by blast
  have ok1: "dict_ok d1" and ty: "dtype d1 = dtype d" using d1(2) by (auto simp: same_dict_def)
  have "ht_live (ht0 d1)"
    using False same_dict_size [OF assms d1(2)] ok1 by (intro dictSize_live) auto
  from dict_search_spec [OF ok1 this, of key] obtain r idx where
    s: "dict_search d1 key (dictHashKey d1 key) = Some (r, idx)" and
    c: "case r of
       None \<Rightarrow> dict_map d1 (cls (dtype d1) key) = None \<and>
         idx = unat (dictHashKey d1 key AND sizemask (dict_ht d1 (if dictIsRehashing d1 then 1 else 0)))
     | Some r \<Rightarrow> valid_ref d1 r \<and> cls (dtype d1) (fst (deref d1 r)) = cls (dtype d1) key \<and>
         dict_map d1 (cls (dtype d1) key) = Some (snd (deref d1 r))"
    by blast
  have "dict_map d1 = dict_map d" using same_dict_map [OF assms d1(2)] .
  with s c d1 False ty show ?thesis
    by (intro that [of d1 r]) (auto simp: dictFind_def split: option.splits)
qed


subsection \<open>Expansion\<close>

lemma dictNextPower_loop_pow:
  "\<exists>k. dictNextPower_loop (2 ^ a) n = 2 ^ k \<and> a \<le> k \<and> (k = a \<or> 2 ^ k < 2 * n)"
proof (induction "2 ^ a :: nat" n arbitrary: a rule: dictNextPower_loop.induct)
  case (1 n)
  show ?case
  proof (cases "n \<le> 2 ^ a")
    case True
    then show ?thesis by (auto simp: dictNextPower_loop.simps [of "2 ^ a" n])
  next
    case False
    then obtain k where k: "dictNextPower_loop (2 ^ Suc a) n = 2 ^ k" "Suc a \<le> k" "k = Suc a \<or> 2 ^ k < 2 * n"
      using 1 [of "Suc a"] by (auto simp: mult.commute)
    moreover have "dictNextPower_loop (2 ^ a) n = dictNextPower_loop (2 ^ Suc a) n"
      using False by (simp add: dictNextPower_loop.simps [of "2 ^ a" n] mult.commute)
    moreover have "k = Suc a \<Longrightarrow> 2 ^ k < 2 * n" using False by simp
    ultimately show ?thesis by auto
  qed
qed

lemma dictNextPower_loop_ge: "0 < i \<Longrightarrow> n \<le> dictNextPower_loop i n"
proof (induction i n rule: dictNextPower_loop.induct)
  case (1 i n)
  then show ?case by (cases "n \<le> i") (auto simp: dictNextPower_loop.simps [of i n])
qed

lemma dictNextPower_pow: "\<exists>k \<in> {2..63}. dictNextPower n = 2 ^ k"
proof (cases "int n \<ge> LLONG_MAX")
  case True
  then show ?thesis by (intro bexI [of _ 63]) (simp_all add: dictNextPower_def)
next
  case False
  obtain k where k: "dictNextPower_loop (2 ^ 2) n = 2 ^ k" "2 \<le> k" "k = 2 \<or> 2 ^ k < 2 * n"
    using dictNextPower_loop_pow [of 2 n] by blast
  have "k \<le> 63"
  proof (cases "k = 2")
    case nk: False
    have "(2::nat) ^ k < 2 ^ 64" using k(3) nk False by simp
    then have "k < 64" by (rule power_less_imp_less_exp [rotated]) simp
    then show ?thesis by simp
  qed simp
  with k False show ?thesis
    by (intro bexI [of _ k]) (simp_all add: dictNextPower_def DICT_HT_INITIAL_SIZE_def)
qed

lemma dictNextPower_ge: "int n < LLONG_MAX \<Longrightarrow> n \<le> dictNextPower n"
  by (simp add: dictNextPower_def DICT_HT_INITIAL_SIZE_def dictNextPower_loop_ge)

lemma new_table_live:
  "ht_live \<lparr>table = replicate (dictNextPower n) [], ht_size = dictNextPower n,
            sizemask = of_nat (dictNextPower n) - 1, used = 0\<rparr>"
proof -
  obtain k where k: "k \<in> {2..63}" "dictNextPower n = 2 ^ k" using dictNextPower_pow by blast
  then show ?thesis by (auto simp: ht_live_def mask_eq_exp_minus_1)
qed

lemma new_table_fill: "ht_fill ty \<lparr>table = replicate m [], ht_size = m, sizemask = x, used = 0\<rparr>"
  by (simp add: ht_fill_def)

lemma dictExpand_same:
  fixes d :: "('k, 'v) dict"
  assumes "dict_ok d"
  shows "same_dict d (fst (dictExpand d n)) \<and> (snd (dictExpand d n) \<longrightarrow> ht_live (ht0 (fst (dictExpand d n))))"
proof -
  let ?h = "\<lparr>table = replicate (dictNextPower n) [], ht_size = dictNextPower n,
            sizemask = of_nat (dictNextPower n) - 1, used = 0\<rparr> :: ('k, 'v) dictht"
  have f: "ht_live ?h" "ht_fill (dtype d) ?h" by (rule new_table_live, rule new_table_fill)
  show ?thesis
  proof (cases "dictIsRehashing d \<or> used (ht0 d) > n \<or> dictNextPower n = ht_size (ht0 d)")
    case True
    then show ?thesis using assms by (auto simp: dictExpand_def same_dict_refl)
  next
    case False
    then have sh: "ht_null (ht0 d) \<or> ht_live (ht0 d)" "ht_null (ht1 d)"
      using assms by (auto simp: dict_ok_def dict_shape_def)
    show ?thesis
    proof (cases "table (ht0 d) = []")
      case True
      let ?d = "d\<lparr>ht0 := ?h\<rparr>"
      have "entries ?d = entries d" using True by (simp add: entries_def)
      with False True sh f assms show ?thesis
        by (simp add: dictExpand_def Let_def same_dict_def dict_ok_def dict_shape_def dictIsRehashing_def)
    next
      case nn: False
      let ?d = "d\<lparr>ht1 := ?h, rehashidx := 0\<rparr>"
      have "entries ?d = entries d" using sh by (simp add: entries_def ht_null_def)
      moreover have "ht_live (ht0 d)" using sh nn by (auto simp: ht_null_def)
      ultimately show ?thesis
        using False nn f assms
        by (simp add: dictExpand_def Let_def same_dict_def dict_ok_def dict_shape_def dictIsRehashing_def)
    qed
  qed
qed

text \<open>There is room for one more entry: the tables are far from the address space's end.\<close>

definition dict_room :: "('k, 'v) dict \<Rightarrow> bool" where
  "dict_room d \<longleftrightarrow> dictSize d < 2 ^ 61"

lemma dictExpandIfNeeded_spec:
  assumes "dict_ok d" "dict_room d"
  obtains d' where "dictExpandIfNeeded cr d = (d', True)" "same_dict d d'" "ht_live (ht0 d')"
proof -
  have u: "used (ht0 d) < 2 ^ 61" using assms(2) by (simp add: dict_room_def dictSize_def)
  consider (reh) "dictIsRehashing d" | (null) "\<not> dictIsRehashing d" "ht_size (ht0 d) = 0"
    | (grow) "\<not> dictIsRehashing d" "ht_size (ht0 d) \<noteq> 0" "used (ht0 d) \<ge> ht_size (ht0 d)"
        "cr \<or> used (ht0 d) div ht_size (ht0 d) > dict_force_resize_ratio"
    | (none) "\<not> dictIsRehashing d" "ht_size (ht0 d) \<noteq> 0"
        "\<not> (used (ht0 d) \<ge> ht_size (ht0 d) \<and> (cr \<or> used (ht0 d) div ht_size (ht0 d) > dict_force_resize_ratio))"
    by blast
  then show ?thesis
  proof cases
    case reh
    then show ?thesis using assms(1)
      by (intro that [of d]) (auto simp: dictExpandIfNeeded_def same_dict_refl dict_ok_def dict_shape_def)
  next
    case null
    then have "ht_null (ht0 d)"
      using assms(1) by (auto simp: dict_ok_def dict_shape_def dest: ht_live_nonempty)
    then have "snd (dictExpand d DICT_HT_INITIAL_SIZE)"
      using null dictNextPower_pow [of DICT_HT_INITIAL_SIZE]
      by (auto simp: dictExpand_def ht_null_def Let_def)
    then show ?thesis
      using dictExpand_same [OF assms(1), of DICT_HT_INITIAL_SIZE] null
      by (intro that [of "fst (dictExpand d DICT_HT_INITIAL_SIZE)"])
        (cases "dictExpand d DICT_HT_INITIAL_SIZE"; simp add: dictExpandIfNeeded_def)+
  next
    case grow
    have "used (ht0 d) * 2 \<le> dictNextPower (used (ht0 d) * 2)"
      using u by (intro dictNextPower_ge) simp
    then have "dictNextPower (used (ht0 d) * 2) \<noteq> ht_size (ht0 d)" using grow by linarith
    then have "snd (dictExpand d (used (ht0 d) * 2))"
      using grow by (auto simp: dictExpand_def Let_def)
    then show ?thesis
      using dictExpand_same [OF assms(1), of "used (ht0 d) * 2"] grow
      by (intro that [of "fst (dictExpand d (used (ht0 d) * 2))"])
        (cases "dictExpand d (used (ht0 d) * 2)"; simp add: dictExpandIfNeeded_def)+
  next
    case none
    then have "ht_live (ht0 d)"
      using assms(1) by (auto simp: dict_ok_def dict_shape_def ht_null_def)
    with none assms(1) show ?thesis
      by (intro that [of d]) (auto simp: dictExpandIfNeeded_def same_dict_refl)
  qed
qed


subsection \<open>Updating one bucket\<close>

lemma keyed_add:
  assumes "mset es' = add_mset e (mset es)" "distinct (map fst (keyed ty es))"
    "map_of (keyed ty es) (cls ty (fst e)) = None"
  shows "distinct (map fst (keyed ty es'))"
    "map_of (keyed ty es') = (map_of (keyed ty es))(cls ty (fst e) \<mapsto> snd e)"
proof -
  have m: "mset (e # es) = mset es'" using assms(1) by simp
  have "distinct (map fst (keyed ty (e # es)))"
    using assms(2,3) by (simp add: map_of_eq_None_iff)
  with m show "distinct (map fst (keyed ty es'))" using distinct_keyed_mset by blast
  show "map_of (keyed ty es') = (map_of (keyed ty es))(cls ty (fst e) \<mapsto> snd e)"
    using map_of_mset [OF keyed_mset [OF m, of ty]] \<open>distinct (map fst (keyed ty (e # es)))\<close> by simp
qed

lemma keyed_del:
  assumes "mset es = add_mset e (mset es')" "distinct (map fst (keyed ty es))"
  shows "distinct (map fst (keyed ty es'))"
    "map_of (keyed ty es') = (map_of (keyed ty es))(cls ty (fst e) := None)"
proof -
  have m: "mset es = mset (e # es')" using assms(1) by simp
  then have d: "distinct (map fst (keyed ty (e # es')))" using assms(2) distinct_keyed_mset by blast
  then show "distinct (map fst (keyed ty es'))" by simp
  have "map_of (keyed ty es) = map_of (keyed ty (e # es'))"
    using keyed_mset [OF m, of ty] assms(2) by (rule map_of_mset)
  moreover have "map_of (keyed ty es') (cls ty (fst e)) = None"
    using d by (simp add: map_of_eq_None_iff)
  ultimately show "map_of (keyed ty es') = (map_of (keyed ty es))(cls ty (fst e) := None)"
    by (simp add: fun_upd_idem)
qed

text \<open>The dictionary with one bucket and the counter of its table replaced.\<close>

definition put_bucket :: "('k, 'v) dict \<Rightarrow> nat \<Rightarrow> nat \<Rightarrow> ('k \<times> 'v) list \<Rightarrow> nat \<Rightarrow> ('k, 'v) dict" where
  "put_bucket d t i b u =
     set_dict_ht t ((dict_ht d t)\<lparr>table := (table (dict_ht d t))[i := b], used := u\<rparr>) d"

lemma put_bucket_fields [simp]:
  "dtype (put_bucket d t i b u) = dtype d" "iterators (put_bucket d t i b u) = iterators d"
  "rehashidx (put_bucket d t i b u) = rehashidx d"
  by (simp_all add: put_bucket_def set_dict_ht_def)

lemma put_bucket_entries:
  assumes "i < length (table (dict_ht d t))"
  shows "mset (entries (put_bucket d t i b u)) + mset (table (dict_ht d t) ! i) = mset (entries d) + mset b"
  using mset_concat_update [OF assms, of b]
  by (auto simp: put_bucket_def set_dict_ht_def entries_def dict_ht_def ac_simps split: if_splits)

lemma put_bucket_ok:
  assumes ok: "dict_ok d" and i: "i < length (table (dict_ht d t))" and t: "t \<le> 1"
    and place: "\<forall>e \<in> set b. unat (hashFunction (dtype d) (fst e) AND sizemask (dict_ht d t)) = i"
    and cnt: "u + length (table (dict_ht d t) ! i) = used (dict_ht d t) + length b"
    and dist: "distinct (map fst (keyed (dtype d) (entries (put_bucket d t i b u))))"
    and reh: "t = 0 \<Longrightarrow> dictIsRehashing d \<Longrightarrow> table (ht0 d) ! i \<noteq> []"
  shows "dict_ok (put_bucket d t i b u)"
proof -
  let ?h = "(dict_ht d t)\<lparr>table := (table (dict_ht d t))[i := b], used := u\<rparr>"
  have fl: "ht_fill (dtype d) (dict_ht d t)" using ok by (simp add: dict_ok_def dict_ht_def)
  have fill: "ht_fill (dtype d) ?h"
    using fl place cnt i length_concat_update [OF i, of b]
    by (auto simp: ht_fill_def nth_list_update)
  have live: "ht_live (dict_ht d t)"
    using ok i t by (auto simp: dict_ok_def dict_shape_def dict_ht_def ht_null_def split: if_splits)
  have live': "ht_live ?h" by (rule ht_live_cong [OF live]) simp_all
  have shape: "dict_shape (put_bucket d t i b u)"
  proof (cases "dictIsRehashing d")
    case False
    then have "t = 0" using ok t i by (auto simp: dict_ok_def dict_shape_def dict_ht_def ht_null_def split: if_splits)
    with False ok live' show ?thesis
      by (simp add: dict_ok_def dict_shape_def put_bucket_def set_dict_ht_def dictIsRehashing_def dict_ht_def)
  next
    case True
    show ?thesis
    proof (cases "t = 0")
      case False
      with True ok live' show ?thesis
        by (simp add: dict_ok_def dict_shape_def put_bucket_def set_dict_ht_def dictIsRehashing_def dict_ht_def)
    next
      case t0: True
      have "\<forall>x < nat (rehashidx d). (table (ht0 d))[i := b] ! x = []"
        using ok True reh t0 by (auto simp: dict_ok_def dict_shape_def) (metis nth_list_update_neq)
      with t0 True ok live' show ?thesis
        by (simp add: dict_ok_def dict_shape_def put_bucket_def set_dict_ht_def dictIsRehashing_def dict_ht_def)
    qed
  qed
  from ok fill dist shape show ?thesis
    by (auto simp: dict_ok_def put_bucket_def set_dict_ht_def dict_ht_def)
qed

subsection \<open>Setting a value\<close>

lemma valid_ref_facts:
  assumes "dict_ok d" "valid_ref d (t, i, pos)"
  shows "t \<le> 1" "i < length (table (dict_ht d t))" "pos < length (table (dict_ht d t) ! i)"
    "\<forall>e \<in> set (table (dict_ht d t) ! i). unat (hashFunction (dtype d) (fst e) AND sizemask (dict_ht d t)) = i"
    "length (table (dict_ht d t) ! i) \<le> used (dict_ht d t)"
proof -
  show v: "t \<le> 1" "i < length (table (dict_ht d t))" "pos < length (table (dict_ht d t) ! i)"
    using assms(2) by (auto simp: valid_ref_def)
  have fl: "ht_fill (dtype d) (dict_ht d t)" using assms(1) by (simp add: dict_ok_def dict_ht_def)
  then show "\<forall>e \<in> set (table (dict_ht d t) ! i). unat (hashFunction (dtype d) (fst e) AND sizemask (dict_ht d t)) = i"
    using v by (simp add: ht_fill_def)
  show "length (table (dict_ht d t) ! i) \<le> used (dict_ht d t)"
    using fl length_concat_update [OF v(2), of "[]"] by (simp add: ht_fill_def)
qed

lemma mset_update_add: "pos < length b \<Longrightarrow> add_mset (b ! pos) (mset (b[pos := e])) = add_mset e (mset b)"
proof (induction b arbitrary: pos)
  case (Cons x b)
  then show ?case by (cases pos) (auto simp: add_mset_commute)
qed simp

lemma mset_swap:
  assumes "E' + B = E + B'" "add_mset x B' = add_mset y B"
  shows "add_mset x E' = add_mset y (E :: 'a multiset)"
proof -
  have "add_mset x E' + B = add_mset x (E + B')" using assms(1) by simp
  also have "\<dots> = E + add_mset x B'" by simp
  also have "\<dots> = add_mset y E + B" using assms(2) by simp
  finally show ?thesis by (rule add_right_imp_eq)
qed

lemma dictSetVal_put:
  "dictSetVal d (t, i, pos) v =
     put_bucket d t i ((table (dict_ht d t) ! i)[pos := (fst (table (dict_ht d t) ! i ! pos), v)]) (used (dict_ht d t))"
  by (simp add: dictSetVal_def put_bucket_def set_dict_ht_def dict_ht_def Let_def)

lemma dictSetVal_spec:
  assumes ok: "dict_ok d" and r: "valid_ref d r"
  shows "dict_ok (dictSetVal d r v)" "dtype (dictSetVal d r v) = dtype d"
    "dict_map (dictSetVal d r v) = (dict_map d)(cls (dtype d) (fst (deref d r)) \<mapsto> v)"
    "dictSize (dictSetVal d r v) = dictSize d"
proof -
  obtain t i pos where rr: "r = (t, i, pos)" by (cases r) auto
  note f = valid_ref_facts [OF ok r [unfolded rr]]
  let ?b = "table (dict_ht d t) ! i" and ?k = "fst (table (dict_ht d t) ! i ! pos)"
  let ?b' = "?b[pos := (?k, v)]" and ?u = "used (dict_ht d t)" and ?ty = "dtype d"
  let ?d = "put_bucket d t i ?b' ?u"
  have dd: "dictSetVal d r v = ?d" by (simp add: rr dictSetVal_put)
  have de: "deref d r = ?b ! pos" by (simp add: rr deref_def)
  have "mset (entries ?d) + mset ?b = mset (entries d) + mset ?b'"
    by (rule put_bucket_entries) (rule f)
  then have ms: "add_mset (?b ! pos) (mset (entries ?d)) = add_mset (?k, v) (mset (entries d))"
    by (rule mset_swap) (rule mset_update_add [OF f(3)])
  have "?b ! pos \<in> set (entries d)" using valid_ref_entry [OF r] de by simp
  then obtain es where es: "mset (entries d) = add_mset (?b ! pos) (mset es)"
    by (metis ex_mset mset_add set_mset_mset)
  with ms have es': "mset (entries ?d) = add_mset (?k, v) (mset es)" by (simp add: add_mset_commute)
  note d1 = keyed_del [OF es dict_okD(5) [OF ok]]
  have none: "map_of (keyed ?ty es) (cls ?ty (fst (?k, v))) = None" using d1(2) by simp
  note d2 = keyed_add [OF es' d1(1) none]
  have reh: "t = 0 \<Longrightarrow> dictIsRehashing d \<Longrightarrow> table (ht0 d) ! i \<noteq> []"
    using f(3) by (auto simp: dict_ht_def)
  have "\<forall>e \<in> set ?b'. unat (hashFunction ?ty (fst e) AND sizemask (dict_ht d t)) = i"
    using f(4) set_update_subset_insert [of ?b pos "(?k, v)"] nth_mem [OF f(3)] by fastforce
  then show "dict_ok (dictSetVal d r v)"
    unfolding dd using d2(1) reh by (intro put_bucket_ok ok f) auto
  then show "dictSize (dictSetVal d r v) = dictSize d"
    using ok es es' dd by (metis dictSize_entries size_add_mset size_mset)
  show "dtype (dictSetVal d r v) = dtype d" by (simp add: dd)
  show "dict_map (dictSetVal d r v) = (dict_map d)(cls ?ty (fst (deref d r)) \<mapsto> v)"
    unfolding dd dict_map_def using d1(2) d2(2) by (simp add: de)
qed


subsection \<open>Insertion and deletion\<close>

lemma dictAddRaw_spec:
  assumes ok: "dict_ok d" and room: "dict_room d"
  obtains
    (exists) d' r where "dictAddRaw cr d key junk = Some (d', Inl (Some r))" "same_dict d d'"
      "valid_ref d' r" "cls (dtype d) (fst (deref d' r)) = cls (dtype d) key"
      "dict_map d (cls (dtype d) key) \<noteq> None"
  | (added) d' r where "dictAddRaw cr d key junk = Some (d', Inr r)" "dict_ok d'" "dtype d' = dtype d"
      "valid_ref d' r" "fst (deref d' r) = key" "dict_map d (cls (dtype d) key) = None"
      "dict_map d' = (dict_map d)(cls (dtype d) key \<mapsto> junk)" "dictSize d' = dictSize d + 1"
proof -
  let ?ty = "dtype d" and ?c = "cls (dtype d) key"
  obtain d1 where d1: "rehash_if_needed d = Some d1" "same_dict d d1"
    using rehash_if_needed_same [OF ok] by blast
  have ok1: "dict_ok d1" and sz1: "dictSize d1 = dictSize d"
    using d1(2) same_dict_size [OF ok d1(2)] by (auto simp: same_dict_def)
  then have "dict_room d1" using room by (simp add: dict_room_def)
  then obtain d2 where d2: "dictExpandIfNeeded cr d1 = (d2, True)" "same_dict d1 d2" "ht_live (ht0 d2)"
    using dictExpandIfNeeded_spec [OF ok1] by blast
  have s2: "same_dict d d2" using same_dict_trans [OF d1(2) d2(2)] .
  have ok2: "dict_ok d2" and ty2: "dtype d2 = ?ty" "dtype d1 = ?ty"
    using s2 d1(2) by (auto simp: same_dict_def)
  have map2: "dict_map d2 = dict_map d" using same_dict_map [OF ok s2] .
  have hash: "dictHashKey d1 key = dictHashKey d2 key" by (simp add: dictHashKey_def ty2)
  from dict_search_spec [OF ok2 d2(3), of key] obtain r idx where
    s: "dict_search d2 key (dictHashKey d2 key) = Some (r, idx)" and
    c: "case r of
       None \<Rightarrow> dict_map d2 (cls (dtype d2) key) = None \<and>
         idx = unat (dictHashKey d2 key AND sizemask (dict_ht d2 (if dictIsRehashing d2 then 1 else 0)))
     | Some r \<Rightarrow> valid_ref d2 r \<and> cls (dtype d2) (fst (deref d2 r)) = cls (dtype d2) key \<and>
         dict_map d2 (cls (dtype d2) key) = Some (snd (deref d2 r))"
    by blast
  show ?thesis
  proof (cases r)
    case (Some x)
    have "dictAddRaw cr d key junk = Some (d2, Inl (Some x))"
      using Some s d1(1) d2(1) hash by (simp add: dictAddRaw_def dictKeyIndex_def)
    with Some c s2 ty2 map2 show ?thesis by (intro exists [of d2 x]) auto
  next
    case None
    let ?t = "if dictIsRehashing d2 then 1 else 0 :: nat"
    let ?h = "dict_ht d2 ?t" and ?b = "table (dict_ht d2 ?t) ! idx"
    have live: "ht_live ?h" using ok2 d2(3) by (auto simp: dict_ok_def dict_shape_def dict_ht_def)
    have idx: "idx = unat (hashFunction ?ty key AND sizemask ?h)"
      using None c by (simp add: dictHashKey_def ty2)
    then have il: "idx < length (table ?h)" using ht_live_idx [OF live] by simp
    let ?d = "put_bucket d2 ?t idx ((key, junk) # ?b) (used ?h + 1)"
    have raw: "dictAddRaw cr d key junk = Some (?d, Inr (?t, idx, 0))"
      using None s d1(1) d2(1) hash il
      by (simp add: dictAddRaw_def dictKeyIndex_def get_bucket_def set_bucket_def put_bucket_def Let_def)
    have none: "dict_map d ?c = None" using None c map2 ty2 by simp
    have ms: "mset (entries ?d) = add_mset (key, junk) (mset (entries d2))"
      using put_bucket_entries [OF il, of "(key, junk) # ?b" "used ?h + 1"] by simp
    have nn: "map_of (keyed ?ty (entries d2)) (cls ?ty (fst (key, junk))) = None"
      using none map2 by (simp add: dict_map_def ty2)
    note ka = keyed_add [OF ms _ nn]
    have dis2: "distinct (map fst (keyed ?ty (entries d2)))" using dict_okD(5) [OF ok2] ty2 by simp
    have "ht_fill ?ty ?h" using ok2 ty2 by (simp add: dict_ok_def dict_ht_def)
    then have pl: "\<forall>e \<in> set ((key, junk) # ?b). unat (hashFunction (dtype d2) (fst e) AND sizemask ?h) = idx"
      using il idx ty2 by (simp add: ht_fill_def)
    have okd: "dict_ok ?d"
      using ka(1) [OF dis2] pl ty2 by (intro put_bucket_ok ok2 il) (auto split: if_splits)
    have "valid_ref ?d (?t, idx, 0)" "fst (deref ?d (?t, idx, 0)) = key"
      using il by (auto simp: valid_ref_def deref_def put_bucket_def set_dict_ht_def dict_ht_def)
    moreover have "dict_map ?d = (dict_map d)(?c \<mapsto> junk)"
      using ka(2) [OF dis2] map2 by (simp add: dict_map_def ty2)
    moreover have "dictSize ?d = dictSize d + 1"
      using dictSize_entries [OF okd] arg_cong [OF ms, of size] dictSize_entries [OF ok2]
        same_dict_size [OF ok s2] by simp
    ultimately show ?thesis
      using raw okd none ty2 by (intro added [of ?d "(?t, idx, 0)"]) simp_all
  qed
qed

lemma dictAdd_spec:
  assumes "dict_ok d" "dict_room d"
  obtains d' where
    "dictAdd cr d key junk val = Some (d', dict_map d (cls (dtype d) key) = None)"
    "dict_ok d'" "dtype d' = dtype d"
    "dict_map d' = (if dict_map d (cls (dtype d) key) = None
       then (dict_map d)(cls (dtype d) key \<mapsto> val) else dict_map d)"
    "dictSize d' = dictSize d + of_bool (dict_map d (cls (dtype d) key) = None)"
proof (rule dictAddRaw_spec [OF assms, of cr key junk])
  fix d' r
  assume a: "dictAddRaw cr d key junk = Some (d', Inl (Some r))" "same_dict d d'"
    "dict_map d (cls (dtype d) key) \<noteq> None"
  then show thesis
    using same_dict_map [OF assms(1) a(2)] same_dict_size [OF assms(1) a(2)]
    by (intro that [of d']) (auto simp: dictAdd_def same_dict_def)
next
  fix d' r
  assume a: "dictAddRaw cr d key junk = Some (d', Inr r)" "dict_ok d'" "dtype d' = dtype d"
      "valid_ref d' r" "fst (deref d' r) = key" "dict_map d (cls (dtype d) key) = None"
      "dict_map d' = (dict_map d)(cls (dtype d) key \<mapsto> junk)" "dictSize d' = dictSize d + 1"
  then show thesis
    using dictSetVal_spec [OF a(2,4), of val]
    by (intro that [of "dictSetVal d' r val"]) (auto simp: dictAdd_def)
qed

lemma dictReplace_spec:
  assumes "dict_ok d" "dict_room d"
  obtains d' where
    "dictReplace cr d key junk val = Some (d', dict_map d (cls (dtype d) key) = None)"
    "dict_ok d'" "dtype d' = dtype d"
    "dict_map d' = (dict_map d)(cls (dtype d) key \<mapsto> val)"
    "dictSize d' = dictSize d + of_bool (dict_map d (cls (dtype d) key) = None)"
proof (rule dictAddRaw_spec [OF assms, of cr key junk])
  fix d' r
  assume a: "dictAddRaw cr d key junk = Some (d', Inl (Some r))" "same_dict d d'"
      "valid_ref d' r" "cls (dtype d) (fst (deref d' r)) = cls (dtype d) key"
      "dict_map d (cls (dtype d) key) \<noteq> None"
  then have "dict_ok d'" "dtype d' = dtype d" by (auto simp: same_dict_def)
  with a show thesis
    using dictSetVal_spec [OF \<open>dict_ok d'\<close> a(3), of val]
      same_dict_map [OF assms(1) a(2)] same_dict_size [OF assms(1) a(2)]
    by (intro that [of "dictSetVal d' r val"]) (auto simp: dictReplace_def)
next
  fix d' r
  assume a: "dictAddRaw cr d key junk = Some (d', Inr r)" "dict_ok d'" "dtype d' = dtype d"
      "valid_ref d' r" "fst (deref d' r) = key" "dict_map d (cls (dtype d) key) = None"
      "dict_map d' = (dict_map d)(cls (dtype d) key \<mapsto> junk)" "dictSize d' = dictSize d + 1"
  then show thesis
    using dictSetVal_spec [OF a(2,4), of val]
    by (intro that [of "dictSetVal d' r val"]) (auto simp: dictReplace_def)
qed

lemma dictGenericDelete_spec:
  assumes ok: "dict_ok d"
  obtains d' e where "dictGenericDelete d key = Some (d', e)" "dict_ok d'" "dtype d' = dtype d"
    "map_option snd e = dict_map d (cls (dtype d) key)"
    "dict_map d' = (dict_map d)(cls (dtype d) key := None)"
    "dictSize d' = dictSize d - of_bool (e \<noteq> None)"
proof (cases "used (ht0 d) = 0 \<and> used (ht1 d) = 0")
  case True
  then have "entries d = []" using dictSize_entries [OF ok] by (simp add: dictSize_def)
  with True ok show ?thesis
    by (intro that [of d None]) (simp_all add: dictGenericDelete_def dict_map_def)
next
  case False
  let ?ty = "dtype d" and ?c = "cls (dtype d) key"
  obtain d1 where d1: "rehash_if_needed d = Some d1" "same_dict d d1"
    using rehash_if_needed_same [OF ok] by blast
  have ok1: "dict_ok d1" and ty: "dtype d1 = ?ty" using d1(2) by (auto simp: same_dict_def)
  have sz: "dictSize d1 = dictSize d" and map1: "dict_map d1 = dict_map d"
    using same_dict_size [OF ok d1(2)] same_dict_map [OF ok d1(2)] by auto
  have "dictSize d1 \<noteq> 0" using False sz by (auto simp: dictSize_def)
  then have "ht_live (ht0 d1)" using dictSize_live [OF ok1] by simp
  from dict_search_spec [OF ok1 this, of key] obtain r idx where
    s: "dict_search d1 key (dictHashKey d1 key) = Some (r, idx)" and
    c: "case r of
       None \<Rightarrow> dict_map d1 (cls (dtype d1) key) = None \<and>
         idx = unat (dictHashKey d1 key AND sizemask (dict_ht d1 (if dictIsRehashing d1 then 1 else 0)))
     | Some r \<Rightarrow> valid_ref d1 r \<and> cls (dtype d1) (fst (deref d1 r)) = cls (dtype d1) key \<and>
         dict_map d1 (cls (dtype d1) key) = Some (snd (deref d1 r))"
    by blast
  show ?thesis
  proof (cases r)
    case None
    have "dictGenericDelete d key = Some (d1, None)"
      using None s d1(1) False by (auto simp: dictGenericDelete_def)
    moreover have "dict_map d ?c = None" using None c map1 ty by simp
    ultimately show ?thesis
      using ok1 ty map1 sz by (intro that [of d1 None]) (simp_all add: fun_upd_idem)
  next
    case (Some x)
    obtain t i pos where x: "x = (t, i, pos)" by (cases x) auto
    have v: "valid_ref d1 (t, i, pos)" using Some c x by simp
    note f = valid_ref_facts [OF ok1 v]
    let ?b = "table (dict_ht d1 t) ! i"
    let ?b' = "take pos ?b @ drop (Suc pos) ?b" and ?u = "used (dict_ht d1 t) - 1"
    let ?d = "put_bucket d1 t i ?b' ?u"
    have del: "dictGenericDelete d key = Some (?d, Some (?b ! pos))"
      using Some x s d1(1) False by (auto simp: dictGenericDelete_def put_bucket_def Let_def)
    have mb: "mset ?b = add_mset (?b ! pos) (mset ?b')"
      using id_take_nth_drop [OF f(3)] by (metis mset.simps(2) mset_append union_mset_add_mset_right)
    have "mset (entries ?d) + mset ?b = mset (entries d1) + mset ?b'"
      by (rule put_bucket_entries) (rule f)
    then have ms: "mset (entries d1) = add_mset (?b ! pos) (mset (entries ?d))"
      unfolding mb by simp
    have dis: "distinct (map fst (keyed ?ty (entries d1)))" using dict_okD(5) [OF ok1] ty by simp
    note kd = keyed_del [OF ms dis]
    have de: "deref d1 (t, i, pos) = ?b ! pos" by (simp add: deref_def)
    have cl: "cls ?ty (fst (?b ! pos)) = ?c" "dict_map d ?c = Some (snd (?b ! pos))"
      using Some c x de ty map1 by auto
    have "0 < used (dict_ht d1 t)" using f(3,5) by linarith
    moreover have "length ?b' + 1 = length ?b" using f(3) by simp
    ultimately have cnt: "?u + length ?b = used (dict_ht d1 t) + length ?b'" by linarith
    have reh: "t = 0 \<Longrightarrow> dictIsRehashing d1 \<Longrightarrow> table (ht0 d1) ! i \<noteq> []"
      using f(3) by (auto simp: dict_ht_def)
    have "\<forall>e \<in> set ?b'. unat (hashFunction (dtype d1) (fst e) AND sizemask (dict_ht d1 t)) = i"
      using f(4) by (auto dest: in_set_takeD in_set_dropD)
    then have okd: "dict_ok ?d"
      using kd(1) ty reh cnt by (intro put_bucket_ok ok1 f) auto
    moreover have "dict_map ?d = (dict_map d)(?c := None)"
      using kd(2) map1 cl by (simp add: dict_map_def ty)
    moreover have "dictSize ?d = dictSize d - 1"
      using dictSize_entries [OF okd] dictSize_entries [OF ok1] arg_cong [OF ms, of size] sz by simp
    ultimately show ?thesis
      using del cl ty by (intro that [of ?d "Some (?b ! pos)"]) simp_all
  qed
qed


subsection \<open>Clearing\<close>

lemma dictClear_loop_all:
  "\<lbrakk>ht_size h = length (table h); used h = length (concat (drop i (table h)))\<rbrakk>
   \<Longrightarrow> \<exists>h'. dictClear_loop h i = Some (h', concat (drop i (table h)))"
proof (induction h i rule: dictClear_loop.induct)
  case (1 h i)
  show ?case
  proof (cases "i < ht_size h \<and> used h > 0")
    case True
    let ?h = "h\<lparr>used := used h - length (table h ! i)\<rparr>"
    have il: "i < length (table h)" using True 1(2) by simp
    have d: "concat (drop i (table h)) = table h ! i @ concat (drop (Suc i) (table h))"
      using Cons_nth_drop_Suc [OF il] by (metis concat.simps(2))
    then have "used ?h = length (concat (drop (i + 1) (table ?h)))" using 1(3) by simp
    moreover have "ht_size ?h = length (table ?h)" using 1(2) by simp
    moreover have "get_bucket h i = Some (table h ! i)" using il by (simp add: get_bucket_def)
    ultimately show ?thesis
      using 1(1) [OF True, of "table h ! i"] True d by (subst dictClear_loop.simps) auto
  next
    case False
    then consider "length (table h) \<le> i" | "length (concat (drop i (table h))) = 0"
      using 1(2,3) by linarith
    then have "concat (drop i (table h)) = []" by cases (simp, metis length_0_conv)
    with False show ?thesis by (subst dictClear_loop.simps) auto
  qed
qed

lemma dictClear_all:
  assumes "ht_fill ty h" "ht_null h \<or> ht_live h"
  shows "dictClear h = Some (dictReset, concat (table h))"
proof -
  have "ht_size h = length (table h)"
    using assms(2) ht_live_nonempty [of h] by (auto simp: ht_null_def)
  then show ?thesis
    using dictClear_loop_all [of h 0] assms(1) by (auto simp: dictClear_def ht_fill_def)
qed

lemma dict_ok_tables:
  "dict_ok d \<Longrightarrow> (ht_null (ht0 d) \<or> ht_live (ht0 d)) \<and> (ht_null (ht1 d) \<or> ht_live (ht1 d))"
  by (auto simp: dict_ok_def dict_shape_def split: if_splits)

lemma dictEmpty_spec:
  assumes "dict_ok d"
  shows "\<exists>d'. dictEmpty d = Some (d', entries d) \<and> dict_ok d' \<and> dtype d' = dtype d \<and>
    entries d' = [] \<and> iterators d' = 0"
  using dictClear_all [of "dtype d" "ht0 d"] dictClear_all [of "dtype d" "ht1 d"] dict_ok_tables [OF assms]
    dict_okD(3,4) [OF assms] assms
  by (simp add: dictEmpty_def entries_def dict_ok_def dict_shape_def dictIsRehashing_def)

lemma dictRelease_spec: "dict_ok d \<Longrightarrow> dictRelease d = Some (entries d)"
  using dictClear_all [of "dtype d" "ht0 d"] dictClear_all [of "dtype d" "ht1 d"] dict_ok_tables [of d]
    dict_okD(3,4) [of d]
  by (simp add: dictRelease_def entries_def)

lemma dictCreate_ok: "type_ok ty \<Longrightarrow> dict_ok (dictCreate ty)"
  "entries (dictCreate ty) = []" "dictSize (dictCreate ty) = 0" "dict_map (dictCreate ty) = Map.empty"
  by (simp_all add: dictCreate_def dict_ok_def dict_shape_def dictIsRehashing_def entries_def dictSize_def
      dict_map_def)

lemma dictFetchValue_spec:
  assumes "dict_ok d"
  obtains d' where "dictFetchValue d key = Some (d', dict_map d (cls (dtype d) key))" "same_dict d d'"
  by (rule dictFind_spec [OF assms, of key]) (simp add: dictFetchValue_def that)

lemma dictRehash_spec:
  assumes "dict_ok d"
  obtains d' where "dictRehash d n = Some (d', dictIsRehashing d')" "same_dict d d'"
proof (cases "dictIsRehashing d")
  case True
  obtain d' more where "rehash_loop n (int (n * 10)) d = Some (d', more)" "same_dict d d'"
    "more \<longleftrightarrow> dictIsRehashing d'"
    using rehash_loop_same [OF assms True] by blast
  with True show ?thesis by (intro that [of d']) (simp_all add: dictRehash_def)
next
  case False
  with assms show ?thesis by (intro that [of d]) (simp_all add: dictRehash_def same_dict_refl)
qed

lemma dictResize_same: "dict_ok d \<Longrightarrow> same_dict d (fst (dictResize cr d))"
  using dictExpand_same [of d] by (simp add: dictResize_def same_dict_refl Let_def)

section \<open>The dictionary as a map\<close>

text \<open>The operations a client calls, with the arguments they read from the environment.\<close>

datatype ('k, 'v) dict_op =
    Fetch 'k
  | Add bool 'k 'v 'v
  | Replace bool 'k 'v 'v
  | Delete 'k
  | Size
  | Empty
  | Resize bool
  | Rehash nat

datatype 'v dict_reply = Val "'v option" | Flag bool | Count nat | Done

definition dict_step :: "('k, 'v) dict_op \<Rightarrow> ('k, 'v) dict \<Rightarrow> (('k, 'v) dict \<times> 'v dict_reply) option" where
  "dict_step op d =
    (case op of
       Fetch k \<Rightarrow> do { (d1, v) \<leftarrow> dictFetchValue d k; Some (d1, Val v) }
     | Add cr k junk v \<Rightarrow> do { (d1, b) \<leftarrow> dictAdd cr d k junk v; Some (d1, Flag b) }
     | Replace cr k junk v \<Rightarrow> do { (d1, b) \<leftarrow> dictReplace cr d k junk v; Some (d1, Flag b) }
     | Delete k \<Rightarrow> do { (d1, b) \<leftarrow> dictDelete d k; Some (d1, Flag b) }
     | Size \<Rightarrow> Some (d, Count (dictSize d))
     | Empty \<Rightarrow> do { (d1, _) \<leftarrow> dictEmpty d; Some (d1, Done) }
     | Resize cr \<Rightarrow> Some (fst (dictResize cr d), Done)
     | Rehash n \<Rightarrow> do { (d1, _) \<leftarrow> dictRehash d n; Some (d1, Done) })"

text \<open>The same operations on a finite map from key classes.\<close>

fun map_step ::
  "'k dictType \<Rightarrow> ('k, 'v) dict_op \<Rightarrow> ('k set \<rightharpoonup> 'v) \<Rightarrow> ('k set \<rightharpoonup> 'v) \<times> 'v dict_reply" where
  "map_step ty (Fetch k) m = (m, Val (m (cls ty k)))"
| "map_step ty (Add cr k junk v) m =
    (if m (cls ty k) = None then m(cls ty k \<mapsto> v) else m, Flag (m (cls ty k) = None))"
| "map_step ty (Replace cr k junk v) m = (m(cls ty k \<mapsto> v), Flag (m (cls ty k) = None))"
| "map_step ty (Delete k) m = (m(cls ty k := None), Flag (m (cls ty k) \<noteq> None))"
| "map_step ty Size m = (m, Count (card (dom m)))"
| "map_step ty Empty m = (Map.empty, Done)"
| "map_step ty (Resize cr) m = (m, Done)"
| "map_step ty (Rehash n) m = (m, Done)"

lemma dictSize_card: "dict_ok d \<Longrightarrow> dictSize d = card (dom (dict_map d))"
proof -
  assume ok: "dict_ok d"
  have "card (dom (dict_map d)) = card (set (map fst (keyed (dtype d) (entries d))))"
    by (simp add: dict_map_def dom_map_of_conv_image_fst)
  also have "\<dots> = length (entries d)"
    using distinct_card [OF dict_okD(5) [OF ok]] by (simp add: keyed_def)
  finally show ?thesis using dictSize_entries [OF ok] by simp
qed

lemma same_dictD: "\<lbrakk>same_dict d d'; dict_ok d\<rbrakk>
  \<Longrightarrow> dict_ok d' \<and> dtype d' = dtype d \<and> dict_map d' = dict_map d \<and> dictSize d' = dictSize d"
  using same_dict_map [of d d'] same_dict_size [of d d'] by (simp add: same_dict_def)

lemma dict_step_sim:
  assumes "dict_ok d \<and> dtype d = ty" "dictSize d < 2 ^ 61"
  shows "\<exists>d' r. dict_step op d = Some (d', r) \<and> (dict_ok d' \<and> dtype d' = ty) \<and>
    map_step ty op (dict_map d) = (dict_map d', r) \<and> dictSize d' \<le> dictSize d + 1"
proof (cases op)
  case (Fetch k)
  show ?thesis
    by (rule dictFetchValue_spec [of d k])
      (use assms Fetch in \<open>auto simp: dict_step_def dest!: same_dictD\<close>)
next
  case (Add cr k junk v)
  show ?thesis
    by (rule dictAdd_spec [of d cr k junk v]) (use assms Add in \<open>auto simp: dict_step_def dict_room_def\<close>)
next
  case (Replace cr k junk v)
  show ?thesis
    by (rule dictReplace_spec [of d cr k junk v])
      (use assms Replace in \<open>auto simp: dict_step_def dict_room_def\<close>)
next
  case (Delete k)
  show ?thesis
  proof (rule dictGenericDelete_spec [of d k])
    fix d' e
    assume a: "dictGenericDelete d k = Some (d', e)" "dict_ok d'" "dtype d' = dtype d"
      "map_option snd e = dict_map d (cls (dtype d) k)" "dict_map d' = (dict_map d)(cls (dtype d) k := None)"
      "dictSize d' = dictSize d - of_bool (e \<noteq> None)"
    then have "e = None \<longleftrightarrow> dict_map d (cls (dtype d) k) = None" by (metis option.map_disc_iff)
    with a assms Delete show ?thesis by (auto simp: dict_step_def dictDelete_def)
  qed (use assms in simp)
next
  case Size
  with assms show ?thesis by (simp add: dict_step_def dictSize_card)
next
  case Empty
  with assms dictEmpty_spec [of d] show ?thesis
    by (auto simp: dict_step_def dict_map_def dictSize_entries)
next
  case (Resize cr)
  have "same_dict d (fst (dictResize cr d))" using assms dictResize_same by blast
  with assms Resize show ?thesis
    by (auto simp: dict_step_def dest!: same_dictD)
next
  case (Rehash n)
  show ?thesis
    by (rule dictRehash_spec [of d n])
      (use assms Rehash in \<open>auto simp: dict_step_def dest!: same_dictD\<close>)
qed

interpretation dict_sim: simulation dict_step "map_step ty" dict_map "\<lambda>d. dict_ok d \<and> dtype d = ty"
  "\<lambda>_ _. True" dictSize "2 ^ 61" for ty
  by unfold_locales (rule dict_step_sim, simp_all)

section \<open>Progress of incremental rehashing\<close>

lemma rehash_skip_forward:
  "rehash_skip tab i ev = Some (j, ev', stop) \<Longrightarrow> i \<le> j \<and> (stop \<longrightarrow> i < j)"
proof (induction tab i ev arbitrary: j ev' stop rule: rehash_skip.induct)
  case (1 tab i ev)
  show ?case
    using 1(2) 1(1) [of j ev' stop] by (subst (asm) rehash_skip.simps) (auto split: if_splits)
qed

lemma rehash_move_keeps:
  "rehash_move d b = Some d' \<Longrightarrow> rehashidx d' = rehashidx d \<and> ht_size (ht0 d') = ht_size (ht0 d)"
  by (induction d b rule: rehash_move.induct) (auto simp: Let_def split: Option.bind_splits)

lemma rehash_loop_progress:
  "\<lbrakk>rehash_loop n ev d = Some (d', True); 0 \<le> rehashidx d\<rbrakk>
   \<Longrightarrow> rehashidx d + of_bool (0 < n) \<le> rehashidx d' \<and> ht_size (ht0 d') = ht_size (ht0 d)"
proof (induction n ev d rule: rehash_loop.induct)
  case (1 ev d)
  then show ?case by (auto simp: rehash_finish_def split: if_splits)
next
  case (2 n ev d)
  have ne: "used (ht0 d) \<noteq> 0" using 2(2) by (auto simp: rehash_finish_def split: if_splits)
  then obtain i ev' stop where sk: "rehash_skip (table (ht0 d)) (nat (rehashidx d)) ev = Some (i, ev', stop)"
    using 2(2) by (auto split: if_splits Option.bind_splits)
  note fw = rehash_skip_forward [OF sk]
  show ?case
  proof (cases stop)
    case True
    then show ?thesis using 2(2) ne sk fw by (auto split: if_splits)
  next
    case False
    let ?d = "d\<lparr>rehashidx := int i\<rparr>"
    obtain de d2 t0 where s: "get_bucket (ht0 ?d) i = Some de" "rehash_move ?d de = Some d2"
      "set_bucket (ht0 d2) i [] = Some t0"
      "rehash_loop n ev' (d2\<lparr>ht0 := t0, rehashidx := int i + 1\<rparr>) = Some (d', True)"
      using 2(2) ne sk False by (auto simp: Let_def split: if_splits Option.bind_splits)
    have "ht_size t0 = ht_size (ht0 d)"
      using s(3) rehash_move_keeps [OF s(2)] by (auto simp: set_bucket_def split: if_splits)
    moreover have "\<not> \<not> nat (rehashidx d) < ht_size (ht0 d)" using 2(2) ne by (auto split: if_splits)
    ultimately show ?thesis
      using 2(1) [OF ne _ sk refl refl refl False s(1,2,3,4)] fw by (cases "0 < n") auto
  qed
qed

lemma dictRehash_progress:
  assumes "dict_ok d" "dictRehash d n = Some (d', True)" "0 < n"
  shows "rehashidx d < rehashidx d' \<and> rehashidx d' \<le> int (ht_size (ht0 d)) \<and>
    ht_size (ht0 d') = ht_size (ht0 d)"
proof -
  have r: "dictIsRehashing d" using assms(2) by (auto simp: dictRehash_def split: if_splits)
  then have "0 \<le> rehashidx d" using assms(1) by (simp add: dict_ok_def dict_shape_def)
  with r assms(2,3) have p: "rehashidx d + 1 \<le> rehashidx d'" "ht_size (ht0 d') = ht_size (ht0 d)"
    using rehash_loop_progress [of n "int (n * 10)" d d'] by (simp_all add: dictRehash_def)
  obtain "dictIsRehashing d'" "dict_ok d'"
    by (rule dictRehash_spec [OF assms(1), of n]) (use assms(2) in \<open>auto simp: same_dict_def\<close>)
  with p show ?thesis by (simp add: dict_ok_def dict_shape_def)
qed

lemma rehash_ms_loop_spec:
  assumes "dict_ok d" "int (ht_size (ht0 d)) - rehashidx d < int fuel"
  shows "\<exists>d' r. rehash_ms_loop fuel clock i ms d rehashes = Some (d', r) \<and> same_dict d d' \<and>
    (dictIsRehashing d' \<longrightarrow> (\<exists>j. clock (Suc j) - clock 0 > ms))"
  using assms
proof (induction fuel arbitrary: d i rehashes)
  case 0
  have "rehashidx d \<le> int (ht_size (ht0 d))" using 0(1) by (auto simp: dict_ok_def dict_shape_def dictIsRehashing_def split: if_splits)
  with 0 show ?case by simp
next
  case (Suc fuel)
  obtain d1 where d1: "dictRehash d 100 = Some (d1, dictIsRehashing d1)" "same_dict d d1"
    using dictRehash_spec [OF Suc.prems(1)] by blast
  show ?case
  proof (cases "dictIsRehashing d1 \<and> \<not> clock (Suc i) - clock 0 > ms")
    case True
    have "dict_ok d1" using d1(2) by (simp add: same_dict_def)
    moreover have "int (ht_size (ht0 d1)) - rehashidx d1 < int fuel"
      using dictRehash_progress [OF Suc.prems(1), of 100 d1] d1(1) True Suc.prems(2) by simp
    ultimately obtain d2 r where "rehash_ms_loop fuel clock (Suc i) ms d1 (rehashes + 100) = Some (d2, r)"
      "same_dict d1 d2" "dictIsRehashing d2 \<longrightarrow> (\<exists>j. clock (Suc j) - clock 0 > ms)"
      using Suc.IH by blast
    with True d1 same_dict_trans [OF d1(2)] show ?thesis by auto
  next
    case False
    with d1 show ?thesis by auto
  qed
qed

section \<open>Properties\<close>

text \<open>A dictionary that is being rehashed and one that is not, for the examples below.\<close>

definition ex_type :: "u64 dictType" where
  "ex_type = \<lparr>hashFunction = (\<lambda>k. k), keyCompare = None\<rparr>"

definition ex_dict :: "(u64, nat) dict" where
  "ex_dict =
    \<lparr>dtype = ex_type,
     ht0 = \<lparr>table = [[], [(5, 50), (1, 10)], [], [(3, 30)]], ht_size = 4, sizemask = 3, used = 3\<rparr>,
     ht1 = \<lparr>table = [[(8, 80)], [], [], [], [], [], [], []], ht_size = 8, sizemask = 7, used = 1\<rparr>,
     rehashidx = 1, iterators = 0\<rparr>"

lemma ex_type_ok [simp]: "type_ok ex_type"
  by (auto simp: type_ok_def ex_type_def key_eq_def dictCompareKeys_def equivp_def fun_eq_iff)

lemma ex_cls [simp]: "cls ex_type k = {k}"
  by (auto simp: cls_def ex_type_def key_eq_def dictCompareKeys_def)

lemma ex_entries [simp]: "entries ex_dict = [(5, 50), (1, 10), (3, 30), (8, 80)]" "dtype ex_dict = ex_type"
  by (simp_all add: entries_def ex_dict_def)

lemma ex_dict_ok [simp]: "dict_ok ex_dict"
proof -
  have "ht_live (ht0 ex_dict)" "ht_live (ht1 ex_dict)"
    unfolding ht_live_def ex_dict_def
    by (intro bexI [of _ 2] bexI [of _ 3]; simp add: mask_eq_exp_minus_1)+
  moreover have "ht_fill ex_type (ht0 ex_dict)" "ht_fill ex_type (ht1 ex_dict)"
    by (simp_all add: ht_fill_def ex_dict_def ex_type_def All_less_Suc2)
  moreover have "distinct (map fst (keyed ex_type (entries ex_dict)))" by simp
  ultimately show ?thesis
    by (simp add: dict_ok_def dict_shape_def) (simp add: ex_dict_def dictIsRehashing_def)
qed

text \<open>C1: Any sequence of dictionary operations (lookups, insertions, replacements, deletions,
  clearing, resizing and rehashing steps, in any order) on a fresh dictionary behaves as the same
  sequence on a finite map: no operation reads outside a table or fails an assertion, every reply
  is that of the map, and the invariant holds at the end.  The length of the sequence is bounded
  by the size the table counters can hold.\<close>

theorem dict_refines_map:
  assumes "type_ok ty" "length ops \<le> 2 ^ 61"
  shows "\<exists>d rs. run_ops dict_step ops (dictCreate ty) = Some (d, rs) \<and> dict_ok d \<and>
    run_spec (map_step ty) ops Map.empty = (dict_map d, rs)"
proof -
  have "dtype (dictCreate ty) = ty" by (simp add: dictCreate_def)
  with dict_sim.run_sim [of "dictCreate ty" ty ops] dictCreate_ok(1) [OF assms(1)]
  show ?thesis using assms(2) by (auto simp: list_all_iff dictCreate_ok)
qed

theorem dict_refines_map_witness:
  "\<exists>d. run_ops dict_step
      [Add True 1 0 10, Add True 5 0 50, Add False 1 0 11, Replace True 5 0 55, Rehash 1, Fetch 5, Delete 1, Fetch 1, Size]
      (dictCreate ex_type) =
    Some (d, [Flag True, Flag True, Flag False, Flag False, Done, Val (Some (55::nat)), Flag True, Val None, Count 1])"
  using dict_refines_map [of ex_type
      "[Add True 1 0 10, Add True 5 0 50, Add False 1 0 11, Replace True 5 0 55, Rehash 1, Fetch 5, Delete 1, Fetch 1, Size]"]
  by (auto simp: fun_upd_twist)



end
