(* ===== verification/Dict_Iter.thy ===== *)
theory Dict_Iter
  imports Dict
begin

text \<open>
  The iterators of \<open>dict.c\<close>.  The pointers \<open>iter->entry\<close> and \<open>iter->nextEntry\<close> are the chains that
  start there, so \<open>NULL\<close> is \<open>[]\<close>.  The addresses of the two table arrays, which \<open>dictFingerprint\<close>
  reads, are the arguments \<open>p0\<close> and \<open>p1\<close>.
\<close>

unbundle bit_operations_syntax

section \<open>Iterators\<close>

text \<open>One round of the mixing loop; \<open>>>\<close> on a \<open>long long\<close> is the arithmetic shift.\<close>

definition fingerprint_mix :: "u64 \<Rightarrow> u64" where
  "fingerprint_mix hash =
    (let hash = NOT hash + push_bit 21 hash;
         hash = hash XOR signed_drop_bit 24 hash;
         hash = (hash + push_bit 3 hash) + push_bit 8 hash;
         hash = hash XOR signed_drop_bit 14 hash;
         hash = (hash + push_bit 2 hash) + push_bit 4 hash;
         hash = hash XOR signed_drop_bit 28 hash
     in hash + push_bit 31 hash)"

definition dictFingerprint :: "u64 \<Rightarrow> u64 \<Rightarrow> ('k, 'v) dict \<Rightarrow> u64" where
  "dictFingerprint p0 p1 d =
    foldl (\<lambda>hash n. fingerprint_mix (hash + n)) 0
      [p0, of_nat (ht_size (ht0 d)), of_nat (used (ht0 d)),
       p1, of_nat (ht_size (ht1 d)), of_nat (used (ht1 d))]"

record ('k, 'v) dictIterator =
  it_table :: nat
  it_index :: int
  it_safe :: bool
  it_entry :: "('k \<times> 'v) list"
  it_nextEntry :: "('k \<times> 'v) list"
  it_fingerprint :: u64

definition dictGetIterator :: "('k, 'v) dictIterator" where
  "dictGetIterator =
    \<lparr>it_table = 0, it_index = - 1, it_safe = False, it_entry = [], it_nextEntry = [], it_fingerprint = 0\<rparr>"

definition dictGetSafeIterator :: "('k, 'v) dictIterator" where
  "dictGetSafeIterator = dictGetIterator\<lparr>it_safe := True\<rparr>"

text \<open>
  The branch of \<open>dictNext\<close> for \<open>iter->entry == NULL\<close>: the first call registers the iterator, then
  the next bucket is fetched.  The flag of the result is the \<open>break\<close>.
\<close>

definition iter_register ::
  "u64 \<Rightarrow> u64 \<Rightarrow> ('k, 'v) dict \<Rightarrow> ('k, 'v) dictIterator \<Rightarrow> ('k, 'v) dict \<times> ('k, 'v) dictIterator" where
  "iter_register p0 p1 d it =
    (if it_index it = - 1 \<and> it_table it = 0 then
       (if it_safe it then (d\<lparr>iterators := iterators d + 1\<rparr>, it)
        else (d, it\<lparr>it_fingerprint := dictFingerprint p0 p1 d\<rparr>))
     else (d, it))"

definition iter_fetch ::
  "u64 \<Rightarrow> u64 \<Rightarrow> ('k, 'v) dict \<Rightarrow> ('k, 'v) dictIterator \<Rightarrow>
   (('k, 'v) dict \<times> ('k, 'v) dictIterator \<times> bool) option" where
  "iter_fetch p0 p1 d it =
    (case iter_register p0 p1 d it of (d1, it1) \<Rightarrow>
       let i = it_index it1 + 1; it2 = it1\<lparr>it_index := i\<rparr>
       in if i \<ge> int (ht_size (dict_ht d1 (it_table it2))) then
            (if dictIsRehashing d1 \<and> it_table it2 = 0 then
               do {
                 b \<leftarrow> get_bucket (ht1 d1) 0;
                 Some (d1, it2\<lparr>it_table := 1, it_index := 0, it_entry := b\<rparr>, False)
               }
             else Some (d1, it2, True))
          else
            do {
              b \<leftarrow> get_bucket (dict_ht d1 (it_table it2)) (nat i);
              Some (d1, it2\<lparr>it_entry := b\<rparr>, False)
            })"

lemma iter_register_fields:
  assumes "iter_register p0 p1 d it = (d1, it1)"
  shows "it_table it1 = it_table it" "it_index it1 = it_index it" "it_safe it1 = it_safe it"
    "it_entry it1 = it_entry it" "it_nextEntry it1 = it_nextEntry it" "ht0 d1 = ht0 d" "ht1 d1 = ht1 d"
    "dict_ht d1 t = dict_ht d t" "dtype d1 = dtype d" "rehashidx d1 = rehashidx d"
    "dictIsRehashing d1 = dictIsRehashing d"
  using assms by (auto simp: iter_register_def dict_ht_def dictIsRehashing_def split: if_splits)

text \<open>\<open>dictNext\<close>: the result \<open>None\<close> of the inner option is the \<open>NULL\<close> at the end.\<close>

function dictNext ::
  "u64 \<Rightarrow> u64 \<Rightarrow> ('k, 'v) dict \<Rightarrow> ('k, 'v) dictIterator \<Rightarrow>
   (('k, 'v) dict \<times> ('k, 'v) dictIterator \<times> ('k \<times> 'v) option) option" where
  "dictNext p0 p1 d it =
    (if it_entry it = [] then
       (case iter_fetch p0 p1 d it of
          None \<Rightarrow> None
        | Some (d1, it1, stop) \<Rightarrow>
            if stop then Some (d1, it1, None)
            else (case it_entry it1 of
                    e # nxt \<Rightarrow> Some (d1, it1\<lparr>it_nextEntry := nxt\<rparr>, Some e)
                  | [] \<Rightarrow> dictNext p0 p1 d1 it1))
     else
       (let it1 = it\<lparr>it_entry := it_nextEntry it\<rparr>
        in case it_entry it1 of
             e # nxt \<Rightarrow> Some (d, it1\<lparr>it_nextEntry := nxt\<rparr>, Some e)
           | [] \<Rightarrow> dictNext p0 p1 d it1))"
  by pat_completeness auto
termination
proof (relation "inv_image (less_than <*lex*> less_than <*lex*> less_than)
   (\<lambda>(p0, p1, d, it). (if it_table it = 0 then 1 else 0 :: nat,
      nat (int (ht_size (dict_ht d (it_table it))) - it_index it), if it_entry it = [] then 0 else 1 :: nat))",
   goal_cases)
  case 1
  then show ?case by auto
next
  case (2 p0 p1 d it x d1 y it1 stop)
  then show ?case
    by (auto simp: iter_fetch_def Let_def iter_register_fields split: prod.splits if_splits Option.bind_splits)
next
  case (3 p0 p1 d it it1)
  then show ?case by auto
qed

declare dictNext.simps [simp del]

text \<open>\<open>dictReleaseIterator\<close>; \<open>None\<close> is the failing \<open>assert\<close> on the fingerprint.\<close>

definition dictReleaseIterator ::
  "u64 \<Rightarrow> u64 \<Rightarrow> ('k, 'v) dict \<Rightarrow> ('k, 'v) dictIterator \<Rightarrow> ('k, 'v) dict option" where
  "dictReleaseIterator p0 p1 d it =
    (if \<not> (it_index it = - 1 \<and> it_table it = 0) then
       (if it_safe it then Some (d\<lparr>iterators := iterators d - 1\<rparr>)
        else if it_fingerprint it = dictFingerprint p0 p1 d then Some d
        else None)
     else Some d)"

section \<open>A loop over the dictionary\<close>

text \<open>
  The loop every client of a safe iterator has: visit the entries and delete some of them.  The
  result lists the entries in the order they are visited.  The first argument bounds the number
  of rounds.
\<close>

fun iter_loop ::
  "nat \<Rightarrow> (('k \<times> 'v) \<Rightarrow> bool) \<Rightarrow> u64 \<Rightarrow> u64 \<Rightarrow> ('k, 'v) dict \<Rightarrow> ('k, 'v) dictIterator \<Rightarrow>
   (('k, 'v) dict \<times> ('k, 'v) dictIterator \<times> ('k \<times> 'v) list) option" where
  "iter_loop 0 del p0 p1 d it = None"
| "iter_loop (Suc n) del p0 p1 d it =
    do {
      (d1, it1, e) \<leftarrow> dictNext p0 p1 d it;
      (case e of
         None \<Rightarrow> Some (d1, it1, [])
       | Some e \<Rightarrow>
           do {
             d2 \<leftarrow> (if del e then map_option fst (dictDelete d1 (fst e)) else Some d1);
             (d3, it3, visited) \<leftarrow> iter_loop n del p0 p1 d2 it1;
             Some (d3, it3, e # visited)
           })
    }"

definition iter_dict ::
  "nat \<Rightarrow> (('k \<times> 'v) \<Rightarrow> bool) \<Rightarrow> u64 \<Rightarrow> u64 \<Rightarrow> ('k, 'v) dict \<Rightarrow> ('k, 'v) dictIterator \<Rightarrow>
   (('k, 'v) dict \<times> ('k \<times> 'v) list) option" where
  "iter_dict n del p0 p1 d it =
    do {
      (d1, it1, visited) \<leftarrow> iter_loop n del p0 p1 d it;
      d2 \<leftarrow> dictReleaseIterator p0 p1 d1 it1;
      Some (d2, visited)
    }"

section \<open>What an iteration visits\<close>

text \<open>The entries an iterator still has to return.\<close>

definition rest_of :: "('k, 'v) dict \<Rightarrow> ('k, 'v) dictIterator \<Rightarrow> ('k \<times> 'v) list" where
  "rest_of d it =
    concat (drop (nat (it_index it + 1)) (table (dict_ht d (it_table it)))) @
    (if it_table it = 0 \<and> dictIsRehashing d then concat (table (ht1 d)) else [])"

definition pending :: "('k, 'v) dict \<Rightarrow> ('k, 'v) dictIterator \<Rightarrow> ('k \<times> 'v) list" where
  "pending d it = (if it_entry it = [] then [] else it_nextEntry it) @ rest_of d it"

definition tables_sized :: "('k, 'v) dict \<Rightarrow> bool" where
  "tables_sized d \<longleftrightarrow> ht_size (ht0 d) = length (table (ht0 d)) \<and> ht_size (ht1 d) = length (table (ht1 d)) \<and>
     (dictIsRehashing d \<longrightarrow> table (ht1 d) \<noteq> [])"

lemma dict_ok_sized: "dict_ok d \<Longrightarrow> tables_sized d"
  using ht_live_nonempty [of "ht0 d"] ht_live_nonempty [of "ht1 d"]
  by (auto simp: tables_sized_def dict_ok_def dict_shape_def ht_null_def split: if_splits)

text \<open>The position of an iterator: the saved chain is the rest of the current bucket.\<close>

definition iter_at :: "('k, 'v) dict \<Rightarrow> ('k, 'v) dictIterator \<Rightarrow> bool" where
  "iter_at d it \<longleftrightarrow> it_table it \<le> 1 \<and> - 1 \<le> it_index it \<and>
     (it_entry it \<noteq> [] \<longrightarrow> 0 \<le> it_index it \<and>
        nat (it_index it) < length (table (dict_ht d (it_table it))) \<and>
        (\<exists>pre. table (dict_ht d (it_table it)) ! nat (it_index it) = pre @ it_nextEntry it))"

definition iter_fresh :: "('k, 'v) dictIterator \<Rightarrow> bool" where
  "iter_fresh it \<longleftrightarrow> it_index it = - 1 \<and> it_table it = 0"

text \<open>What the first call of \<open>dictNext\<close> does besides moving.\<close>

definition registered ::
  "u64 \<Rightarrow> u64 \<Rightarrow> ('k, 'v) dict \<Rightarrow> ('k, 'v) dictIterator \<Rightarrow> ('k, 'v) dict \<Rightarrow> ('k, 'v) dictIterator \<Rightarrow> bool" where
  "registered p0 p1 d it d' it' \<longleftrightarrow> it_safe it' = it_safe it \<and> 0 \<le> it_index it' \<and>
     d' = (if iter_fresh it \<and> it_safe it then d\<lparr>iterators := iterators d + 1\<rparr> else d) \<and>
     it_fingerprint it' =
       (if iter_fresh it \<and> \<not> it_safe it then dictFingerprint p0 p1 d else it_fingerprint it)"

lemma concat_drop_step: "i < length xs \<Longrightarrow> concat (drop i xs) = xs ! i @ concat (drop (Suc i) xs)"
  by (metis Cons_nth_drop_Suc concat.simps(2))

lemma iter_register_eq:
  "iter_register p0 p1 d it =
    (if iter_fresh it \<and> it_safe it then d\<lparr>iterators := iterators d + 1\<rparr> else d,
     if iter_fresh it \<and> \<not> it_safe it then it\<lparr>it_fingerprint := dictFingerprint p0 p1 d\<rparr> else it)"
  by (simp add: iter_register_def iter_fresh_def)

lemma iter_fetch_spec:
  assumes "tables_sized d" "iter_at d it" "it_entry it = []"
  shows "\<exists>d' it' stop. iter_fetch p0 p1 d it = Some (d', it', stop) \<and> registered p0 p1 d it d' it' \<and>
    it_table it' \<le> 1 \<and>
    (if stop then rest_of d it = [] \<and> it_entry it' = []
     else nat (it_index it') < length (table (dict_ht d' (it_table it'))) \<and>
          it_entry it' = table (dict_ht d' (it_table it')) ! nat (it_index it') \<and>
          rest_of d it = it_entry it' @ rest_of d' it')"
proof -
  obtain d1 it1 where reg: "iter_register p0 p1 d it = (d1, it1)" by (cases "iter_register p0 p1 d it")
  note f = iter_register_fields [OF reg]
  have r: "registered p0 p1 d it d1 it'"
    if "it_safe it' = it_safe it" "0 \<le> it_index it'" "it_fingerprint it' = it_fingerprint it1" for it'
    using reg that by (auto simp: iter_register_eq registered_def)
  let ?t = "it_table it" and ?i = "it_index it + 1"
  have i0: "0 \<le> ?i" and t1: "?t \<le> 1" using assms(2) by (simp_all add: iter_at_def)
  have sz: "ht_size (dict_ht d ?t) = length (table (dict_ht d ?t))"
    using assms(1) by (simp add: tables_sized_def dict_ht_def)
  consider (inside) "?i < int (length (table (dict_ht d ?t)))"
    | (switch) "\<not> ?i < int (length (table (dict_ht d ?t)))" "dictIsRehashing d" "?t = 0"
    | (stop) "\<not> ?i < int (length (table (dict_ht d ?t)))" "\<not> (dictIsRehashing d \<and> ?t = 0)"
    by argo
  then show ?thesis
  proof cases
    case inside
    let ?it = "it1\<lparr>it_index := ?i, it_entry := table (dict_ht d ?t) ! nat ?i\<rparr>"
    have l: "nat ?i < length (table (dict_ht d ?t))" using inside i0 by linarith
    have n: "nat (?i + 1) = Suc (nat ?i)" using i0 by simp
    have "iter_fetch p0 p1 d it = Some (d1, ?it, False)"
      using inside l sz by (simp add: iter_fetch_def reg f Let_def get_bucket_def)
    moreover have "rest_of d it = it_entry ?it @ rest_of d1 ?it"
      unfolding rest_of_def concat_drop_step [OF l] by (simp add: f n [simplified])
    ultimately show ?thesis using r [of ?it] i0 t1 l f by force
  next
    case switch
    let ?it = "it1\<lparr>it_index := 0, it_table := 1, it_entry := table (ht1 d) ! 0\<rparr>"
    have l: "0 < length (table (ht1 d))" using switch assms(1) by (simp add: tables_sized_def)
    have "iter_fetch p0 p1 d it = Some (d1, ?it, False)"
      using switch l sz by (simp add: iter_fetch_def reg f Let_def get_bucket_def)
    moreover have "rest_of d it = it_entry ?it @ rest_of d1 ?it"
      using switch concat_drop_step [OF l] by (simp add: rest_of_def f dict_ht_def)
    ultimately show ?thesis using r [of ?it] l f by (force simp: dict_ht_def)
  next
    case stop
    then have "iter_fetch p0 p1 d it = Some (d1, it1\<lparr>it_index := ?i\<rparr>, True)"
      using sz by (auto simp: iter_fetch_def reg f Let_def)
    moreover have "rest_of d it = []" using stop by (auto simp: rest_of_def)
    ultimately show ?thesis using r [of "it1\<lparr>it_index := ?i\<rparr>"] i0 t1 f assms(3) by force
  qed
qed

lemma registered_trans:
  "\<lbrakk>registered p0 p1 d it d1 it1; registered p0 p1 d1 it1 d2 it2\<rbrakk> \<Longrightarrow> registered p0 p1 d it d2 it2"
  by (auto simp: registered_def iter_fresh_def)

lemma registered_tables:
  assumes "registered p0 p1 d it d' it'"
  shows "tables_sized d' = tables_sized d" "dict_ht d' t = dict_ht d t" "dict_ok d' = dict_ok d"
    "rest_of d' it0 = rest_of d it0" "dtype d' = dtype d" "entries d' = entries d"
  using assms
  by (auto simp: registered_def tables_sized_def dict_ht_def dictIsRehashing_def dict_ok_def dict_shape_def
      entries_def rest_of_def)

text \<open>The contract of \<open>dictNext\<close>: it returns the first pending entry.\<close>

definition next_post ::
  "u64 \<Rightarrow> u64 \<Rightarrow> ('k, 'v) dict \<Rightarrow> ('k, 'v) dictIterator \<Rightarrow>
   ('k, 'v) dict \<Rightarrow> ('k, 'v) dictIterator \<Rightarrow> ('k \<times> 'v) option \<Rightarrow> bool" where
  "next_post p0 p1 d it d' it' e \<longleftrightarrow> registered p0 p1 d it d' it' \<and> iter_at d' it' \<and>
    (case e of
       None \<Rightarrow> pending d it = []
     | Some x \<Rightarrow> pending d it = x # pending d' it' \<and> it_entry it' = x # it_nextEntry it' \<and>
         (\<exists>pre. table (dict_ht d' (it_table it')) ! nat (it_index it') = pre @ x # it_nextEntry it'))"

lemma next_post_step:
  "\<lbrakk>registered p0 p1 d it d1 it1; pending d it = pending d1 it1; next_post p0 p1 d1 it1 d' it' e\<rbrakk>
   \<Longrightarrow> next_post p0 p1 d it d' it' e"
  using registered_trans [of p0 p1 d it d1 it1 d' it'] by (cases e) (auto simp: next_post_def)

lemma next_post_here:
  assumes "registered p0 p1 d it d' it'" "pending d it = x # pending d' it'"
    "it_entry it' = x # it_nextEntry it'" "it_table it' \<le> 1"
    "nat (it_index it') < length (table (dict_ht d' (it_table it')))"
    "table (dict_ht d' (it_table it')) ! nat (it_index it') = pre @ x # it_nextEntry it'"
  shows "next_post p0 p1 d it d' it' (Some x)"
proof -
  have "table (dict_ht d' (it_table it')) ! nat (it_index it') = (pre @ [x]) @ it_nextEntry it'"
    using assms(6) by simp
  then have "iter_at d' it'" using assms by (fastforce simp: iter_at_def registered_def)
  with assms show ?thesis by (auto simp: next_post_def)
qed

lemma dictNext_post:
  assumes "tables_sized d" "iter_at d it"
  shows "\<exists>d' it' e. dictNext p0 p1 d it = Some (d', it', e) \<and> next_post p0 p1 d it d' it' e"
  using assms
proof (induction p0 p1 d it rule: dictNext.induct)
  case (1 p0 p1 d it)
  show ?case
  proof (cases "it_entry it = []")
    case True
    obtain d1 it1 stop where f: "iter_fetch p0 p1 d it = Some (d1, it1, stop)" "registered p0 p1 d it d1 it1"
      "it_table it1 \<le> 1"
      "if stop then rest_of d it = [] \<and> it_entry it1 = []
       else nat (it_index it1) < length (table (dict_ht d1 (it_table it1))) \<and>
          it_entry it1 = table (dict_ht d1 (it_table it1)) ! nat (it_index it1) \<and>
          rest_of d it = it_entry it1 @ rest_of d1 it1"
      using iter_fetch_spec [OF 1(3,4) True] by blast
    have at: "iter_at d1 it1" if "it_entry it1 = []"
      using f(2,3) that by (simp add: iter_at_def registered_def)
    consider (stop) stop | (more) "\<not> stop" "it_entry it1 = []" | (here) e nxt where "\<not> stop" "it_entry it1 = e # nxt"
      by (cases "it_entry it1") auto
    then show ?thesis
    proof cases
      case stop
      have "next_post p0 p1 d it d1 it1 None"
        using f at True stop by (simp add: next_post_def pending_def)
      then show ?thesis using True f(1) stop by (subst dictNext.simps) auto
    next
      case more
      have "tables_sized d1" using registered_tables(1) [OF f(2)] 1(3) by simp
      then obtain d' it' e where "dictNext p0 p1 d1 it1 = Some (d', it', e)" "next_post p0 p1 d1 it1 d' it' e"
        using 1(1) [OF True f(1) refl refl more _ at [OF more(2)]] by blast
      moreover have "pending d it = pending d1 it1" using True f(4) more by (simp add: pending_def)
      ultimately show ?thesis
        using next_post_step [OF f(2)] True f(1) more by (subst dictNext.simps) auto
    next
      case here
      let ?it = "it1\<lparr>it_nextEntry := nxt\<rparr>"
      have "next_post p0 p1 d it d1 ?it (Some e)"
        by (rule next_post_here [of _ _ _ _ _ _ _ "[]"])
          (use f here True in \<open>auto simp: registered_def pending_def rest_of_def\<close>)
      then show ?thesis using True f(1) here by (subst dictNext.simps) auto
    qed
  next
    case False
    let ?it = "it\<lparr>it_entry := it_nextEntry it\<rparr>"
    have nf: "\<not> iter_fresh it" "0 \<le> it_index it" using 1(4) False by (auto simp: iter_at_def iter_fresh_def)
    show ?thesis
    proof (cases "it_nextEntry it")
      case Nil
      have "iter_at d ?it" using 1(4) Nil by (simp add: iter_at_def)
      then obtain d' it' e where "dictNext p0 p1 d ?it = Some (d', it', e)" "next_post p0 p1 d ?it d' it' e"
        using 1(2) [OF False refl _ 1(3)] Nil by auto
      moreover have "pending d it = pending d ?it" using False Nil by (simp add: pending_def rest_of_def)
      moreover have "registered p0 p1 d it d ?it" using nf by (simp add: registered_def)
      ultimately show ?thesis
        using next_post_step [of p0 p1 d it d ?it] False Nil by (subst dictNext.simps) auto
    next
      case (Cons e nxt)
      let ?it' = "it\<lparr>it_entry := e # nxt, it_nextEntry := nxt\<rparr>"
      obtain pre where pre: "table (dict_ht d (it_table it)) ! nat (it_index it) = pre @ e # nxt"
        using 1(4) False Cons by (auto simp: iter_at_def)
      have "next_post p0 p1 d it d ?it' (Some e)"
        by (rule next_post_here [of _ _ _ _ _ _ _ pre])
          (use nf pre False Cons 1(4) in \<open>auto simp: registered_def pending_def rest_of_def iter_at_def\<close>)
      then show ?thesis using False Cons by (subst dictNext.simps) auto
    qed
  qed
qed

section \<open>Deleting the entry just returned\<close>

lemma distinct_map_bucket:
  "\<lbrakk>distinct (map f (concat xss)); i < length xss\<rbrakk> \<Longrightarrow> distinct (map f (xss ! i))"
  by (induction xss arbitrary: i) (auto simp: nth_Cons split: nat.splits)

lemma valid_ref_unique:
  assumes ok: "dict_ok d" and r: "valid_ref d (t, i, pos)" "valid_ref d (t', i', pos')"
    and c: "cls (dtype d) (fst (deref d (t, i, pos))) = cls (dtype d) (fst (deref d (t', i', pos')))"
  shows "(t, i, pos) = (t', i', pos')"
proof -
  let ?f = "\<lambda>e. cls (dtype d) (fst e)"
  note v = valid_ref_facts [OF ok r(1)] and v' = valid_ref_facts [OF ok r(2)]
  have dis: "distinct (map ?f (concat (table (ht0 d)) @ concat (table (ht1 d))))"
    using dict_okD(5) [OF ok] by (simp only: fst_keyed entries_def)
  have mem: "deref d (a, b, p) \<in> set (concat (table (dict_ht d a)))" if "valid_ref d (a, b, p)" for a b p
    using that by (auto simp: valid_ref_def deref_def) (metis nth_mem)
  have tt: "t = t'"
  proof (rule ccontr)
    assume "t \<noteq> t'"
    with v(1) v'(1) have "t = 0 \<and> t' = 1 \<or> t = 1 \<and> t' = 0" by linarith
    moreover have "?f ` set (concat (table (ht0 d))) \<inter> ?f ` set (concat (table (ht1 d))) = {}"
      using dis by (simp only: map_append distinct_append set_map)
    then have "?f a \<noteq> ?f b" if "a \<in> set (concat (table (ht0 d)))" "b \<in> set (concat (table (ht1 d)))" for a b
      using that by blast
    ultimately show False
      using mem [OF r(1)] mem [OF r(2)] c by (metis One_nat_def dict_ht_def zero_neq_one)
  qed
  have e: "deref d (t, i, pos) \<in> set (table (dict_ht d t) ! i)" "deref d (t', i', pos') \<in> set (table (dict_ht d t) ! i')"
    using v(3) v'(3) tt by (simp_all add: deref_def)
  have h: "hashFunction (dtype d) (fst (deref d (t, i, pos))) = hashFunction (dtype d) (fst (deref d (t', i', pos')))"
    by (rule cls_hash [OF dict_okD(1) [OF ok] c])
  have ii: "i = i'" using v(4) v'(4) e h tt by metis
  have "distinct (map ?f (concat (table (dict_ht d t))))" using dis by (simp add: dict_ht_def)
  from distinct_map_bucket [OF this v(2)]
  have "map ?f (table (dict_ht d t) ! i) ! pos = map ?f (table (dict_ht d t) ! i) ! pos' \<longleftrightarrow> pos = pos'"
    using v(3) v'(3) tt ii by (intro nth_eq_iff_index_eq) simp_all
  then have "pos = pos'" using c v(3) v'(3) tt ii by (simp add: deref_def)
  with tt ii show ?thesis by simp
qed

lemma delete_current:
  assumes ok: "dict_ok d" and it: "iterators d \<noteq> 0" and t: "t \<le> 1"
    and i: "i < length (table (dict_ht d t))" and b: "table (dict_ht d t) ! i = pre @ e # nxt"
  shows "dictDelete d (fst e) = Some (put_bucket d t i (pre @ nxt) (used (dict_ht d t) - 1), True)"
proof -
  let ?r = "(t, i, length pre)"
  have r: "valid_ref d ?r" "deref d ?r = e" using t i b by (simp_all add: valid_ref_def deref_def)
  have mem: "e \<in> set (entries d)" using valid_ref_entry [OF r(1)] r(2) by simp
  then have "dictSize d \<noteq> 0" using dictSize_entries [OF ok] by auto
  then have live: "ht_live (ht0 d)" and ne: "\<not> (used (ht0 d) = 0 \<and> used (ht1 d) = 0)"
    using dictSize_live [OF ok] by (auto simp: dictSize_def)
  obtain r' idx where s: "dict_search d (fst e) (dictHashKey d (fst e)) = Some (r', idx)"
    "case r' of None \<Rightarrow> dict_map d (cls (dtype d) (fst e)) = None
     | Some r \<Rightarrow> valid_ref d r \<and> cls (dtype d) (fst (deref d r)) = cls (dtype d) (fst e)"
    using dict_search_spec [OF ok live, of "fst e"] by (auto split: option.splits)
  then obtain x where x: "r' = Some x" "valid_ref d x" "cls (dtype d) (fst (deref d x)) = cls (dtype d) (fst e)"
    using map_of_keyed_Some [OF ok mem] by (auto split: option.splits)
  then have "x = ?r" using valid_ref_unique [OF ok] r by (cases x) metis
  moreover have "rehash_if_needed d = Some d" using it by (simp add: rehash_if_needed_def dictRehashStep_def)
  ultimately show ?thesis
    using s(1) x(1) ne b by (auto simp: dictDelete_def dictGenericDelete_def put_bucket_def Let_def)
qed


lemma delete_current_iter:
  assumes ok: "dict_ok d" and n: "iterators d \<noteq> 0" and at: "iter_at d it"
    and e: "it_entry it = e # it_nextEntry it"
    and b: "table (dict_ht d (it_table it)) ! nat (it_index it) = pre @ e # it_nextEntry it"
  obtains d' where "dictDelete d (fst e) = Some (d', True)" "dict_ok d'" "iter_at d' it"
    "pending d' it = pending d it" "mset (entries d) = add_mset e (mset (entries d'))"
    "iterators d' = iterators d" "dtype d' = dtype d"
proof -
  let ?t = "it_table it" and ?i = "nat (it_index it)"
  let ?d = "put_bucket d ?t ?i (pre @ it_nextEntry it) (used (dict_ht d ?t) - 1)"
  have t: "?t \<le> 1" and i: "?i < length (table (dict_ht d ?t))" and i0: "0 \<le> it_index it"
    using at e by (simp_all add: iter_at_def)
  have del: "dictDelete d (fst e) = Some (?d, True)" by (rule delete_current [OF ok n t i b])
  have "dict_ok ?d"
    by (rule dictGenericDelete_spec [OF ok, of "fst e"])
      (use del in \<open>auto simp: dictDelete_def split: Option.bind_splits\<close>)
  moreover have "mset (entries d) = add_mset e (mset (entries ?d))"
    using put_bucket_entries [OF i, of "pre @ it_nextEntry it" "used (dict_ht d ?t) - 1"] b by simp
  moreover have tb: "table (dict_ht ?d ?t) = (table (dict_ht d ?t))[?i := pre @ it_nextEntry it]"
    by (simp add: put_bucket_def set_dict_ht_def dict_ht_def)
  have "iter_at ?d it" using at i tb by (simp add: iter_at_def)
  moreover have "?i < nat (it_index it + 1)" using i0 by simp
  then have "pending ?d it = pending d it"
    using tb by (auto simp: pending_def rest_of_def dictIsRehashing_def)
      (auto simp: put_bucket_def set_dict_ht_def)
  ultimately show ?thesis using that [OF del] by simp
qed

lemma iter_loop_safe:
  assumes "dict_ok d" "iter_at d it" "it_safe it" "iter_fresh it \<or> iterators d \<noteq> 0" "length (pending d it) < n"
  shows "\<exists>d' it'. iter_loop n del p0 p1 d it = Some (d', it', pending d it) \<and> dict_ok d' \<and>
    dtype d' = dtype d \<and> iterators d' = iterators d + of_bool (iter_fresh it) \<and>
    mset (entries d) = mset (entries d') + mset (filter del (pending d it)) \<and>
    it_safe it' \<and> 0 \<le> it_index it'"
  using assms
proof (induction n arbitrary: d it)
  case (Suc n)
  obtain d1 it1 e where nx: "dictNext p0 p1 d it = Some (d1, it1, e)" "next_post p0 p1 d it d1 it1 e"
    using dictNext_post [OF dict_ok_sized [OF Suc.prems(1)] Suc.prems(2)] by blast
  have reg: "registered p0 p1 d it d1 it1" and at: "iter_at d1 it1" using nx(2) by (simp_all add: next_post_def)
  note rt = registered_tables [OF reg]
  have ok1: "dict_ok d1" using rt(3) Suc.prems(1) by simp
  have it1: "iterators d1 = iterators d + of_bool (iter_fresh it)" "it_safe it1" "0 \<le> it_index it1"
    using reg Suc.prems(3) by (auto simp: registered_def)
  then have n0: "iterators d1 \<noteq> 0" and nf: "\<not> iter_fresh it1" using Suc.prems(4) by (auto simp: iter_fresh_def)
  show ?case
  proof (cases e)
    case None
    then show ?thesis using nx ok1 it1 rt by (simp add: next_post_def)
  next
    case (Some x)
    obtain pre where x: "pending d it = x # pending d1 it1" "it_entry it1 = x # it_nextEntry it1"
      "table (dict_ht d1 (it_table it1)) ! nat (it_index it1) = pre @ x # it_nextEntry it1"
      using nx(2) Some by (auto simp: next_post_def)
    have "\<exists>d2. (if del x then map_option fst (dictDelete d1 (fst x)) else Some d1) = Some d2 \<and> dict_ok d2 \<and>
      iter_at d2 it1 \<and> pending d2 it1 = pending d1 it1 \<and> iterators d2 = iterators d1 \<and> dtype d2 = dtype d1 \<and>
      mset (entries d1) = mset (entries d2) + (if del x then {#x#} else {#})"
      by (rule delete_current_iter [OF ok1 n0 at x(2,3)]) (use ok1 at in auto)
    then obtain d2 where d2: "(if del x then map_option fst (dictDelete d1 (fst x)) else Some d1) = Some d2"
      "dict_ok d2" "iter_at d2 it1" "pending d2 it1 = pending d1 it1" "iterators d2 = iterators d1"
      "dtype d2 = dtype d1" "mset (entries d1) = mset (entries d2) + (if del x then {#x#} else {#})"
      by blast
    have "length (pending d2 it1) < n" using Suc.prems(5) x(1) d2(4) by simp
    then obtain d3 it3 where l: "iter_loop n del p0 p1 d2 it1 = Some (d3, it3, pending d2 it1)" "dict_ok d3"
      "dtype d3 = dtype d2" "iterators d3 = iterators d2"
      "mset (entries d2) = mset (entries d3) + mset (filter del (pending d2 it1))" "it_safe it3" "0 \<le> it_index it3"
      using Suc.IH [OF d2(2,3) it1(2)] d2(5) n0 nf by auto
    have "iter_loop (Suc n) del p0 p1 d it = Some (d3, it3, pending d it)"
      using nx(1) Some d2(1) l(1) x(1) d2(4) by simp
    moreover have "mset (entries d) = mset (entries d3) + mset (filter del (pending d it))"
      using l(5) d2(4,7) x(1) rt(6) by (simp add: ac_simps)
    ultimately show ?thesis using l d2 it1 rt(5) by simp
  qed
qed simp

lemma iter_loop_read:
  assumes "dict_ok d" "iter_at d it" "length (pending d it) < n"
  shows "\<exists>d' it'. iter_loop n (\<lambda>_. False) p0 p1 d it = Some (d', it', pending d it) \<and>
    registered p0 p1 d it d' it'"
  using assms
proof (induction n arbitrary: d it)
  case (Suc n)
  obtain d1 it1 e where nx: "dictNext p0 p1 d it = Some (d1, it1, e)" "next_post p0 p1 d it d1 it1 e"
    using dictNext_post [OF dict_ok_sized [OF Suc.prems(1)] Suc.prems(2)] by blast
  have reg: "registered p0 p1 d it d1 it1" and at: "iter_at d1 it1" using nx(2) by (simp_all add: next_post_def)
  show ?case
  proof (cases e)
    case None
    then show ?thesis using nx reg by (simp add: next_post_def)
  next
    case (Some x)
    then have x: "pending d it = x # pending d1 it1" using nx(2) by (simp add: next_post_def)
    have "dict_ok d1" using registered_tables(3) [OF reg] Suc.prems(1) by simp
    then obtain d3 it3 where "iter_loop n (\<lambda>_. False) p0 p1 d1 it1 = Some (d3, it3, pending d1 it1)"
      "registered p0 p1 d1 it1 d3 it3"
      using Suc.IH [OF _ at] Suc.prems(3) x by auto
    with nx(1) Some x registered_trans [OF reg] show ?thesis by auto
  qed
qed simp

lemma pending_fresh:
  "dict_ok d \<Longrightarrow> iter_fresh it \<Longrightarrow> it_entry it = [] \<Longrightarrow> pending d it = entries d"
  by (auto simp: pending_def rest_of_def iter_fresh_def entries_def dict_ht_def dict_ok_def dict_shape_def ht_null_def)

lemma fresh_iterators [simp]:
  "iter_fresh dictGetIterator" "iter_fresh dictGetSafeIterator" "iter_at d dictGetIterator"
  "iter_at d dictGetSafeIterator" "it_safe dictGetSafeIterator" "\<not> it_safe dictGetIterator"
  "it_entry dictGetIterator = []" "it_entry dictGetSafeIterator = []"
  by (simp_all add: iter_fresh_def iter_at_def dictGetIterator_def dictGetSafeIterator_def)

lemma iterators_irrelevant [simp]:
  "dict_ok (d\<lparr>iterators := m\<rparr>) = dict_ok d" "entries (d\<lparr>iterators := m\<rparr>) = entries d"
  by (simp_all add: dict_ok_def dict_shape_def dictIsRehashing_def entries_def)

section \<open>Properties\<close>



text \<open>C21: A loop with a plain iterator that does not touch the dictionary visits every entry exactly
  once, leaves the dictionary as it is, and the fingerprint assertion of
  \<open>dictReleaseIterator\<close> holds.\<close>

theorem unsafe_iteration_read_only:
  assumes "dict_ok d" "dictSize d < n"
  shows "iter_dict n (\<lambda>_. False) p0 p1 d dictGetIterator = Some (d, entries d)"
proof -
  let ?it = "dictGetIterator"
  have p: "pending d ?it = entries d" using assms(1) by (simp add: pending_fresh)
  have "length (pending d ?it) < n" using assms dictSize_entries [OF assms(1)] p by simp
  then obtain d' it' where l: "iter_loop n (\<lambda>_. False) p0 p1 d ?it = Some (d', it', entries d)"
    "registered p0 p1 d ?it d' it'"
    using iter_loop_read [OF assms(1), of ?it n p0 p1] p by auto
  then show ?thesis by (auto simp: iter_dict_def dictReleaseIterator_def registered_def)
qed

theorem unsafe_iteration_read_only_witness:
  "iter_dict 5 (\<lambda>_. False) 7 9 ex_dict dictGetIterator =
    Some (ex_dict, [(5, 50), (1, 10), (3, 30), (8, 80)])"
  using unsafe_iteration_read_only [of ex_dict 5 7 9] by (simp add: dictSize_entries)

end
