(* ===== verification/Rev_Cursor.thy ===== *)
theory Rev_Cursor
  imports Prelude
begin

text \<open>
  The bit reversal of \<open>dict.c\<close> and the order of the reversed cursors, on which the cursor iteration
  of the dictionary rests.
\<close>

unbundle bit_operations_syntax

section \<open>Model\<close>

text \<open>\<open>rev\<close>: reverse the bits of a word, by swapping halves, quarters and so on.\<close>

function rev_loop :: "nat \<Rightarrow> u64 \<Rightarrow> u64 \<Rightarrow> u64" where
  "rev_loop s msk v =
    (let s = s div 2
     in if s > 0 then
          (let msk = msk XOR push_bit s msk
           in rev_loop s msk ((drop_bit s v AND msk) OR (push_bit s v AND NOT msk)))
        else v)"
  by pat_completeness auto
termination
  by (relation "measure (\<lambda>(s, msk, v). s)") auto

declare rev_loop.simps [simp del]

definition rev64 :: "u64 \<Rightarrow> u64" where
  "rev64 v = rev_loop 64 (- 1) v"

text \<open>The lines \<open>v |= ~m; v = rev(v); v++; v = rev(v);\<close>\<close>

definition rev_incr :: "u64 \<Rightarrow> u64 \<Rightarrow> u64" where
  "rev_incr m v = rev64 (rev64 (v OR NOT m) + 1)"

section \<open>Bit reversal\<close>

definition rev_swap :: "nat \<Rightarrow> u64 \<Rightarrow> u64 \<Rightarrow> u64" where
  "rev_swap s msk v = (drop_bit s v AND msk) OR (push_bit s v AND NOT msk)"

definition flip_idx :: "nat \<Rightarrow> nat \<Rightarrow> nat" where
  "flip_idx p i = (if bit i p then i - 2 ^ p else i + 2 ^ p)"

lemma rev_loop_step:
  assumes "s div 2 > 0" "msk XOR push_bit (s div 2) msk = msk'"
  shows "rev_loop s msk v = rev_loop (s div 2) msk' (rev_swap (s div 2) msk' v)"
  using assms by (subst rev_loop.simps) (simp add: Let_def rev_swap_def)

lemma rev_swaps:
  "rev64 v = rev_swap 1 0x5555555555555555 (rev_swap 2 0x3333333333333333 (rev_swap 4 0x0F0F0F0F0F0F0F0F
     (rev_swap 8 0x00FF00FF00FF00FF (rev_swap 16 0x0000FFFF0000FFFF (rev_swap 32 0x00000000FFFFFFFF v)))))"
proof -
  have m: "(- 1 :: u64) XOR push_bit 32 (- 1) = 0x00000000FFFFFFFF"
    "(0x00000000FFFFFFFF :: u64) XOR push_bit 16 0x00000000FFFFFFFF = 0x0000FFFF0000FFFF"
    "(0x0000FFFF0000FFFF :: u64) XOR push_bit 8 0x0000FFFF0000FFFF = 0x00FF00FF00FF00FF"
    "(0x00FF00FF00FF00FF :: u64) XOR push_bit 4 0x00FF00FF00FF00FF = 0x0F0F0F0F0F0F0F0F"
    "(0x0F0F0F0F0F0F0F0F :: u64) XOR push_bit 2 0x0F0F0F0F0F0F0F0F = 0x3333333333333333"
    "(0x3333333333333333 :: u64) XOR push_bit 1 0x3333333333333333 = 0x5555555555555555"
    by code_simp+
  have "rev_loop 1 msk w = w" for msk w by (subst rev_loop.simps) simp
  then show ?thesis
    using m by (simp add: rev64_def rev_loop_step [where s = 64] rev_loop_step [where s = 32]
      rev_loop_step [where s = 16] rev_loop_step [where s = 8] rev_loop_step [where s = 4] rev_loop_step [where s = 2])
qed

lemma rev_swap_bit:
  assumes "\<forall>j < 64. bit msk j \<longleftrightarrow> \<not> bit j p" "i < 64" "flip_idx p i < 64"
  shows "bit (rev_swap (2 ^ p) msk v) i \<longleftrightarrow> bit v (flip_idx p i)"
proof -
  have "bit i p \<Longrightarrow> 2 ^ p \<le> i" by (metis bit_iff_odd div_less even_zero not_le)
  then show ?thesis
    using assms by (auto simp: bit_simps rev_swap_def flip_idx_def ac_simps)
qed

lemma all_less_upt: "list_all P [0..<n] \<longleftrightarrow> (\<forall>j < n. P j)"
  by (auto simp: list_all_iff)

lemma rev_masks:
  "\<forall>j < 64. bit (0x00000000FFFFFFFF :: u64) j \<longleftrightarrow> \<not> bit j 5"
  "\<forall>j < 64. bit (0x0000FFFF0000FFFF :: u64) j \<longleftrightarrow> \<not> bit j 4"
  "\<forall>j < 64. bit (0x00FF00FF00FF00FF :: u64) j \<longleftrightarrow> \<not> bit j 3"
  "\<forall>j < 64. bit (0x0F0F0F0F0F0F0F0F :: u64) j \<longleftrightarrow> \<not> bit j 2"
  "\<forall>j < 64. bit (0x3333333333333333 :: u64) j \<longleftrightarrow> \<not> bit j 1"
  "\<forall>j < 64. bit (0x5555555555555555 :: u64) j \<longleftrightarrow> \<not> bit j 0"
  unfolding all_less_upt [symmetric] by code_simp+

lemma flip_idx_all:
  "\<forall>i < 64. flip_idx 0 i < 64 \<and> flip_idx 1 (flip_idx 0 i) < 64 \<and> flip_idx 2 (flip_idx 1 (flip_idx 0 i)) < 64 \<and>
     flip_idx 3 (flip_idx 2 (flip_idx 1 (flip_idx 0 i))) < 64 \<and>
     flip_idx 4 (flip_idx 3 (flip_idx 2 (flip_idx 1 (flip_idx 0 i)))) < 64 \<and>
     flip_idx 5 (flip_idx 4 (flip_idx 3 (flip_idx 2 (flip_idx 1 (flip_idx 0 i))))) = 63 - i"
  unfolding all_less_upt [symmetric] by code_simp

lemma rev_bit: "i < 64 \<Longrightarrow> bit (rev64 v) i \<longleftrightarrow> bit v (63 - i)"
  using flip_idx_all [rule_format, of i]
    rev_swap_bit [OF rev_masks(6), of i] rev_swap_bit [OF rev_masks(5), of "flip_idx 0 i"]
    rev_swap_bit [OF rev_masks(4), of "flip_idx 1 (flip_idx 0 i)"]
    rev_swap_bit [OF rev_masks(3), of "flip_idx 2 (flip_idx 1 (flip_idx 0 i))"]
    rev_swap_bit [OF rev_masks(2), of "flip_idx 3 (flip_idx 2 (flip_idx 1 (flip_idx 0 i)))"]
    rev_swap_bit [OF rev_masks(1), of "flip_idx 4 (flip_idx 3 (flip_idx 2 (flip_idx 1 (flip_idx 0 i))))"]
  by (simp add: rev_swaps)

lemma rev_bit_iff: "bit (rev64 v) i \<longleftrightarrow> i < 64 \<and> bit v (63 - i)"
  using rev_bit [of i v] bit_imp_le_length [of "rev64 v" i] by auto

lemma rev_rev: "rev64 (rev64 v) = v"
proof (rule bit_word_eqI)
  fix n
  assume "n < LENGTH(64)"
  then show "bit (rev64 (rev64 v)) n = bit v n" by (simp add: rev_bit)
qed

section \<open>The reversed cursor\<close>

text \<open>
  In the order of the reversed cursors a bucket of a table of size \<open>2 ^ k\<close> is an interval of
  length \<open>2 ^ (64 - k)\<close>.
\<close>

definition rpos :: "u64 \<Rightarrow> nat" where
  "rpos v = unat (rev64 v)"

lemma rpos_less: "rpos v < 2 ^ 64"
  using unsigned_less [of "rev64 v", where 'a = nat] by (simp add: rpos_def)

lemma rpos_0: "rpos v = 0 \<longleftrightarrow> v = 0"
proof -
  have "rev64 0 = 0" by (rule bit_word_eqI) (simp add: rev_bit)
  then show ?thesis using rev_rev [of v] by (auto simp: rpos_def unsigned_eq_0_iff)
qed

lemma rpos_block:
  assumes "k \<le> 64"
  shows "v AND mask k = w AND mask k \<longleftrightarrow> rpos v div 2 ^ (64 - k) = rpos w div 2 ^ (64 - k)"
proof -
  have bits: "drop_bit (64 - k) (rev64 x) = drop_bit (64 - k) (rev64 y)"
    if "\<And>i. i < k \<Longrightarrow> bit x i = bit y i" for x y :: u64
    using that assms by (intro bit_word_eqI) (auto simp: bit_simps rev_bit_iff)
  have stib: "bit x i = bit y i" if d: "drop_bit (64 - k) (rev64 x) = drop_bit (64 - k) (rev64 y)" and i: "i < k"
    for x y :: u64 and i
  proof -
    have "bit (drop_bit (64 - k) (rev64 x)) (k - 1 - i) = bit (drop_bit (64 - k) (rev64 y)) (k - 1 - i)"
      by (simp only: d)
    moreover have "63 - i < 64" by simp
    ultimately show ?thesis using i assms by (simp add: bit_simps rev_bit_iff)
  qed
  have "rpos v div 2 ^ (64 - k) = rpos w div 2 ^ (64 - k) \<longleftrightarrow>
      drop_bit (64 - k) (rev64 v) = drop_bit (64 - k) (rev64 w)"
    unfolding rpos_def drop_bit_eq_div [symmetric] unat_drop_bit_eq [symmetric]
    by (auto intro: unsigned_word_eqI)
  moreover have "v AND mask k = w AND mask k \<longleftrightarrow> (\<forall>i < k. bit v i = bit w i)"
    using assms by (auto simp: bit_eq_iff bit_simps) (metis order_less_le_trans)+
  ultimately show ?thesis using bits stib by blast
qed

lemma unat_or_mask:
  fixes x :: u64
  assumes "j \<le> 64"
  shows "unat (x OR mask j) = unat x div 2 ^ j * 2 ^ j + (2 ^ j - 1)"
proof -
  have "x OR mask j = push_bit j (drop_bit j x) OR mask j"
    by (intro bit_word_eqI) (auto simp: bit_simps)
  moreover have "push_bit j (drop_bit j x) AND mask j = 0"
    by (intro bit_word_eqI) (auto simp: bit_simps)
  moreover have "unat (mask j :: u64) = mask j"
    using assms by (auto simp: bit_eq_iff bit_simps)
  ultimately have "unat (x OR mask j) = unat (push_bit j (drop_bit j x)) OR mask j"
    by (simp only: unsigned_or_eq)
  also have "unat (push_bit j (drop_bit j x)) = push_bit j (drop_bit j (unat x))"
    by (simp add: bit_eq_iff bit_simps) (use bit_imp_le_length in force)
  also have "push_bit j (drop_bit j (unat x)) OR mask j = push_bit j (drop_bit j (unat x)) + mask j"
    by (rule disjunctive_add_eq_or [symmetric]) (auto simp: bit_eq_iff bit_simps)
  finally show ?thesis by (simp add: push_bit_eq_mult drop_bit_eq_div mask_eq_exp_minus_1)
qed

text \<open>The increment moves the cursor to the start of the next interval.\<close>

lemma rpos_incr:
  assumes "k \<le> 64"
  shows "rpos (rev_incr (mask k) v) = (rpos v div 2 ^ (64 - k) + 1) * 2 ^ (64 - k) mod 2 ^ 64"
proof -
  have "rev64 (v OR NOT (mask k)) = rev64 v OR mask (64 - k)"
    using assms by (intro bit_word_eqI) (auto simp: bit_simps rev_bit_iff)
  then have "rpos (rev_incr (mask k) v) = (unat (rev64 v OR mask (64 - k)) + 1) mod 2 ^ 64"
    by (simp add: rpos_def rev_incr_def rev_rev unat_word_ariths)
  also have "unat (rev64 v OR mask (64 - k)) + 1 = rpos v div 2 ^ (64 - k) * 2 ^ (64 - k) + 2 ^ (64 - k)"
    by (simp add: unat_or_mask rpos_def)
  finally show ?thesis by (simp add: ac_simps)
qed

lemma rpos_mask_diff:
  assumes "k0 \<le> k1" "k1 \<le> 64"
  shows "v AND (mask k0 XOR mask k1) = 0 \<longleftrightarrow> rpos v div 2 ^ (64 - k1) mod 2 ^ (k1 - k0) = 0"
proof -
  have "rpos v div 2 ^ (64 - k1) mod 2 ^ (k1 - k0) = unat (take_bit (k1 - k0) (drop_bit (64 - k1) (rev64 v)))"
    by (simp only: rpos_def unat_drop_bit_eq unsigned_take_bit_eq take_bit_eq_mod [symmetric] drop_bit_eq_div [symmetric])
  then have "rpos v div 2 ^ (64 - k1) mod 2 ^ (k1 - k0) = 0 \<longleftrightarrow>
      take_bit (k1 - k0) (drop_bit (64 - k1) (rev64 v)) = 0" by (simp add: unsigned_eq_0_iff)
  also have "\<dots> \<longleftrightarrow> (\<forall>n < k1 - k0. \<not> bit v (k1 - 1 - n))"
    using assms by (auto simp: bit_eq_iff bit_simps rev_bit_iff)
  also have "\<dots> \<longleftrightarrow> (\<forall>n. k0 \<le> n \<and> n < k1 \<longrightarrow> \<not> bit v n)"
  proof (intro iffI allI impI)
    fix n assume a: "\<forall>n < k1 - k0. \<not> bit v (k1 - 1 - n)" and n: "k0 \<le> n \<and> n < k1"
    then have "k1 - 1 - n < k1 - k0" "k1 - 1 - (k1 - 1 - n) = n" by auto
    with a show "\<not> bit v n" by metis
  qed auto
  also have "\<dots> \<longleftrightarrow> v AND (mask k0 XOR mask k1) = 0"
    using assms by (auto simp: bit_eq_iff bit_simps) (metis not_le less_le_trans)+
  finally show ?thesis by simp
qed

end
