(* ===== verification/Dict_Scan.thy ===== *)
theory Dict_Scan
  imports Dict Rev_Cursor
begin

text \<open>
  The cursor iteration of \<open>dict.c\<close>: \<open>dictScan\<close> visits a few buckets per call and returns a cursor
  for the next call, and between two calls the table may grow, shrink or be rehashed.  The
  callback \<open>fn\<close> of the code only collects, so the model returns the entries handed to it, in order;
  \<open>bucketfn\<close> (used for memory defragmentation only) is \<open>NULL\<close>.
\<close>

unbundle bit_operations_syntax

section \<open>Model\<close>

text \<open>The \<open>do\<close>-\<open>while\<close> loop over the larger table; the first argument bounds its rounds.\<close>

fun scan_loop ::
  "nat \<Rightarrow> ('k, 'v) dictht \<Rightarrow> u64 \<Rightarrow> u64 \<Rightarrow> (u64 \<times> ('k \<times> 'v) list) option" where
  "scan_loop 0 t1 m0 v = None"
| "scan_loop (Suc n) t1 m0 v =
    do {
      de \<leftarrow> get_bucket t1 (unat (v AND sizemask t1));
      let v = rev_incr (sizemask t1) v;
      if v AND (m0 XOR sizemask t1) \<noteq> 0 then
        do { (v', emitted) \<leftarrow> scan_loop n t1 m0 v; Some (v', de @ emitted) }
      else Some (v, de)
    }"

definition dictScan :: "('k, 'v) dict \<Rightarrow> u64 \<Rightarrow> (u64 \<times> ('k \<times> 'v) list) option" where
  "dictScan d v =
    (if dictSize d = 0 then Some (0, [])
     else if \<not> dictIsRehashing d then
       do {
         de \<leftarrow> get_bucket (ht0 d) (unat (v AND sizemask (ht0 d)));
         Some (rev_incr (sizemask (ht0 d)) v, de)
       }
     else
       do {
         let (t0, t1) = (if ht_size (ht0 d) > ht_size (ht1 d) then (ht1 d, ht0 d) else (ht0 d, ht1 d));
         de \<leftarrow> get_bucket t0 (unat (v AND sizemask t0));
         (v', emitted) \<leftarrow> scan_loop (ht_size t1) t1 (sizemask t0) v;
         Some (v', de @ emitted)
       })"

section \<open>What one call visits\<close>

lemma bucket_block:
  assumes "ht_fill ty h" "sizemask h = mask k" "k \<le> 64" "e \<in> set (concat (table h))"
    "rpos (hashFunction ty (fst e)) div 2 ^ (64 - k) = rpos v div 2 ^ (64 - k)"
  shows "e \<in> set (table h ! unat (v AND mask k))"
proof -
  have "hashFunction ty (fst e) AND mask k = v AND mask k" using rpos_block [OF assms(3)] assms(5) by blast
  moreover obtain i where i: "i < length (table h)" "e \<in> set (table h ! i)"
    using assms(4) by (auto simp: in_set_conv_nth [of _ "table h"])
  moreover have "unat (hashFunction ty (fst e) AND sizemask h) = i"
    using assms(1) i by (simp add: ht_fill_def)
  ultimately show ?thesis using assms(2) by simp
qed

lemma get_bucket_live:
  "ht_live h \<Longrightarrow> get_bucket h (unat (v AND sizemask h)) = Some (table h ! unat (v AND sizemask h))"
  using ht_live_idx [of h v] by (simp add: get_bucket_def)

lemma bucket_subset: "ht_live h \<Longrightarrow> set (table h ! unat (v AND sizemask h)) \<subseteq> set (concat (table h))"
  using nth_mem [OF ht_live_idx [of h v]] by fastforce

lemma rpos_incr_block:
  assumes "k \<le> 64"
  shows "rpos (rev_incr (mask k) v) div 2 ^ (64 - k) = (rpos v div 2 ^ (64 - k) + 1) mod 2 ^ k"
proof -
  have e: "(2::nat) ^ 64 = 2 ^ k * 2 ^ (64 - k)" using assms by (simp flip: power_add)
  show ?thesis
    unfolding rpos_incr [OF assms] e mult_mod_left [symmetric] by simp
qed

lemma scan_loop_spec:
  fixes v :: u64
  assumes live: "ht_live t1" and fill: "ht_fill ty t1" and mk: "sizemask t1 = mask k1"
    and k: "k0 \<le> k1" "k1 \<le> 64"
  defines "B \<equiv> 2 ^ (64 - k1)" and "D \<equiv> 2 ^ (k1 - k0)"
  shows "D - rpos v div B mod D \<le> n \<Longrightarrow> \<exists>v' es. scan_loop n t1 (mask k0) v = Some (v', es) \<and>
      rpos v' = (rpos v div B + (D - rpos v div B mod D)) * B mod 2 ^ 64 \<and> set es \<subseteq> set (concat (table t1)) \<and>
      (\<forall>e \<in> set (concat (table t1)). rpos v div B \<le> rpos (hashFunction ty (fst e)) div B \<and>
         rpos (hashFunction ty (fst e)) div B < rpos v div B + (D - rpos v div B mod D) \<longrightarrow> e \<in> set es)"
proof (induction n arbitrary: v)
  case 0
  moreover have "rpos v div B mod D < D" by (simp add: D_def)
  ultimately show ?case by linarith
next
  case (Suc n)
  let ?q = "rpos v div B" and ?v = "rev_incr (mask k1) v" and ?b = "table t1 ! unat (v AND mask k1)"
  have D: "0 < D" "D dvd 2 ^ k1" using k by (simp_all add: D_def le_imp_power_dvd)
  have q1: "rpos ?v div B = (?q + 1) mod 2 ^ k1" unfolding B_def by (rule rpos_incr_block [OF k(2)])
  have qm: "rpos ?v div B mod D = (?q + 1) mod D" unfolding q1 using D(2) by (rule mod_mod_cancel)
  have stop: "?v AND (mask k0 XOR mask k1) = 0 \<longleftrightarrow> (?q + 1) mod D = 0"
    using rpos_mask_diff [OF k, of ?v] qm by (simp add: B_def D_def)
  have ql: "?q < 2 ^ k1"
    using rpos_less [of v] k by (simp add: B_def less_mult_imp_div_less flip: power_add)
  have get: "get_bucket t1 (unat (v AND sizemask t1)) = Some ?b" and sub: "set ?b \<subseteq> set (concat (table t1))"
    using get_bucket_live [OF live, of v] bucket_subset [OF live, of v] mk by simp_all
  have here: "e \<in> set ?b" if "e \<in> set (concat (table t1))" "rpos (hashFunction ty (fst e)) div B = ?q" for e
    using bucket_block [OF fill mk k(2)] that by (simp add: B_def)
  show ?case
  proof (cases "(?q + 1) mod D = 0")
    case True
    then have c: "D - ?q mod D = 1" using D(1) mod_Suc [of ?q D] by (auto split: if_splits)
    have "scan_loop (Suc n) t1 (mask k0) v = Some (?v, ?b)"
      using get mk stop True by (simp add: Let_def)
    moreover have "rpos ?v = (?q + 1) * B mod 2 ^ 64" unfolding B_def by (rule rpos_incr [OF k(2)])
    moreover have "rpos (hashFunction ty (fst e)) div B = ?q"
      if "?q \<le> rpos (hashFunction ty (fst e)) div B" "rpos (hashFunction ty (fst e)) div B < ?q + 1" for e :: "'a \<times> 'b"
      using that by linarith
    ultimately show ?thesis unfolding c using sub here by blast
  next
    case False
    then have m: "(?q + 1) mod D = ?q mod D + 1" using mod_Suc [of ?q D] by (auto split: if_splits)
    have "?q + 1 \<noteq> 2 ^ k1" using False D(2) by (metis mod_0_imp_dvd dvd_imp_mod_0)
    then have q2: "rpos ?v div B = ?q + 1" using q1 ql by simp
    have "?q mod D < D" using D(1) by simp
    then have c: "Suc (D - (?q + 1) mod D) = D - ?q mod D"
      using m False mod_less_divisor [OF D(1), of "?q + 1"] by linarith
    then obtain v' es where l: "scan_loop n t1 (mask k0) ?v = Some (v', es)"
      "rpos v' = (?q + 1 + (D - (?q + 1) mod D)) * B mod 2 ^ 64" "set es \<subseteq> set (concat (table t1))"
      "\<forall>e \<in> set (concat (table t1)). ?q + 1 \<le> rpos (hashFunction ty (fst e)) div B \<and>
         rpos (hashFunction ty (fst e)) div B < ?q + 1 + (D - (?q + 1) mod D) \<longrightarrow> e \<in> set es"
      using Suc.IH [of ?v] Suc.prems unfolding q2 by auto
    have c': "?q + 1 + (D - (?q + 1) mod D) = ?q + (D - ?q mod D)" using c by linarith
    have "scan_loop (Suc n) t1 (mask k0) v = Some (v', ?b @ es)"
      using get mk stop False l(1) by (simp add: Let_def)
    moreover have "e \<in> set (?b @ es)"
      if "e \<in> set (concat (table t1))" "?q \<le> rpos (hashFunction ty (fst e)) div B"
        "rpos (hashFunction ty (fst e)) div B < ?q + (D - ?q mod D)" for e
      using l(4) [unfolded c'] here [OF that(1)] that by (cases "rpos (hashFunction ty (fst e)) div B = ?q") auto
    ultimately show ?thesis using l(2,3) [unfolded c'] sub by auto
  qed
qed

text \<open>The size of the table whose buckets a call steps through: the smaller one.\<close>

definition scan_size :: "('k, 'v) dict \<Rightarrow> nat" where
  "scan_size d = (if dictIsRehashing d then min (ht_size (ht0 d)) (ht_size (ht1 d)) else ht_size (ht0 d))"

definition next_rpos :: "nat \<Rightarrow> u64 \<Rightarrow> nat" where
  "next_rpos k v = (rpos v div 2 ^ (64 - k) + 1) * 2 ^ (64 - k)"

lemma block_of_interval:
  "\<lbrakk>rpos v \<le> r; r < next_rpos k v\<rbrakk> \<Longrightarrow> r div 2 ^ (64 - k) = rpos v div 2 ^ (64 - k)"
  using div_le_mono [of "rpos v" r "2 ^ (64 - k)"] less_mult_imp_div_less [of r _ "2 ^ (64 - k)"]
  unfolding next_rpos_def by fastforce

lemma next_rpos_greater: "rpos v < next_rpos k v"
  by (simp add: next_rpos_def dividend_less_div_times)

lemma next_rpos_le: "k \<le> 64 \<Longrightarrow> next_rpos k v \<le> 2 ^ 64"
proof -
  assume k: "k \<le> 64"
  then have e: "(2::nat) ^ 64 = 2 ^ k * 2 ^ (64 - k)" by (simp flip: power_add)
  have "rpos v div 2 ^ (64 - k) < 2 ^ k" using rpos_less [of v] unfolding e by (rule less_mult_imp_div_less)
  then have "(rpos v div 2 ^ (64 - k) + 1) * 2 ^ (64 - k) \<le> 2 ^ k * 2 ^ (64 - k)"
    by (intro mult_le_mono1) simp
  then show ?thesis by (simp only: next_rpos_def e)
qed

lemma next_multiple: "0 < D \<Longrightarrow> q + (D - q mod D) = (q div D + 1) * (D :: nat)"
  using mod_less_divisor [of D q] div_mult_mod_eq [of q D] unfolding distrib_right mult_1 by linarith

text \<open>A call with the smaller table \<open>t0\<close> and the larger table \<open>t1\<close>.\<close>

lemma scan_two_tables:
  assumes live: "ht_live t0" "ht_live t1" and fill: "ht_fill ty t0" "ht_fill ty t1"
    and k: "sizemask t0 = mask k0" "sizemask t1 = mask k1" "ht_size t1 = 2 ^ k1" "k0 \<le> k1" "k1 \<le> 64"
  shows "\<exists>v' es. scan_loop (ht_size t1) t1 (sizemask t0) v = Some (v', es) \<and>
    rpos v' = next_rpos k0 v mod 2 ^ 64 \<and> set es \<subseteq> set (concat (table t1)) \<and>
    (\<forall>e \<in> set (concat (table t0)) \<union> set (concat (table t1)).
       rpos v \<le> rpos (hashFunction ty (fst e)) \<and> rpos (hashFunction ty (fst e)) < next_rpos k0 v \<longrightarrow>
       e \<in> set (table t0 ! unat (v AND sizemask t0)) \<union> set es)"
proof -
  let ?B = "2 ^ (64 - k1) :: nat" and ?D = "2 ^ (k1 - k0) :: nat" and ?q = "rpos v div 2 ^ (64 - k1)"
  have BD: "?D * ?B = 2 ^ (64 - k0)" using k(4,5) by (simp flip: power_add)
  have "?q + (?D - ?q mod ?D) = (?q div ?D + 1) * ?D"
    by (rule next_multiple) simp
  moreover have "?q div ?D = rpos v div 2 ^ (64 - k0)"
    using BD by (simp add: div_mult2_eq [symmetric] mult.commute)
  ultimately have nx: "(?q + (?D - ?q mod ?D)) * ?B = next_rpos k0 v"
    by (simp only: next_rpos_def mult.assoc BD)
  have "?D \<le> ht_size t1" using k(3) by simp
  then have "?D - ?q mod ?D \<le> ht_size t1" by linarith
  from scan_loop_spec [OF live(2) fill(2) k(2,4,5) this]
  obtain v' es where l: "scan_loop (ht_size t1) t1 (mask k0) v = Some (v', es)"
    "rpos v' = next_rpos k0 v mod 2 ^ 64" "set es \<subseteq> set (concat (table t1))"
    "\<forall>e \<in> set (concat (table t1)). ?q \<le> rpos (hashFunction ty (fst e)) div ?B \<and>
         rpos (hashFunction ty (fst e)) div ?B < ?q + (?D - ?q mod ?D) \<longrightarrow> e \<in> set es"
    unfolding nx by blast
  have "e \<in> set es" if "e \<in> set (concat (table t1))" "rpos v \<le> rpos (hashFunction ty (fst e))"
    "rpos (hashFunction ty (fst e)) < next_rpos k0 v" for e
    using l(4) that div_le_mono [OF that(2), of ?B] that(3) [folded nx] less_mult_imp_div_less by blast
  moreover have "e \<in> set (table t0 ! unat (v AND sizemask t0))"
    if "e \<in> set (concat (table t0))" "rpos v \<le> rpos (hashFunction ty (fst e))"
    "rpos (hashFunction ty (fst e)) < next_rpos k0 v" for e
    using bucket_block [OF fill(1) k(1) _ that(1) block_of_interval [OF that(2,3)]] k by simp
  ultimately show ?thesis using l(1) [folded k(1)] l(2,3) by blast
qed

lemma live_size:
  assumes "ht_live h"
  obtains k where "2 \<le> k" "k \<le> 63" "sizemask h = mask k" "ht_size h = 2 ^ k"
  using assms by (auto simp: ht_live_def)

lemma dictScan_step:
  assumes ok: "dict_ok d" and ne: "dictSize d \<noteq> 0"
  shows "\<exists>v' es k. dictScan d v = Some (v', es) \<and> set es \<subseteq> set (entries d) \<and> k \<le> 63 \<and> scan_size d = 2 ^ k \<and>
    rpos v' = next_rpos k v mod 2 ^ 64 \<and>
    (\<forall>e \<in> set (entries d). rpos v \<le> rpos (hashFunction (dtype d) (fst e)) \<and>
       rpos (hashFunction (dtype d) (fst e)) < next_rpos k v \<longrightarrow> e \<in> set es)"
proof (cases "dictIsRehashing d")
  case False
  let ?b = "table (ht0 d) ! unat (v AND sizemask (ht0 d))"
  have live: "ht_live (ht0 d)" using dictSize_live [OF ok ne] .
  obtain k where k: "k \<le> 63" "sizemask (ht0 d) = mask k" "ht_size (ht0 d) = 2 ^ k" by (rule live_size [OF live])
  have en: "entries d = concat (table (ht0 d))"
    using ok False by (simp add: dict_ok_def dict_shape_def ht_null_def entries_def)
  have "dictScan d v = Some (rev_incr (mask k) v, ?b)"
    using ne False get_bucket_live [OF live, of v] k(2) by (simp add: dictScan_def)
  moreover have "rpos (rev_incr (mask k) v) = next_rpos k v mod 2 ^ 64"
    using rpos_incr [of k v] k(1) by (simp add: next_rpos_def)
  moreover have "e \<in> set ?b"
    if "e \<in> set (entries d)" "rpos v \<le> rpos (hashFunction (dtype d) (fst e))"
      "rpos (hashFunction (dtype d) (fst e)) < next_rpos k v" for e
    using bucket_block [OF dict_okD(3) [OF ok] k(2) _ that(1) [unfolded en] block_of_interval [OF that(2,3)]] k by simp
  moreover have "set ?b \<subseteq> set (entries d)" unfolding en by (rule bucket_subset [OF live])
  ultimately show ?thesis using k False unfolding scan_size_def by metis
next
  case True
  have live: "ht_live (ht0 d)" "ht_live (ht1 d)" using ok True by (simp_all add: dict_ok_def dict_shape_def)
  obtain t0 t1 where t: "(if ht_size (ht0 d) > ht_size (ht1 d) then (ht1 d, ht0 d) else (ht0 d, ht1 d)) = (t0, t1)"
    by (cases "ht_size (ht0 d) > ht_size (ht1 d)") auto
  then have lt: "ht_live t0" "ht_live t1" "ht_fill (dtype d) t0" "ht_fill (dtype d) t1" "ht_size t0 \<le> ht_size t1"
    and en: "set (entries d) = set (concat (table t0)) \<union> set (concat (table t1))"
    and sz: "scan_size d = ht_size t0"
    using live dict_okD(3,4) [OF ok] True
    by (auto simp: entries_def scan_size_def simp del: set_concat split: if_splits)
  obtain k0 where k0: "k0 \<le> 63" "sizemask t0 = mask k0" "ht_size t0 = 2 ^ k0" by (rule live_size [OF lt(1)])
  obtain k1 where k1: "k1 \<le> 63" "sizemask t1 = mask k1" "ht_size t1 = 2 ^ k1" by (rule live_size [OF lt(2)])
  have le: "k0 \<le> k1" "k1 \<le> 64" using lt(5) k0 k1 by simp_all
  let ?b = "table t0 ! unat (v AND sizemask t0)"
  obtain v' es where l: "scan_loop (ht_size t1) t1 (sizemask t0) v = Some (v', es)"
    "rpos v' = next_rpos k0 v mod 2 ^ 64" "set es \<subseteq> set (concat (table t1))"
    "\<forall>e \<in> set (entries d). rpos v \<le> rpos (hashFunction (dtype d) (fst e)) \<and>
       rpos (hashFunction (dtype d) (fst e)) < next_rpos k0 v \<longrightarrow> e \<in> set (?b @ es)"
    using scan_two_tables [OF lt(1-4) k0(2) k1(2,3) le, of v] unfolding en by auto
  have "dictScan d v = Some (v', ?b @ es)"
    using ne True t l(1) get_bucket_live [OF lt(1), of v] by (simp add: dictScan_def)
  moreover have "set (?b @ es) \<subseteq> set (entries d)" using bucket_subset [OF lt(1)] l(3) unfolding en by auto
  ultimately show ?thesis using l(2,4) k0 sz by metis
qed

section \<open>A whole iteration\<close>

text \<open>
  The loop of a client of \<open>SCAN\<close>: the list holds the states of the dictionary at the successive
  calls, whatever happened to it in between; the loop ends when the cursor is 0 again.
\<close>

fun scan_run :: "('k, 'v) dict list \<Rightarrow> u64 \<Rightarrow> (u64 \<times> ('k \<times> 'v) list) option" where
  "scan_run [] v = Some (v, [])"
| "scan_run (d # ds) v =
    do {
      (v1, es) \<leftarrow> dictScan d v;
      if v1 = 0 then Some (0, es)
      else do { (v2, es') \<leftarrow> scan_run ds v1; Some (v2, es @ es') }
    }"

definition has_key :: "'k dictType \<Rightarrow> 'k \<Rightarrow> ('k, 'v) dict \<Rightarrow> bool" where
  "has_key ty key d \<longleftrightarrow> dict_ok d \<and> dtype d = ty \<and> dict_map d (cls ty key) \<noteq> None"

lemma has_key_entry:
  assumes "has_key ty key d"
  obtains e where "e \<in> set (entries d)" "cls ty (fst e) = cls ty key"
    "hashFunction ty (fst e) = hashFunction ty key" "dictSize d \<noteq> 0"
proof -
  have "\<not> (\<forall>e \<in> set (entries d). cls (dtype d) (fst e) \<noteq> cls ty key)"
    using assms dict_map_None [of d] by (auto simp: has_key_def)
  then obtain e where e: "e \<in> set (entries d)" "cls ty (fst e) = cls ty key"
    using assms by (auto simp: has_key_def)
  moreover have "hashFunction ty (fst e) = hashFunction ty key"
    using cls_hash [OF _ e(2)] assms by (auto simp: has_key_def dict_ok_def)
  moreover have "dictSize d \<noteq> 0" using e(1) assms by (auto simp: has_key_def dictSize_entries)
  ultimately show ?thesis by (rule that)
qed

lemma rpos_next:
  assumes "rpos v' = next_rpos k v mod 2 ^ 64" "k \<le> 63"
  shows "v' = 0 \<and> next_rpos k v = 2 ^ 64 \<or> v' \<noteq> 0 \<and> rpos v' = next_rpos k v"
proof (cases "next_rpos k v = 2 ^ 64")
  case True
  then show ?thesis using assms(1) rpos_0 [of v'] by simp
next
  case False
  then have "rpos v' = next_rpos k v" using next_rpos_le [of k v] assms by simp
  then show ?thesis using next_rpos_greater [of v k] rpos_0 [of v'] by auto
qed

lemma scan_run_covers:
  assumes "list_all (has_key ty key) ds" "scan_run ds v = Some (0, es)" "ds = [] \<Longrightarrow> v \<noteq> 0"
    "rpos v \<le> rpos (hashFunction ty key)"
  shows "\<exists>e \<in> set es. cls ty (fst e) = cls ty key"
  using assms
proof (induction ds arbitrary: v es)
  case (Cons d ds)
  have hk: "has_key ty key d" using Cons.prems(1) by simp
  then have ok: "dict_ok d" "dtype d = ty" by (simp_all add: has_key_def)
  obtain e where e: "e \<in> set (entries d)" "cls ty (fst e) = cls ty key"
    "hashFunction ty (fst e) = hashFunction ty key" "dictSize d \<noteq> 0"
    by (rule has_key_entry [OF hk])
  obtain v1 es1 k where s: "dictScan d v = Some (v1, es1)" "k \<le> 63" "rpos v1 = next_rpos k v mod 2 ^ 64"
    "\<forall>e \<in> set (entries d). rpos v \<le> rpos (hashFunction ty (fst e)) \<and>
       rpos (hashFunction ty (fst e)) < next_rpos k v \<longrightarrow> e \<in> set es1"
    using dictScan_step [OF ok(1) e(4), of v] ok(2) by blast
  have now: "e \<in> set es1" if "rpos (hashFunction ty key) < next_rpos k v"
    using s(4) e Cons.prems(4) that by auto
  show ?case
  proof (cases "rpos (hashFunction ty key) < next_rpos k v")
    case True
    then have "e \<in> set es"
      using now Cons.prems(2) s(1) by (auto split: if_splits Option.bind_splits)
    with e(2) show ?thesis by blast
  next
    case False
    with rpos_next [OF s(3,2)] rpos_less [of "hashFunction ty key"]
    have v1: "v1 \<noteq> 0" "rpos v1 = next_rpos k v" by auto
    then obtain es2 where r: "scan_run ds v1 = Some (0, es2)" "es = es1 @ es2"
      using Cons.prems(2) s(1) by (auto split: Option.bind_splits)
    have "\<exists>e \<in> set es2. cls ty (fst e) = cls ty key"
      using Cons.IH [OF _ r(1)] Cons.prems(1) v1 False by auto
    with r(2) show ?thesis by auto
  qed
qed simp

lemma scan_run_ends:
  assumes "list_all (\<lambda>d. dict_ok d \<and> scan_size d \<le> 2 ^ k) ds" "k \<le> 63" "2 ^ (64 - k) dvd rpos v"
    "2 ^ k - rpos v div 2 ^ (64 - k) \<le> length ds"
  shows "\<exists>es. scan_run ds v = Some (0, es)"
  using assms
proof (induction ds arbitrary: v)
  case Nil
  have e: "(2::nat) ^ 64 = 2 ^ k * 2 ^ (64 - k)" using Nil(2) by (simp flip: power_add)
  have "rpos v div 2 ^ (64 - k) < 2 ^ k" using rpos_less [of v] unfolding e by (rule less_mult_imp_div_less)
  with Nil(4) show ?case by simp
next
  case (Cons d ds)
  show ?case
  proof (cases "dictSize d = 0")
    case True
    then show ?thesis by (simp add: dictScan_def)
  next
    case False
    obtain v1 es1 j where s: "dictScan d v = Some (v1, es1)" "j \<le> 63" "scan_size d = 2 ^ j"
      "rpos v1 = next_rpos j v mod 2 ^ 64"
      using dictScan_step [OF _ False, of v] Cons.prems(1) by auto
    have j: "j \<le> k" using s(3) Cons.prems(1) by simp
    have dv: "2 ^ (64 - k) dvd (2::nat) ^ (64 - j)" using j by (intro le_imp_power_dvd) simp
    show ?thesis
    proof (cases "v1 = 0")
      case True
      then show ?thesis using s(1) by simp
    next
      case False
      then have v1: "rpos v1 = next_rpos j v" using rpos_next [OF s(4,2)] by simp
      have d1: "2 ^ (64 - k) dvd rpos v1" unfolding v1 next_rpos_def using dv by (rule dvd_mult)
      have "rpos v < rpos v1" using v1 next_rpos_greater by simp
      then have "rpos v div 2 ^ (64 - k) < rpos v1 div 2 ^ (64 - k)"
        using Cons.prems(3) d1 by (metis dvd_div_mult_self mult_less_cancel2)
      then have "2 ^ k - rpos v1 div 2 ^ (64 - k) \<le> length ds" using Cons.prems(4) by simp
      then obtain es2 where "scan_run ds v1 = Some (0, es2)"
        using Cons.IH [OF _ Cons.prems(2) d1] Cons.prems(1) by auto
      with s(1) False show ?thesis by simp
    qed
  qed
qed

lemma scan_run_sound:
  assumes "list_all dict_ok ds" "scan_run ds v = Some (v', es)"
  shows "set es \<subseteq> (\<Union>d \<in> set ds. set (entries d))"
  using assms
proof (induction ds arbitrary: v es)
  case (Cons d ds)
  obtain v1 es1 where s: "dictScan d v = Some (v1, es1)" "set es1 \<subseteq> set (entries d)"
  proof (cases "dictSize d = 0")
    case True
    then show ?thesis using that [of 0 "[]"] by (simp add: dictScan_def)
  next
    case False
    then show ?thesis using that dictScan_step [OF _ False, of v] Cons.prems(1) by auto
  qed
  show ?case
  proof (cases "v1 = 0")
    case True
    with Cons.prems(2) s show ?thesis by auto
  next
    case False
    with Cons.prems(2) s(1) obtain es2 where "scan_run ds v1 = Some (v', es2)" "es = es1 @ es2"
      by (auto split: Option.bind_splits)
    moreover from this(1) have "set es2 \<subseteq> (\<Union>d \<in> set ds. set (entries d))"
      using Cons.IH Cons.prems(1) by simp
    ultimately show ?thesis using s(2) by auto
  qed
qed simp

section \<open>Properties\<close>

text \<open>C2: A whole \<open>SCAN\<close> iteration returns every key that is in the dictionary from the first call
  to the last, although the dictionary may be resized, rehashed and changed in any way between
  the calls; and it returns only entries the dictionary held at one of the calls.\<close>

theorem scan_complete:
  assumes "list_all (has_key ty key) ds" "ds \<noteq> []" "scan_run ds 0 = Some (0, es)"
  shows "(\<exists>e \<in> set es. cls ty (fst e) = cls ty key) \<and> set es \<subseteq> (\<Union>d \<in> set ds. set (entries d))"
proof -
  have "list_all dict_ok ds" using assms(1) by (auto simp: list_all_iff has_key_def)
  moreover have "rpos 0 = 0" by (simp add: rpos_0)
  ultimately show ?thesis
    using scan_run_covers [OF assms(1,3)] scan_run_sound assms by simp
qed

theorem scan_complete_witness:
  "\<exists>es. scan_run [ex_dict, ex_dict, ex_dict, ex_dict] 0 = Some (0, es) \<and>
     (\<exists>e \<in> set es. cls ex_type (fst e) = cls ex_type 3)"
proof -
  have "rpos 0 = 0" "scan_size ex_dict \<le> 2 ^ 2"
    by (simp_all add: rpos_0 scan_size_def ex_dict_def dictIsRehashing_def)
  then obtain es where "scan_run [ex_dict, ex_dict, ex_dict, ex_dict] 0 = Some (0, es)"
    using scan_run_ends [of 2 "[ex_dict, ex_dict, ex_dict, ex_dict]" 0] by auto
  moreover have "has_key ex_type 3 ex_dict" by (simp add: has_key_def dict_map_def)
  ultimately show ?thesis
    using scan_complete [of ex_type 3 "[ex_dict, ex_dict, ex_dict, ex_dict]"] by simp
qed

text \<open>C18: A \<open>SCAN\<close> iteration ends: if the table the cursor steps through never has more than \<open>2 ^ k\<close>
  buckets, at most \<open>2 ^ k\<close> calls bring the cursor back to 0.\<close>

theorem scan_terminates:
  assumes "list_all (\<lambda>d. dict_ok d \<and> scan_size d \<le> 2 ^ k) ds" "k \<le> 63" "2 ^ k \<le> length ds"
  shows "\<exists>es. scan_run ds 0 = Some (0, es)"
proof -
  have "rpos 0 = 0" by (simp add: rpos_0)
  then show ?thesis using scan_run_ends [OF assms(1,2), of 0] assms(3) by simp
qed

theorem scan_terminates_witness: "\<exists>es. scan_run [ex_dict, ex_dict, ex_dict, ex_dict] 0 = Some (0, es)"
proof -
  have "scan_size ex_dict \<le> 2 ^ 2" by (simp add: scan_size_def ex_dict_def dictIsRehashing_def)
  then show ?thesis using scan_terminates [of 2 "[ex_dict, ex_dict, ex_dict, ex_dict]"] by simp
qed

end
