(* ===== verification/Dict_Random.thy ===== *)
theory Dict_Random
  imports Dict
begin

text \<open>
  Random sampling of the hash tables of \<open>dict.c\<close>: \<open>dictGetRandomKey\<close> and \<open>dictGetSomeKeys\<close>; and
  \<open>dictFindEntryRefByPtrAndHash\<close>.  The results of \<open>random()\<close> are a sequence, numbers below \<open>2 ^ 31\<close>; an
  operation starts at its beginning.  \<open>None\<close> is a read outside a table or a loop that does not end.
\<close>

section \<open>Model\<close>

text \<open>One round of the two loops that look for a non-empty bucket.\<close>

definition pick_bucket :: "nat \<Rightarrow> ('k, 'v) dict \<Rightarrow> ('k \<times> 'v) list option" where
  "pick_bucket r d =
    (if dictIsRehashing d then
       (let h = nat (rehashidx d) + r mod (ht_size (ht0 d) + ht_size (ht1 d) - nat (rehashidx d))
        in if h \<ge> ht_size (ht0 d) then get_bucket (ht1 d) (h - ht_size (ht0 d)) else get_bucket (ht0 d) h)
     else get_bucket (ht0 d) (unat (of_nat r AND sizemask (ht0 d))))"

partial_function (option) random_bucket ::
    "(nat \<Rightarrow> nat) \<Rightarrow> nat \<Rightarrow> ('k, 'v) dict \<Rightarrow> (('k \<times> 'v) list \<times> nat) option" where
  "random_bucket random k d =
    do {
      he \<leftarrow> pick_bucket (random k) d;
      if he = [] then random_bucket random (k + 1) d else Some (he, k + 1)
    }"

definition dictGetRandomKey :: "(nat \<Rightarrow> nat) \<Rightarrow> ('k, 'v) dict \<Rightarrow> (('k, 'v) dict \<times> ('k \<times> 'v) option) option" where
  "dictGetRandomKey random d =
    (if dictSize d = 0 then Some (d, None)
     else
       do {
         d1 \<leftarrow> rehash_if_needed d;
         (he, k) \<leftarrow> random_bucket random 0 d1;
         let listele = random k mod length he;
         Some (d1, Some (he ! listele))
       })"

text \<open>The rehashing steps at the start of \<open>dictGetSomeKeys\<close>.\<close>

fun rehash_steps :: "nat \<Rightarrow> ('k, 'v) dict \<Rightarrow> ('k, 'v) dict option" where
  "rehash_steps 0 d = Some d"
| "rehash_steps (Suc n) d = (if dictIsRehashing d then do { d1 \<leftarrow> dictRehashStep d; rehash_steps n d1 } else Some d)"

text \<open>
  The body of the loop over the tables, for table \<open>j\<close>.  The state is the bucket index, the length of the
  run of empty buckets, the number of random numbers used and the entries stored so far; the flag says
  that \<open>count\<close> entries are stored.
\<close>

type_synonym ('k, 'v) visit = "nat \<times> nat \<times> nat \<times> ('k \<times> 'v) list"

definition some_visit ::
    "(nat \<Rightarrow> nat) \<Rightarrow> ('k, 'v) dict \<Rightarrow> nat \<Rightarrow> u64 \<Rightarrow> nat \<Rightarrow> ('k, 'v) visit \<Rightarrow> (('k, 'v) visit \<times> bool) option" where
  "some_visit random d cnt maxsizemask j st =
    (case st of (i, emptylen, k, des) \<Rightarrow>
       (let moved = (dictIsRehashing d \<and> j = 0 \<and> i < nat (rehashidx d));
            i1 = (if moved \<and> i \<ge> ht_size (ht1 d) then nat (rehashidx d) else i)
        in if moved \<and> i < ht_size (ht1 d) \<or> i1 \<ge> ht_size (dict_ht d j) then Some ((i1, emptylen, k, des), False)
           else
             do {
               he \<leftarrow> get_bucket (dict_ht d j) i1;
               Some (if he = [] then
                       (if emptylen + 1 \<ge> 5 \<and> emptylen + 1 > cnt
                        then ((unat (of_nat (random k) AND maxsizemask), 0, k + 1, des), False)
                        else ((i1, emptylen + 1, k, des), False))
                     else
                       (let des1 = des @ take (cnt - length des) he
                        in ((i1, 0, k, des1), length des1 = cnt)))
             }))"

fun some_loop ::
    "(nat \<Rightarrow> nat) \<Rightarrow> ('k, 'v) dict \<Rightarrow> nat \<Rightarrow> u64 \<Rightarrow> nat \<Rightarrow> ('k, 'v) visit \<Rightarrow> ('k \<times> 'v) list option" where
  "some_loop random d cnt maxsizemask 0 (i, emptylen, k, des) = Some des"
| "some_loop random d cnt maxsizemask (Suc maxsteps) (i, emptylen, k, des) =
    (if \<not> length des < cnt then Some des
     else
       do {
         ((i1, emptylen1, k1, des1), full) \<leftarrow> some_visit random d cnt maxsizemask 0 (i, emptylen, k, des);
         if full then Some des1
         else
           do {
             ((i2, emptylen2, k2, des2), full) \<leftarrow>
               (if dictIsRehashing d then some_visit random d cnt maxsizemask 1 (i1, emptylen1, k1, des1)
                else Some ((i1, emptylen1, k1, des1), False));
             if full then Some des2
             else some_loop random d cnt maxsizemask maxsteps (unat (of_nat (i2 + 1) AND maxsizemask), emptylen2, k2, des2)
           }
       })"

text \<open>The number of steps is computed in \<open>unsigned int\<close>.\<close>

definition dictGetSomeKeys ::
    "(nat \<Rightarrow> nat) \<Rightarrow> ('k, 'v) dict \<Rightarrow> nat \<Rightarrow> (('k, 'v) dict \<times> ('k \<times> 'v) list) option" where
  "dictGetSomeKeys random d count0 =
    (let cnt = (if dictSize d < count0 then dictSize d else count0);
         maxsteps = cnt * 10 mod 2 ^ 32
     in do {
       d1 \<leftarrow> rehash_steps cnt d;
       let maxsizemask =
         (if dictIsRehashing d1 \<and> sizemask (ht0 d1) < sizemask (ht1 d1) then sizemask (ht1 d1) else sizemask (ht0 d1));
       des \<leftarrow> some_loop random d1 cnt maxsizemask maxsteps (unat (of_nat (random 0) AND maxsizemask), 0, 1, []);
       Some (d1, des)
     })"

text \<open>
  \<open>dictFindEntryRefByPtrAndHash\<close>: a search by identity of the key, with a hash computed before.
\<close>

fun ptr_find :: "'k \<Rightarrow> ('k \<times> 'v) list \<Rightarrow> nat option" where
  "ptr_find oldptr [] = None"
| "ptr_find oldptr (he # rest) = (if oldptr = fst he then Some 0 else map_option Suc (ptr_find oldptr rest))"

definition dictFindEntryRefByPtrAndHash :: "('k, 'v) dict \<Rightarrow> 'k \<Rightarrow> u64 \<Rightarrow> entry_ref option option" where
  "dictFindEntryRefByPtrAndHash d oldptr hash =
    (if used (ht0 d) + used (ht1 d) = 0 then Some None
     else
       do {
         let idx0 = unat (hash AND sizemask (ht0 d));
         b0 \<leftarrow> get_bucket (ht0 d) idx0;
         (case ptr_find oldptr b0 of
            Some pos \<Rightarrow> Some (Some (0, idx0, pos))
          | None \<Rightarrow>
              if \<not> dictIsRehashing d then Some None
              else
                do {
                  let idx1 = unat (hash AND sizemask (ht1 d));
                  b1 \<leftarrow> get_bucket (ht1 d) idx1;
                  Some (map_option (\<lambda>pos. (1, idx1, pos)) (ptr_find oldptr b1))
                })
       })"

section \<open>Buckets\<close>

abbreviation buckets :: "('k, 'v) dict \<Rightarrow> nat" where
  "buckets d \<equiv> ht_size (ht0 d) + ht_size (ht1 d)"

lemma rehash_move_size: "rehash_move d b = Some d' \<Longrightarrow> ht_size (ht1 d') = ht_size (ht1 d)"
  by (induction d b rule: rehash_move.induct)
    (auto simp: Let_def set_bucket_def split: Option.bind_splits if_splits)

lemma rehash_loop_buckets: "rehash_loop n ev d = Some (d', go_on) \<Longrightarrow> buckets d' \<le> buckets d"
proof (induction n ev d rule: rehash_loop.induct)
  case (1 ev d)
  then show ?case by (auto simp: rehash_finish_def dictReset_def split: if_splits)
next
  case (2 n ev d)
  show ?case
  proof (cases "used (ht0 d) = 0")
    case True
    with 2(2) show ?thesis by (auto simp: rehash_finish_def dictReset_def split: if_splits)
  next
    case ne: False
    then obtain i ev' stop where sk: "rehash_skip (table (ht0 d)) (nat (rehashidx d)) ev = Some (i, ev', stop)"
      using 2(2) by (auto split: if_splits Option.bind_splits)
    have g: "\<not> \<not> nat (rehashidx d) < ht_size (ht0 d)" using 2(2) ne by (auto split: if_splits)
    show ?thesis
    proof (cases stop)
      case True
      then show ?thesis using 2(2) ne sk by (auto split: if_splits)
    next
      case False
      let ?d = "d\<lparr>rehashidx := int i\<rparr>"
      obtain de d2 t0 where s: "get_bucket (ht0 ?d) i = Some de" "rehash_move ?d de = Some d2"
        "set_bucket (ht0 d2) i [] = Some t0"
        "rehash_loop n ev' (d2\<lparr>ht0 := t0, rehashidx := int i + 1\<rparr>) = Some (d', go_on)"
        using 2(2) ne sk False by (auto simp: Let_def split: if_splits Option.bind_splits)
      have "ht_size t0 = ht_size (ht0 d)" "ht_size (ht1 d2) = ht_size (ht1 d)"
        using s(3) rehash_move_keeps [OF s(2)] rehash_move_size [OF s(2)]
        by (auto simp: set_bucket_def split: if_splits)
      with 2(1) [OF ne g sk refl refl refl False s(1,2,3,4)] show ?thesis by simp
    qed
  qed
qed

lemma dictRehashStep_spec:
  assumes "dict_ok d"
  obtains d' where "dictRehashStep d = Some d'" "same_dict d d'" "buckets d' \<le> buckets d"
proof (cases "iterators d = 0")
  case True
  obtain d' go_on where "dictRehash d 1 = Some (d', go_on)" "same_dict d d'"
    by (rule dictRehash_spec [OF assms, of 1]) auto
  moreover from this(1) have "buckets d' \<le> buckets d"
    using rehash_loop_buckets [of 1 10 d d' go_on]
    by (cases "dictIsRehashing d") (simp_all add: dictRehash_def del: rehash_loop.simps)
  ultimately show ?thesis using True by (intro that [of d']) (simp_all add: dictRehashStep_def)
next
  case False
  then show ?thesis by (intro that [of d]) (simp_all add: dictRehashStep_def same_dict_refl assms)
qed

lemma rehash_steps_spec:
  assumes "dict_ok d"
  obtains d' where "rehash_steps n d = Some d'" "same_dict d d'"
proof -
  have "\<exists>d'. rehash_steps n d = Some d' \<and> same_dict d d'" using assms
  proof (induction n arbitrary: d)
    case (Suc n)
    obtain d1 where d1: "dictRehashStep d = Some d1" "same_dict d d1" by (rule dictRehashStep_spec [OF Suc.prems])
    then have "dict_ok d1" by (simp add: same_dict_def)
    from Suc.IH [OF this] d1 Suc.prems same_dict_trans [OF d1(2)] show ?case
      by (auto simp: same_dict_refl)
  qed (simp add: same_dict_refl)
  then show ?thesis using that by blast
qed

lemma get_bucket_entries:
  assumes "get_bucket (dict_ht d t) i = Some b"
  shows "set b \<subseteq> set (entries d)"
  using assms nth_mem [of i "table (dict_ht d t)"]
  by (fastforce simp: get_bucket_def entries_def dict_ht_def split: if_splits)

lemma live_bucket: "ht_live h \<Longrightarrow> i < ht_size h \<Longrightarrow> get_bucket h i = Some (table h ! i)"
  by (auto simp: get_bucket_def ht_live_def)

lemma pick_bucket_safe:
  assumes "dict_ok d" "dictSize d \<noteq> 0"
  shows "\<exists>b. pick_bucket r d = Some b \<and> set b \<subseteq> set (entries d)"
proof (cases "dictIsRehashing d")
  case True
  then have live: "ht_live (ht0 d)" "ht_live (ht1 d)" and idx: "nat (rehashidx d) \<le> ht_size (ht0 d)"
    using assms(1) by (auto simp: dict_ok_def dict_shape_def)
  let ?n = "ht_size (ht0 d) + ht_size (ht1 d) - nat (rehashidx d)"
  have "0 < ?n" using ht_live_nonempty [OF live(2)] idx by simp
  then have h: "nat (rehashidx d) + r mod ?n < ht_size (ht0 d) + ht_size (ht1 d)"
    using mod_less_divisor [of ?n r] idx by linarith
  show ?thesis
  proof (cases "nat (rehashidx d) + r mod ?n < ht_size (ht0 d)")
    case lo: True
    with True live_bucket [OF live(1) lo] show ?thesis
      using get_bucket_entries [of d 0] by (simp add: pick_bucket_def Let_def dict_ht_def)
  next
    case hi: False
    with h have "nat (rehashidx d) + r mod ?n - ht_size (ht0 d) < ht_size (ht1 d)" by linarith
    from live_bucket [OF live(2) this] show ?thesis
      using True hi get_bucket_entries [of d 1] by (simp add: pick_bucket_def Let_def dict_ht_def)
  qed
next
  case False
  have "ht_live (ht0 d)" using assms by (rule dictSize_live)
  from ht_live_get [OF this, of "of_nat r"] False show ?thesis
    using get_bucket_entries [of d 0] by (simp add: pick_bucket_def dict_ht_def)
qed

lemma entry_bucket:
  assumes "e \<in> set (concat xs)"
  obtains i where "i < length xs" "e \<in> set (xs ! i)"
  using assms by (metis UN_E in_set_conv_nth set_concat)

text \<open>Every entry is in a bucket some random number picks.\<close>

lemma pick_bucket_complete:
  assumes "dict_ok d" "e \<in> set (entries d)" "buckets d \<le> 2 ^ 31"
  shows "\<exists>r < 2 ^ 31. \<exists>b. pick_bucket r d = Some b \<and> e \<in> set b"
proof -
  have ne: "dictSize d \<noteq> 0" using assms by (auto simp: dictSize_entries)
  have live0: "ht_live (ht0 d)" using assms(1) ne by (rule dictSize_live)
  note len0 = ht_live_nonempty [OF live0]
  show ?thesis
  proof (cases "dictIsRehashing d")
    case True
    then have live1: "ht_live (ht1 d)" and idx: "nat (rehashidx d) \<le> ht_size (ht0 d)"
      and clear: "\<And>i. i < nat (rehashidx d) \<Longrightarrow> table (ht0 d) ! i = []"
      using assms(1) by (auto simp: dict_ok_def dict_shape_def)
    note len1 = ht_live_nonempty [OF live1]
    let ?n = "ht_size (ht0 d) + ht_size (ht1 d) - nat (rehashidx d)"
    consider "e \<in> set (concat (table (ht0 d)))" | "e \<in> set (concat (table (ht1 d)))"
      using assms(2) by (auto simp: entries_def)
    then show ?thesis
    proof cases
      case 1
      then obtain i where i: "i < length (table (ht0 d))" "e \<in> set (table (ht0 d) ! i)" by (rule entry_bucket)
      have "nat (rehashidx d) \<le> i" using i(2) clear [of i] by (cases "i < nat (rehashidx d)") auto
      moreover from this have "(i - nat (rehashidx d)) mod ?n = i - nat (rehashidx d)" using i(1) len0 by simp
      ultimately have "pick_bucket (i - nat (rehashidx d)) d = Some (table (ht0 d) ! i)"
        using True i(1) len0 live_bucket [OF live0, of i] by (simp add: pick_bucket_def Let_def)
      then show ?thesis using i len0 assms(3) by (intro exI [of _ "i - nat (rehashidx d)"]) auto
    next
      case 2
      then obtain i where i: "i < length (table (ht1 d))" "e \<in> set (table (ht1 d) ! i)" by (rule entry_bucket)
      let ?r = "ht_size (ht0 d) + i - nat (rehashidx d)"
      have "?r mod ?n = ?r" using i(1) len1 idx by (intro mod_less) linarith
      then have "pick_bucket ?r d = Some (table (ht1 d) ! i)"
        using True i(1) len1 idx live_bucket [OF live1, of i] by (simp add: pick_bucket_def Let_def)
      moreover have "?r < 2 ^ 31" using i(1) len1 assms(3) by linarith
      ultimately show ?thesis using i(2) by blast
    qed
  next
    case False
    then have "table (ht1 d) = []" using assms(1) by (simp add: dict_ok_def dict_shape_def ht_null_def)
    then have "e \<in> set (concat (table (ht0 d)))" using assms(2) by (simp add: entries_def)
    then obtain i where i: "i < length (table (ht0 d))" "e \<in> set (table (ht0 d) ! i)" by (rule entry_bucket)
    obtain k where k: "k \<le> 63" "length (table (ht0 d)) = 2 ^ k" "sizemask (ht0 d) = mask k"
      using live0 by (auto simp: ht_live_def)
    have "i < 2 ^ 64" using i(1) k(1,2) power_increasing [of k 64 "2::nat"] by linarith
    then have "unat (of_nat i AND mask k :: u64) = i"
      using i(1) k(2) by (simp add: unat_and_mask unsigned_of_nat take_bit_nat_eq_self)
    then have "pick_bucket i d = Some (table (ht0 d) ! i)" using False i(1) k(3) by (simp add: pick_bucket_def get_bucket_def)
    moreover have "i < 2 ^ 31" using i(1) len0 assms(3) by linarith
    ultimately show ?thesis using i(2) by blast
  qed
qed

section \<open>A random key\<close>

text \<open>A generator that goes on producing every number of its range.\<close>

definition fair :: "(nat \<Rightarrow> nat) \<Rightarrow> bool" where
  "fair random \<longleftrightarrow> (\<forall>k. random k < 2 ^ 31) \<and> (\<forall>n. \<forall>x < 2 ^ 31. \<exists>k \<ge> n. random k = x)"

lemma random_bucket_returns:
  assumes "dict_ok d" "dictSize d \<noteq> 0" "n \<le> k" "pick_bucket (random k) d = Some b" "b \<noteq> []"
  shows "\<exists>he m. random_bucket random n d = Some (he, m) \<and> he \<noteq> [] \<and> set he \<subseteq> set (entries d)"
  using assms(3)
proof (induction n rule: inc_induct)
  case base
  have "set b \<subseteq> set (entries d)" using pick_bucket_safe [OF assms(1,2), of "random k"] assms(4) by simp
  then show ?case using assms(4,5) by (subst random_bucket.simps) simp
next
  case (step n)
  obtain b' where b': "pick_bucket (random n) d = Some b'" "set b' \<subseteq> set (entries d)"
    using pick_bucket_safe [OF assms(1,2)] by blast
  show ?case
  proof (cases "b' = []")
    case True
    then have "random_bucket random n d = random_bucket random (Suc n) d"
      using b'(1) by (subst random_bucket.simps) simp
    with step.IH show ?thesis by simp
  next
    case False
    then show ?thesis using b' by (subst random_bucket.simps) simp
  qed
qed

lemma rehash_if_needed_spec:
  assumes "dict_ok d"
  obtains d' where "rehash_if_needed d = Some d'" "same_dict d d'" "buckets d' \<le> buckets d"
proof (cases "dictIsRehashing d")
  case True
  obtain d' where "dictRehashStep d = Some d'" "same_dict d d'" "buckets d' \<le> buckets d"
    by (rule dictRehashStep_spec [OF assms])
  with True that show ?thesis by (simp add: rehash_if_needed_def)
next
  case False
  with that [of d] assms show ?thesis by (simp add: rehash_if_needed_def same_dict_refl)
qed

lemma same_dict_entries: "same_dict d d' \<Longrightarrow> set (entries d') = set (entries d)"
  by (metis same_dict_def set_mset_mset)

lemma dictGetRandomKey_returns:
  assumes "dict_ok d" "dictSize d \<noteq> 0" "buckets d \<le> 2 ^ 31" "fair random"
  shows "\<exists>d' e. dictGetRandomKey random d = Some (d', Some e) \<and> same_dict d d' \<and> e \<in> set (entries d)"
proof -
  obtain d1 where d1: "rehash_if_needed d = Some d1" "same_dict d d1" "buckets d1 \<le> buckets d"
    by (rule rehash_if_needed_spec [OF assms(1)])
  have ok: "dict_ok d1" "dictSize d1 \<noteq> 0"
    using d1(2) assms(2) same_dict_size [OF assms(1) d1(2)] by (simp_all add: same_dict_def)
  then obtain e where "e \<in> set (entries d1)" by (cases "entries d1") (auto simp: dictSize_entries)
  then obtain r b where r: "r < 2 ^ 31" "pick_bucket r d1 = Some b" "b \<noteq> []"
    using pick_bucket_complete [OF ok(1), of e] d1(3) assms(3) by fastforce
  obtain k where "random k = r" using assms(4) r(1) unfolding fair_def by blast
  with random_bucket_returns [OF ok, of 0 k random b] r obtain he m where
    he: "random_bucket random 0 d1 = Some (he, m)" "he \<noteq> []" "set he \<subseteq> set (entries d1)" by auto
  have "he ! (random m mod length he) \<in> set he" using he(2) by simp
  with he(3) have "he ! (random m mod length he) \<in> set (entries d)"
    using same_dict_entries [OF d1(2)] by blast
  with he(1) d1 assms(2) show ?thesis by (simp add: dictGetRandomKey_def)
qed

lemma dictGetRandomKey_any:
  assumes "dict_ok d" "e \<in> set (entries d)" "buckets d \<le> 2 ^ 31" "dictSize d \<le> 2 ^ 31"
  shows "\<exists>random d'. (\<forall>k. random k < 2 ^ 31) \<and> dictGetRandomKey random d = Some (d', Some e)"
proof -
  obtain d1 where d1: "rehash_if_needed d = Some d1" "same_dict d d1" "buckets d1 \<le> buckets d"
    by (rule rehash_if_needed_spec [OF assms(1)])
  have ok: "dict_ok d1" using d1(2) by (simp add: same_dict_def)
  have e: "e \<in> set (entries d1)" using assms(2) same_dict_entries [OF d1(2)] by simp
  obtain r b where r: "r < 2 ^ 31" "pick_bucket r d1 = Some b" "e \<in> set b"
    using pick_bucket_complete [OF ok e] d1(3) assms(3) by auto
  obtain p where p: "p < length b" "b ! p = e" using r(3) by (auto simp: in_set_conv_nth)
  have ne: "dictSize d1 \<noteq> 0" "dictSize d \<noteq> 0" using e assms(1,2) ok by (auto simp: dictSize_entries)
  have "length b \<le> dictSize d1"
  proof -
    have "(\<exists>i. get_bucket (dict_ht d1 0) i = Some b) \<or> (\<exists>i. get_bucket (dict_ht d1 1) i = Some b)"
      using r(2) by (auto simp: pick_bucket_def Let_def dict_ht_def split: if_splits)
    then obtain t i where "get_bucket (dict_ht d1 t) i = Some b" by blast
    then have "b \<in> set (table (dict_ht d1 t))" by (auto simp: get_bucket_def split: if_splits)
    then have "length b \<le> length (concat (table (dict_ht d1 t)))"
      by (simp add: length_concat member_le_sum_list)
    then show ?thesis by (auto simp: dictSize_entries [OF ok] entries_def dict_ht_def split: if_splits)
  qed
  with p(1) assms(4) same_dict_size [OF assms(1) d1(2)] have "p < 2 ^ 31" by simp
  moreover have "dictGetRandomKey (\<lambda>k. if k = 0 then r else p) d = Some (d1, Some e)"
  proof -
    have "random_bucket (\<lambda>k. if k = 0 then r else p) 0 d1 = Some (b, 1)"
      using r(2,3) by (subst random_bucket.simps) auto
    then show ?thesis using d1(1) ne(2) p by (simp add: dictGetRandomKey_def)
  qed
  ultimately show ?thesis using r(1) by (intro exI [of _ "\<lambda>k. if k = 0 then r else p"] exI [of _ d1]) simp
qed

section \<open>A sample of keys\<close>

lemma dict_ok_ht_size: "dict_ok d \<Longrightarrow> ht_size (dict_ht d t) = length (table (dict_ht d t))"
  using ht_live_nonempty [of "ht0 d"] ht_live_nonempty [of "ht1 d"]
  by (auto simp: dict_ok_def dict_shape_def ht_null_def dict_ht_def split: if_splits)

text \<open>What holds of the entries stored so far.\<close>

definition sampled :: "('k, 'v) dict \<Rightarrow> nat \<Rightarrow> ('k \<times> 'v) list \<Rightarrow> bool" where
  "sampled d cnt des \<longleftrightarrow> set des \<subseteq> set (entries d) \<and> length des \<le> cnt"

lemma some_visit_safe:
  assumes "dict_ok d" "sampled d cnt des"
  shows "\<exists>i' el' k' des' full. some_visit random d cnt m j (i, el, k, des) = Some ((i', el', k', des'), full) \<and>
    sampled d cnt des'"
proof -
  define moved where "moved = (dictIsRehashing d \<and> j = 0 \<and> i < nat (rehashidx d))"
  define i1 where "i1 = (if moved \<and> i \<ge> ht_size (ht1 d) then nat (rehashidx d) else i)"
  note defs = some_visit_def moved_def [symmetric] i1_def [symmetric] Let_def prod.case
  show ?thesis
  proof (cases "moved \<and> i < ht_size (ht1 d) \<or> i1 \<ge> ht_size (dict_ht d j)")
    case True
    then show ?thesis unfolding defs using assms(2) by auto
  next
    case False
    then obtain he where he: "get_bucket (dict_ht d j) i1 = Some he"
      using dict_ok_ht_size [OF assms(1), of j] by (auto simp: get_bucket_def)
    have "sampled d cnt (des @ take (cnt - length des) he)"
      using assms(2) get_bucket_entries [OF he] set_take_subset [of "cnt - length des" he]
      by (auto simp: sampled_def)
    then show ?thesis unfolding defs he using False assms(2) by auto
  qed
qed

lemma some_loop_safe:
  assumes "dict_ok d" "sampled d cnt des"
  shows "\<exists>des'. some_loop random d cnt m n (i, el, k, des) = Some des' \<and> sampled d cnt des'"
  using assms(2)
proof (induction n arbitrary: i el k des)
  case (Suc n)
  obtain i1 el1 k1 des1 full1 where
    1: "some_visit random d cnt m 0 (i, el, k, des) = Some ((i1, el1, k1, des1), full1)" "sampled d cnt des1"
    using some_visit_safe [OF assms(1) Suc.prems] by blast
  obtain i2 el2 k2 des2 full2 where
    2: "some_visit random d cnt m 1 (i1, el1, k1, des1) = Some ((i2, el2, k2, des2), full2)" "sampled d cnt des2"
    using some_visit_safe [OF assms(1) 1(2)] by blast
  show ?case using Suc 1 2 by auto
qed simp

lemma dictGetSomeKeys_safe:
  assumes "dict_ok d"
  shows "\<exists>d' des. dictGetSomeKeys random d cnt = Some (d', des) \<and> same_dict d d' \<and>
    set des \<subseteq> set (entries d) \<and> length des \<le> min cnt (dictSize d)"
proof -
  let ?c = "if dictSize d < cnt then dictSize d else cnt"
  obtain d1 where d1: "rehash_steps ?c d = Some d1" "same_dict d d1"
    by (rule rehash_steps_spec [OF assms])
  then have ok: "dict_ok d1" by (simp add: same_dict_def)
  have "sampled d1 ?c []" by (simp add: sampled_def)
  note loop = some_loop_safe [OF ok this]
  let ?m = "if dictIsRehashing d1 \<and> sizemask (ht0 d1) < sizemask (ht1 d1) then sizemask (ht1 d1) else sizemask (ht0 d1)"
  obtain des where des: "some_loop random d1 ?c ?m (?c * 10 mod 2 ^ 32) (unat (of_nat (random 0) AND ?m), 0, 1, []) = Some des"
    "sampled d1 ?c des"
    using loop by blast
  have "dictGetSomeKeys random d cnt = Some (d1, des)"
    unfolding dictGetSomeKeys_def Let_def d1(1) bind.bind_lunit des(1) ..
  with d1(2) des(2) same_dict_entries [OF d1(2)] show ?thesis by (auto simp: sampled_def split: if_splits)
qed

section \<open>Search by identity\<close>

lemma ptr_find_Some: "ptr_find p b = Some pos \<Longrightarrow> pos < length b \<and> fst (b ! pos) = p"
  by (induction b arbitrary: pos) (auto split: if_splits)

lemma ptr_find_None: "ptr_find p b = None \<longleftrightarrow> p \<notin> fst ` set b"
  by (induction b) auto

lemma dictFindEntryRef_finds:
  assumes "dict_ok d" "(p, v) \<in> set (entries d)"
  shows "\<exists>r. dictFindEntryRefByPtrAndHash d p (dictHashKey d p) = Some (Some r) \<and> valid_ref d r \<and> fst (deref d r) = p"
proof -
  have ne: "dictSize d \<noteq> 0" using assms by (auto simp: dictSize_entries)
  have live0: "ht_live (ht0 d)" using assms(1) ne by (rule dictSize_live)
  let ?h = "hashFunction (dtype d) p"
  let ?i0 = "unat (?h AND sizemask (ht0 d))" and ?i1 = "unat (?h AND sizemask (ht1 d))"
  note g0 = ht_live_get [OF live0, of ?h]
  show ?thesis
  proof (cases "ptr_find p (table (ht0 d) ! ?i0)")
    case (Some pos)
    with ptr_find_Some [OF Some] ne g0 ht_live_idx [OF live0, of ?h] show ?thesis
      by (auto simp: dictFindEntryRefByPtrAndHash_def dictHashKey_def dictSize_def valid_ref_def deref_def dict_ht_def Let_def)
  next
    case None
    then have "(p, v) \<notin> set (table (ht0 d) ! ?i0)" by (force simp: ptr_find_None)
    then have "(p, v) \<notin> set (concat (table (ht0 d)))"
      using in_table_bucket [OF dict_okD(1,3) [OF assms(1)], of "(p, v)" p] by auto
    then have in1: "(p, v) \<in> set (concat (table (ht1 d)))" using assms(2) by (simp add: entries_def)
    then have "table (ht1 d) \<noteq> []" by auto
    then have r: "dictIsRehashing d" and live1: "ht_live (ht1 d)"
      using assms(1) by (auto simp: dict_ok_def dict_shape_def ht_null_def split: if_splits)
    note g1 = ht_live_get [OF live1, of ?h]
    have "(p, v) \<in> set (table (ht1 d) ! ?i1)"
      using in_table_bucket [OF dict_okD(1,4) [OF assms(1)] in1, of p] by simp
    then obtain pos where pos: "ptr_find p (table (ht1 d) ! ?i1) = Some pos"
      using ptr_find_None [of p "table (ht1 d) ! ?i1"] by (cases "ptr_find p (table (ht1 d) ! ?i1)") force+
    with ptr_find_Some [OF pos] None ne g0 g1 r ht_live_idx [OF live1, of ?h] show ?thesis
      by (auto simp: dictFindEntryRefByPtrAndHash_def dictHashKey_def dictSize_def valid_ref_def deref_def dict_ht_def Let_def)
  qed
qed

section \<open>Properties\<close>

text \<open>C20: With a random generator that goes on producing every number of its range,
  \<open>dictGetRandomKey\<close> returns an entry of a dictionary that is not empty, and it keeps the dictionary as
  a map; and there is no entry it could not return, whether the table is being rehashed or not.  The
  generator has 31 bits, so this holds for tables of at most \<open>2 ^ 31\<close> buckets and entries.\<close>

theorem random_key_support:
  assumes "dict_ok d" "dictSize d \<noteq> 0" "ht_size (ht0 d) + ht_size (ht1 d) \<le> 2 ^ 31" "dictSize d \<le> 2 ^ 31"
  shows "(\<forall>random. fair random \<longrightarrow>
      (\<exists>d' e. dictGetRandomKey random d = Some (d', Some e) \<and> dict_map d' = dict_map d \<and> e \<in> set (entries d))) \<and>
    (\<forall>e \<in> set (entries d). \<exists>random d'. (\<forall>k. random k < 2 ^ 31) \<and> dictGetRandomKey random d = Some (d', Some e))"
  using dictGetRandomKey_returns [OF assms(1-3)] dictGetRandomKey_any [OF assms(1) _ assms(3,4)]
    same_dict_map [OF assms(1)] by metis

lemma fair_counter: "fair (\<lambda>k. k mod 2 ^ 31)"
proof -
  have "\<exists>k \<ge> n. k mod 2 ^ 31 = x" if "x < 2 ^ 31" for n x :: nat
    using that by (intro exI [of _ "n * 2 ^ 31 + x"]) simp
  then show ?thesis unfolding fair_def by simp
qed

theorem random_key_support_witness:
  "(\<exists>d' e. dictGetRandomKey (\<lambda>k. k mod 2 ^ 31) ex_dict = Some (d', Some e) \<and> e \<in> {(5, 50), (1, 10), (3, 30), (8, 80)}) \<and>
   (\<exists>random d'. dictGetRandomKey random ex_dict = Some (d', Some (3, 30)))"
proof -
  have "dictSize ex_dict = 4" "ht_size (ht0 ex_dict) = 4" "ht_size (ht1 ex_dict) = 8"
    by (simp_all add: ex_dict_def dictSize_def)
  then have s: "(\<forall>random. fair random \<longrightarrow> (\<exists>d' e. dictGetRandomKey random ex_dict = Some (d', Some e) \<and>
      dict_map d' = dict_map ex_dict \<and> e \<in> set (entries ex_dict))) \<and>
    (\<forall>e \<in> set (entries ex_dict). \<exists>random d'. (\<forall>k. random k < 2 ^ 31) \<and> dictGetRandomKey random ex_dict = Some (d', Some e))"
    by (intro random_key_support) simp_all
  have "(3, 30) \<in> set (entries ex_dict)" by simp
  with s have "\<exists>random d'. dictGetRandomKey random ex_dict = Some (d', Some (3, 30))" by blast
  moreover have "\<exists>d' e. dictGetRandomKey (\<lambda>k. k mod 2 ^ 31) ex_dict = Some (d', Some e) \<and> e \<in> set (entries ex_dict)"
    using s fair_counter by blast
  ultimately show ?thesis by simp
qed

text \<open>C39: \<open>dictGetSomeKeys\<close> returns for every request and every sequence of random numbers: it stays
  within both tables, keeps the dictionary as a map, and stores at most as many entries as were asked
  for and as there are, each of them an entry of the dictionary.\<close>

theorem some_keys_sampled:
  assumes "dict_ok d"
  shows "\<exists>d' des. dictGetSomeKeys random d n = Some (d', des) \<and> dict_ok d' \<and> dict_map d' = dict_map d \<and>
    set des \<subseteq> set (entries d) \<and> length des \<le> min n (dictSize d)"
  using dictGetSomeKeys_safe [OF assms, of random n] same_dict_map [OF assms]
  by (fastforce simp: same_dict_def)

theorem some_keys_sampled_witness:
  "\<exists>d' des. dictGetSomeKeys (\<lambda>k. 7) ex_dict 2 = Some (d', des) \<and> length des \<le> 2 \<and>
     set des \<subseteq> {(5, 50), (1, 10), (3, 30), (8, 80)}"
  using some_keys_sampled [OF ex_dict_ok, of "\<lambda>k. 7" 2] by auto

end
