(* ===== verification/Bytes.thy ===== *)
theory Bytes
  imports Prelude "HOL-Library.Monad_Syntax"
begin

text \<open>
  Memory blocks as byte lists, for the components that lay out their data by hand.  A read or a
  write outside the block is \<open>None\<close>.  Multi-byte integers are little endian, as the machine stores
  them and as \<open>endianconv.h\<close> leaves them there (the \<open>memrev\<close> and \<open>intrev\<close> macros are the identity
  on a little-endian host).
\<close>

section \<open>Blocks\<close>

definition mem_get :: "nat \<Rightarrow> nat \<Rightarrow> byte list \<Rightarrow> byte list option" where
  "mem_get off n m = (if off + n \<le> length m then Some (take n (drop off m)) else None)"

definition mem_put :: "nat \<Rightarrow> byte list \<Rightarrow> byte list \<Rightarrow> byte list option" where
  "mem_put off bs m =
    (if off + length bs \<le> length m then Some (take off m @ bs @ drop (off + length bs) m) else None)"

text \<open>\<open>memmove\<close>, source and target in the same block.\<close>

definition mem_move :: "nat \<Rightarrow> nat \<Rightarrow> nat \<Rightarrow> byte list \<Rightarrow> byte list option" where
  "mem_move dst src n m = do { bs \<leftarrow> mem_get src n m; mem_put dst bs m }"

text \<open>\<open>zrealloc\<close>: what a block gains when it grows is whatever the allocator returns, \<open>junk\<close>.\<close>

definition mem_realloc :: "(nat \<Rightarrow> byte) \<Rightarrow> nat \<Rightarrow> byte list \<Rightarrow> byte list" where
  "mem_realloc junk n m = take n m @ map junk [length m..<n]"

lemma mem_get_append: "length a = off \<Longrightarrow> length b = n \<Longrightarrow> mem_get off n (a @ b @ c) = Some b"
  by (auto simp: mem_get_def)

lemma mem_get_suffix: "length a = off \<Longrightarrow> length b = n \<Longrightarrow> mem_get off n (a @ b) = Some b"
  by (auto simp: mem_get_def)

lemma mem_put_append:
  "length a = off \<Longrightarrow> length b = length b' \<Longrightarrow> mem_put off b' (a @ b @ c) = Some (a @ b' @ c)"
  by (auto simp: mem_put_def)

lemma mem_put_suffix:
  "length a = off \<Longrightarrow> length b = length b' \<Longrightarrow> mem_put off b' (a @ b) = Some (a @ b')"
  by (auto simp: mem_put_def)

lemma mem_put_length: "mem_put off b m = Some m' \<Longrightarrow> length m' = length m"
  by (auto simp: mem_put_def split: if_splits)

lemma length_mem_realloc [simp]: "length (mem_realloc junk n m) = n"
  by (simp add: mem_realloc_def)

lemma mem_realloc_grow: "length m \<le> n \<Longrightarrow> mem_realloc junk n m = m @ map junk [length m..<n]"
  by (simp add: mem_realloc_def)

lemma mem_realloc_shrink: "n \<le> length m \<Longrightarrow> mem_realloc junk n m = take n m"
  by (simp add: mem_realloc_def)

lemma mem_realloc_prefix: "length a = n \<Longrightarrow> mem_realloc junk n (a @ b) = a"
  by (simp add: mem_realloc_def)

text \<open>Shifting a tail to the right by the length of a gap behind it, and to the left.\<close>

lemma mem_move_right:
  assumes "length p = src" "length t = n" "dst = src + length j"
  shows "mem_move dst src n (p @ t @ j) = Some (p @ take (length j) (t @ j) @ t)"
proof -
  have "p @ t @ j = (p @ take (length j) (t @ j)) @ drop (length j) (t @ j)"
    by (metis append.assoc append_take_drop_id)
  then have "mem_put dst t (p @ t @ j) = Some ((p @ take (length j) (t @ j)) @ t)"
    using assms by (simp only:) (rule mem_put_suffix, auto)
  with assms show ?thesis by (simp add: mem_move_def mem_get_append)
qed

lemma mem_move_left:
  assumes "length p = dst" "length x + dst = src" "length t = n"
  shows "\<exists>r. mem_move dst src n (p @ x @ t) = Some (p @ t @ r) \<and> length r = length x"
proof -
  have g: "mem_get src n (p @ x @ t) = Some t"
    using assms mem_get_suffix [of "p @ x" src t n] by simp
  have e: "p @ x @ t = p @ take n (x @ t) @ drop n (x @ t)" by (simp only: append_take_drop_id)
  have "mem_put dst t (p @ x @ t) = Some (p @ t @ drop n (x @ t))"
    unfolding e using assms by (intro mem_put_append) auto
  with g assms show ?thesis by (simp add: mem_move_def)
qed

section \<open>Little-endian integers\<close>

fun le_bytes :: "nat \<Rightarrow> nat \<Rightarrow> byte list" where
  "le_bytes 0 x = []"
| "le_bytes (Suc n) x = of_nat x # le_bytes n (x div 256)"

fun le_nat :: "byte list \<Rightarrow> nat" where
  "le_nat [] = 0"
| "le_nat (b # bs) = unat b + 256 * le_nat bs"

text \<open>Two's complement.\<close>

definition le_sbytes :: "nat \<Rightarrow> int \<Rightarrow> byte list" where
  "le_sbytes n v = le_bytes n (nat (v mod 256 ^ n))"

definition le_int :: "byte list \<Rightarrow> int" where
  "le_int bs =
    (let u = int (le_nat bs); m = 256 ^ length bs in if u < m div 2 then u else u - m)"

lemma length_le_bytes [simp]: "length (le_bytes n x) = n"
  by (induction n arbitrary: x) auto

lemma length_le_sbytes [simp]: "length (le_sbytes n x) = n"
  by (simp add: le_sbytes_def)

lemma unat_byte_less: "unat (b :: byte) < 256"
  using unsigned_less [of b, where 'a = nat] by simp

lemma le_nat_less: "le_nat bs < 256 ^ length bs"
proof (induction bs)
  case (Cons b bs)
  then show ?case using unat_byte_less [of b] by simp
qed simp

lemma le_nat_le_bytes: "le_nat (le_bytes n x) = x mod 256 ^ n"
proof (induction n arbitrary: x)
  case (Suc n)
  have "unat (of_nat x :: byte) = x mod 256" by (simp add: unat_of_nat)
  with Suc show ?case by (simp add: mod_mult2_eq)
qed simp

lemma le_bytes_le_nat: "le_bytes (length bs) (le_nat bs) = bs"
proof (induction bs)
  case (Cons b bs)
  have "(unat b + 256 * le_nat bs) div 256 = le_nat bs" using unat_byte_less [of b] by simp
  moreover have "(of_nat (unat b + 256 * le_nat bs) :: byte) = b"
  proof -
    have "(of_nat (unat b + 256 * le_nat bs) :: byte) = of_nat (unat b)"
      using unat_byte_less [of b] by (simp only: word_of_nat_eq_iff) (simp add: take_bit_eq_mod)
    then show ?thesis by simp
  qed
  ultimately show ?case using Cons by simp
qed simp

lemma le_int_le_sbytes:
  assumes "- (256 ^ n div 2) \<le> v" "v < 256 ^ n div 2" "0 < n"
  shows "le_int (le_sbytes n v) = v"
proof -
  have ev: "(256 :: int) ^ n = 2 * (256 ^ n div 2)" using assms(3) by (cases n) auto
  have u: "int (le_nat (le_sbytes n v)) = v mod 256 ^ n"
    by (simp add: le_sbytes_def le_nat_le_bytes zmod_int)
  show ?thesis
  proof (cases "0 \<le> v")
    case True
    then have "v mod 256 ^ n = v" using assms ev by (intro mod_pos_pos_trivial) linarith+
    with u assms show ?thesis by (simp add: le_int_def)
  next
    case False
    have "v mod 256 ^ n = (v + 256 ^ n) mod 256 ^ n" by simp
    also have "\<dots> = v + 256 ^ n" using False assms ev by (intro mod_pos_pos_trivial) linarith+
    finally have "v mod 256 ^ n = v + 256 ^ n" .
    with u assms ev show ?thesis by (simp add: le_int_def Let_def)
  qed
qed

end
