(* ===== verification/Lzf.thy ===== *)
theory Lzf
  imports Bytes
begin

text \<open>
  The compression of \<open>lzf_c.c\<close> and \<open>lzf_d.c\<close>, with the configuration of \<open>lzfP.h\<close> on a 64-bit machine:
  \<open>VERY_FAST\<close>, \<open>HLOG\<close> 16, \<open>CHECK_INPUT\<close>, offsets in the hash table, and no initialisation of the hash
  table, so that its first contents are arbitrary.  Pointers into the input and the output are
  offsets; the output of the compressor is a block of the given length.  \<open>None\<close> is an access outside
  the input or the output.
\<close>

section \<open>Decompression\<close>

definition rd :: "byte list \<Rightarrow> nat \<Rightarrow> byte option" where
  "rd bs i = (if i < length bs then Some (bs ! i) else None)"

datatype lzf_error = E2BIG | EINVAL

text \<open>
  Copying \<open>n\<close> octets from \<open>ref\<close> to the end of the output, one by one, so that the source may run into
  what is being written.  The output is what is written so far; \<open>op\<close> is its length.
\<close>

fun copy_octets :: "nat \<Rightarrow> nat \<Rightarrow> byte list \<Rightarrow> byte list option" where
  "copy_octets 0 ref out = Some out"
| "copy_octets (Suc n) ref out = do { b \<leftarrow> rd out ref; copy_octets n (ref + 1) (out @ [b]) }"

definition copy_ref :: "nat \<Rightarrow> nat \<Rightarrow> byte list \<Rightarrow> byte list option" where
  "copy_ref len ref out =
    (if len > 9 \<and> length out \<ge> ref + (len + 2) then map_option (\<lambda>bs. out @ bs) (mem_get ref (len + 2) out)
     else copy_octets (len + 2) ref out)"

text \<open>The rest of a back reference, from the last byte of the offset on: an error, or the new positions.\<close>

definition lzf_d_ref :: "byte list \<Rightarrow> nat \<Rightarrow> nat \<Rightarrow> byte list \<Rightarrow> nat \<Rightarrow> int \<Rightarrow> (lzf_error + nat \<times> byte list) option" where
  "lzf_d_ref inp out_len ip out len ref0 =
    do {
      b \<leftarrow> rd inp ip;
      let ref = ref0 - int (unat b);
      if length out + len + 2 > out_len then Some (Inl E2BIG)
      else if ref < 0 then Some (Inl EINVAL)
      else do { out' \<leftarrow> copy_ref len (nat ref) out; Some (Inr (ip + 1, out')) }
    }"

text \<open>One round of the loop.\<close>

definition lzf_d_step :: "byte list \<Rightarrow> nat \<Rightarrow> nat \<Rightarrow> byte list \<Rightarrow> (lzf_error + nat \<times> byte list) option" where
  "lzf_d_step inp out_len ip out =
    do {
      c \<leftarrow> rd inp ip;
      let ctrl = unat c;
      if ctrl < 32 then
        (let n = ctrl + 1
         in if length out + n > out_len then Some (Inl E2BIG)
            else if ip + 1 + n > length inp then Some (Inl EINVAL)
            else do { bs \<leftarrow> mem_get (ip + 1) n inp; Some (Inr (ip + 1 + n, out @ bs)) })
      else
        (let len = drop_bit 5 ctrl; ref = int (length out) - int (push_bit 8 (ctrl AND 31)) - 1
         in if ip + 1 \<ge> length inp then Some (Inl EINVAL)
            else if len = 7 then
              do {
                b \<leftarrow> rd inp (ip + 1);
                if ip + 2 \<ge> length inp then Some (Inl EINVAL)
                else lzf_d_ref inp out_len (ip + 2) out (len + unat b) ref
              }
            else lzf_d_ref inp out_len (ip + 1) out len ref)
    }"

lemma lzf_d_step_forward: "lzf_d_step inp out_len ip out = Some (Inr (ip', out')) \<Longrightarrow> ip < ip' \<and> ip < length inp"
  by (auto simp: lzf_d_step_def lzf_d_ref_def Let_def rd_def split: if_splits Option.bind_splits)

function lzf_d_loop :: "byte list \<Rightarrow> nat \<Rightarrow> nat \<Rightarrow> byte list \<Rightarrow> (lzf_error + byte list) option" where
  "lzf_d_loop inp out_len ip out =
    (case lzf_d_step inp out_len ip out of
       None \<Rightarrow> None
     | Some (Inl e) \<Rightarrow> Some (Inl e)
     | Some (Inr (ip', out')) \<Rightarrow>
         if ip' < length inp then lzf_d_loop inp out_len ip' out' else Some (Inr out'))"
  by pat_completeness auto
termination
  by (relation "measure (\<lambda>(inp, out_len, ip, out). length inp - ip)") (auto dest: lzf_d_step_forward)

declare lzf_d_loop.simps [simp del]

definition lzf_decompress :: "byte list \<Rightarrow> nat \<Rightarrow> (lzf_error + byte list) option" where
  "lzf_decompress inp out_len = lzf_d_loop inp out_len 0 []"

section \<open>Compression\<close>

abbreviation (input) MAX_LIT :: nat where "MAX_LIT \<equiv> 32"
abbreviation (input) MAX_OFF :: nat where "MAX_OFF \<equiv> 8192"
abbreviation (input) MAX_REF :: nat where "MAX_REF \<equiv> 264"

definition FRST :: "byte list \<Rightarrow> nat \<Rightarrow> u32 option" where
  "FRST inp p = do { a \<leftarrow> rd inp p; b \<leftarrow> rd inp (p + 1); Some (push_bit 8 (ucast a) OR ucast b) }"

definition NEXT :: "u32 \<Rightarrow> byte list \<Rightarrow> nat \<Rightarrow> u32 option" where
  "NEXT v inp p = do { c \<leftarrow> rd inp (p + 2); Some (push_bit 8 v OR ucast c) }"

definition IDX :: "u32 \<Rightarrow> u32" where
  "IDX h = (drop_bit 8 h - h * 5) AND 65535"

record lzf_state =
  l_ip :: nat
  l_op :: nat
  l_lit :: nat
  l_hval :: u32
  l_htab :: "u32 \<Rightarrow> u32"
  l_out :: "byte list"

text \<open>The test for a match; the offset is an \<open>unsigned long\<close>, so a reference behind \<open>ip\<close> is far away.\<close>

definition lzf_off :: "nat \<Rightarrow> nat \<Rightarrow> nat" where
  "lzf_off ip ref = nat ((int ip - int ref - 1) mod 2 ^ 64)"

definition lzf_matches :: "byte list \<Rightarrow> nat \<Rightarrow> nat \<Rightarrow> bool option" where
  "lzf_matches inp ip ref =
    (if lzf_off ip ref < MAX_OFF \<and> ref > 0 then
       do {
         a \<leftarrow> rd inp (ref + 2);
         b \<leftarrow> rd inp (ip + 2);
         if a = b then do { r \<leftarrow> mem_get ref 2 inp; i \<leftarrow> mem_get ip 2 inp; Some (r = i) } else Some False
       }
     else Some False)"

text \<open>The unrolled comparisons (the flag is \<open>break\<close>), the loop behind them, and both.\<close>

fun unrolled :: "nat \<Rightarrow> byte list \<Rightarrow> nat \<Rightarrow> nat \<Rightarrow> nat \<Rightarrow> (nat \<times> bool) option" where
  "unrolled 0 inp ref ip len = Some (len, False)"
| "unrolled (Suc k) inp ref ip len =
    do {
      a \<leftarrow> rd inp (ref + (len + 1));
      b \<leftarrow> rd inp (ip + (len + 1));
      if a \<noteq> b then Some (len + 1, True) else unrolled k inp ref ip (len + 1)
    }"

function extend :: "byte list \<Rightarrow> nat \<Rightarrow> nat \<Rightarrow> nat \<Rightarrow> nat \<Rightarrow> nat option" where
  "extend inp ref ip maxlen len =
    (if len + 1 < maxlen then
       do {
         a \<leftarrow> rd inp (ref + (len + 1));
         b \<leftarrow> rd inp (ip + (len + 1));
         if a = b then extend inp ref ip maxlen (len + 1) else Some (len + 1)
       }
     else Some (len + 1))"
  by pat_completeness auto
termination
  by (relation "measure (\<lambda>(inp, ref, ip, maxlen, len). maxlen - len)") auto

declare extend.simps [simp del]

definition match_length :: "byte list \<Rightarrow> nat \<Rightarrow> nat \<Rightarrow> nat \<Rightarrow> nat option" where
  "match_length inp ref ip maxlen =
    do {
      (len, brk) \<leftarrow> (if maxlen > 16 then unrolled 16 inp ref ip 2 else Some (2, False));
      if brk then Some len else extend inp ref ip maxlen len
    }"

text \<open>A match was found: the loop goes on, is left by \<open>break\<close>, or the function returns 0.\<close>

datatype lzf_next = Go_on | Leave | Give_up

definition lzf_match_step :: "byte list \<Rightarrow> nat \<Rightarrow> lzf_state \<Rightarrow> (lzf_state \<times> lzf_next) option" where
  "lzf_match_step inp ref st =
    (let ip = l_ip st; op = l_op st; lit = l_lit st; out_len = length (l_out st);
         off = lzf_off ip ref;
         maxlen0 = length inp - ip - 2;
         maxlen = (if maxlen0 > MAX_REF then MAX_REF else maxlen0)
     in if op + 3 + 1 \<ge> out_len \<and> op - of_bool (lit = 0) + 3 + 1 \<ge> out_len then Some (st, Give_up)
        else
          do {
            out1 \<leftarrow> mem_put (op - lit - 1) [of_nat lit - 1] (l_out st);
            let op1 = op - of_bool (lit = 0);
            len0 \<leftarrow> match_length inp ref ip maxlen;
            let len = len0 - 2;
            (out2, op2) \<leftarrow>
              (if len < 7 then map_option (\<lambda>out. (out, op1 + 1)) (mem_put op1 [of_nat (off div 256 + len * 32)] out1)
               else
                 do {
                   out \<leftarrow> mem_put op1 [of_nat (off div 256 + 7 * 32)] out1;
                   out \<leftarrow> mem_put (op1 + 1) [of_nat (len - 7)] out;
                   Some (out, op1 + 2)
                 });
            out3 \<leftarrow> mem_put op2 [of_nat off] out2;
            let ip2 = ip + 1 + (len + 1);
            let st1 = st\<lparr>l_ip := ip2, l_op := op2 + 2, l_lit := 0, l_out := out3\<rparr>;
            if ip2 \<ge> length inp - 2 then Some (st1, Leave)
            else
              do {
                h0 \<leftarrow> FRST inp (ip2 - 2);
                h1 \<leftarrow> NEXT h0 inp (ip2 - 2);
                h2 \<leftarrow> NEXT h1 inp (ip2 - 1);
                Some (st1\<lparr>l_hval := h2,
                    l_htab := (l_htab st1)(IDX h1 := of_nat (ip2 - 2), IDX h2 := of_nat (ip2 - 1))\<rparr>, Go_on)
              }
          })"

text \<open>\<open>lit++; *op++ = *ip++;\<close> and the end of a full run.\<close>

definition put_literal :: "byte list \<Rightarrow> lzf_state \<Rightarrow> lzf_state option" where
  "put_literal inp st =
    do {
      b \<leftarrow> rd inp (l_ip st);
      out \<leftarrow> mem_put (l_op st) [b] (l_out st);
      let st1 = st\<lparr>l_lit := l_lit st + 1, l_op := l_op st + 1, l_ip := l_ip st + 1, l_out := out\<rparr>;
      if l_lit st1 = MAX_LIT then
        do {
          out \<leftarrow> mem_put (l_op st1 - l_lit st1 - 1) [of_nat (l_lit st1) - 1] (l_out st1);
          Some (st1\<lparr>l_lit := 0, l_op := l_op st1 + 1, l_out := out\<rparr>)
        }
      else Some st1
    }"

text \<open>The main loop; the flag says that the function returns 0.\<close>

partial_function (option) lzf_c_loop :: "byte list \<Rightarrow> lzf_state \<Rightarrow> (lzf_state \<times> bool) option" where
  "lzf_c_loop inp st =
    (if l_ip st < length inp - 2 then
       do {
         hval \<leftarrow> NEXT (l_hval st) inp (l_ip st);
         let ref = unat (l_htab st (IDX hval));
         let st1 = st\<lparr>l_hval := hval, l_htab := (l_htab st)(IDX hval := of_nat (l_ip st))\<rparr>;
         m \<leftarrow> lzf_matches inp (l_ip st) ref;
         if m then
           do {
             (st2, next) \<leftarrow> lzf_match_step inp ref st1;
             (case next of Give_up \<Rightarrow> Some (st2, True) | Leave \<Rightarrow> Some (st2, False) | Go_on \<Rightarrow> lzf_c_loop inp st2)
           }
         else if l_op st1 \<ge> length (l_out st1) then Some (st1, True)
         else do { st2 \<leftarrow> put_literal inp st1; lzf_c_loop inp st2 }
       }
     else Some (st, False))"

text \<open>The loop over the last bytes, given how many they are.\<close>

fun lzf_tail :: "nat \<Rightarrow> byte list \<Rightarrow> lzf_state \<Rightarrow> lzf_state option" where
  "lzf_tail 0 inp st = Some st"
| "lzf_tail (Suc n) inp st = do { st1 \<leftarrow> put_literal inp st; lzf_tail n inp st1 }"

text \<open>\<open>lzf_compress\<close>: the returned length and the output block; \<open>htab\<close> is the uninitialised table.\<close>

definition lzf_compress :: "(u32 \<Rightarrow> u32) \<Rightarrow> byte list \<Rightarrow> byte list \<Rightarrow> (nat \<times> byte list) option" where
  "lzf_compress htab inp out0 =
    (if length inp = 0 \<or> length out0 = 0 then Some (0, out0)
     else
       do {
         hval \<leftarrow> FRST inp 0;
         (st, fail) \<leftarrow> lzf_c_loop inp \<lparr>l_ip = 0, l_op = 1, l_lit = 0, l_hval = hval, l_htab = htab, l_out = out0\<rparr>;
         if fail \<or> l_op st + 3 > length (l_out st) then Some (0, l_out st)
         else
           do {
             st1 \<leftarrow> lzf_tail (length inp - l_ip st) inp st;
             out \<leftarrow> mem_put (l_op st1 - l_lit st1 - 1) [of_nat (l_lit st1) - 1] (l_out st1);
             Some (l_op st1 - of_bool (l_lit st1 = 0), out)
           }
       })"

section \<open>Copying\<close>

lemma rd_in [simp]: "i < length bs \<Longrightarrow> rd bs i = Some (bs ! i)"
  by (simp add: rd_def)

lemma copy_octets_extend:
  assumes "ref < ip" "ip + n \<le> length inp" "\<forall>k < n. inp ! (ref + k) = inp ! (ip + k)"
  shows "copy_octets n ref (take ip inp) = Some (take (ip + n) inp)"
  using assms
proof (induction n arbitrary: ref ip)
  case (Suc n)
  have "inp ! ref = inp ! ip" using Suc.prems(3) by force
  then have "take ip inp @ [take ip inp ! ref] = take (ip + 1) inp"
    using Suc.prems(1,2) by (simp add: take_Suc_conv_app_nth)
  moreover have "copy_octets n (ref + 1) (take (ip + 1) inp) = Some (take (ip + 1 + n) inp)"
  proof (rule Suc.IH)
    show "\<forall>k < n. inp ! (ref + 1 + k) = inp ! (ip + 1 + k)"
    proof (intro allI impI)
      fix k assume "k < n"
      then show "inp ! (ref + 1 + k) = inp ! (ip + 1 + k)" using Suc.prems(3) [rule_format, of "k + 1"] by simp
    qed
  qed (use Suc.prems in simp_all)
  ultimately show ?case using Suc.prems(1,2) by simp
qed simp

lemma copy_octets_disjoint: "ref + n \<le> length out \<Longrightarrow> copy_octets n ref (out @ acc) = Some (out @ acc @ take n (drop ref out))"
proof (induction n arbitrary: ref acc)
  case (Suc n)
  then have "copy_octets n (ref + 1) (out @ acc @ [out ! ref]) = Some (out @ (acc @ [out ! ref]) @ take n (drop (ref + 1) out))"
    using Suc.IH [of "ref + 1" "acc @ [out ! ref]"] by simp
  moreover have "take (Suc n) (drop ref out) = out ! ref # take n (drop (ref + 1) out)"
    using Suc.prems by (simp add: take_Suc_conv_app_nth Cons_nth_drop_Suc [symmetric])
  ultimately show ?case using Suc.prems by (simp add: rd_def nth_append)
qed simp

lemma copy_ref_octets: "copy_ref len ref out = copy_octets (len + 2) ref out"
  using copy_octets_disjoint [of ref "len + 2" out "[]"] by (simp add: copy_ref_def mem_get_def del: copy_octets.simps)

section \<open>What a compressed stream stands for\<close>

definition back_ref :: "nat \<Rightarrow> nat \<Rightarrow> byte list" where
  "back_ref off len =
    (if len < 7 then [of_nat (off div 256 + len * 32), of_nat off]
     else [of_nat (off div 256 + 7 * 32), of_nat (len - 7), of_nat off])"

inductive lzf_rep :: "byte list \<Rightarrow> byte list \<Rightarrow> bool" where
  empty: "lzf_rep [] []"
| run: "\<lbrakk>lzf_rep C x; 0 < length l; length l \<le> 32\<rbrakk> \<Longrightarrow> lzf_rep (C @ (of_nat (length l) - 1) # l) (x @ l)"
| copy: "\<lbrakk>lzf_rep C x; off < 8192; off < length x; 3 \<le> L; L \<le> 264; copy_octets L (length x - off - 1) x = Some y\<rbrakk>
    \<Longrightarrow> lzf_rep (C @ back_ref off (L - 2)) y"

lemma lzf_rep_nonempty: "lzf_rep C x \<Longrightarrow> x \<noteq> [] \<Longrightarrow> C \<noteq> []"
  by (induction rule: lzf_rep.induct) (auto simp: back_ref_def)

lemma unat_byte: "n < 256 \<Longrightarrow> unat (of_nat n :: byte) = n"
  by (simp add: unsigned_of_nat take_bit_nat_eq_self)

lemma unat_run_header: "0 < n \<Longrightarrow> n \<le> 32 \<Longrightarrow> unat (of_nat n - 1 :: byte) = n - 1"
  using unat_byte [of "n - 1"] by (simp add: of_nat_diff)

text \<open>The three kinds of rounds of the decompressor that succeed.\<close>

lemma rd_Some: "rd bs i = Some b \<Longrightarrow> i < length bs"
  by (simp add: rd_def split: if_splits)

lemma d_step_run:
  assumes "rd inp ip = Some c" "unat c + 1 = m" "m \<le> 32" "length out + m \<le> n" "mem_get (ip + 1) m inp = Some bs"
  shows "lzf_d_step inp n ip out = Some (Inr (ip + 1 + m, out @ bs))"
proof -
  have "ip + 1 + m \<le> length inp" using assms(5) by (simp add: mem_get_def split: if_splits)
  then show ?thesis unfolding lzf_d_step_def assms(1) Let_def using assms(2-5) by auto
qed

lemma d_step_short:
  assumes "rd inp ip = Some c" "\<not> unat c < 32" "drop_bit 5 (unat c) = len" "len \<noteq> 7" "rd inp (ip + 1) = Some b"
    "int (length out) - int (push_bit 8 (unat c AND 31)) - 1 - int (unat b) = int ref"
    "length out + len + 2 \<le> n" "copy_ref len ref out = Some out'"
  shows "lzf_d_step inp n ip out = Some (Inr (ip + 2, out'))"
  unfolding lzf_d_step_def lzf_d_ref_def assms(1) Let_def bind.bind_lunit assms(3)
  using assms(2,4-8) rd_Some [OF assms(5)] by simp

lemma d_step_long:
  assumes "rd inp ip = Some c" "\<not> unat c < 32" "drop_bit 5 (unat c) = 7" "rd inp (ip + 1) = Some l" "rd inp (ip + 2) = Some b"
    "int (length out) - int (push_bit 8 (unat c AND 31)) - 1 - int (unat b) = int ref"
    "7 + unat l = len" "length out + len + 2 \<le> n" "copy_ref len ref out = Some out'"
  shows "lzf_d_step inp n ip out = Some (Inr (ip + 3, out'))"
  unfolding lzf_d_step_def lzf_d_ref_def assms(1) Let_def bind.bind_lunit assms(3)
  using assms(2,4-9) rd_Some [OF assms(4)] rd_Some [OF assms(5)] by simp

lemma lzf_d_step_run:
  assumes "0 < length l" "length l \<le> 32" "length x + length l \<le> n"
  shows "lzf_d_step (C @ (of_nat (length l) - 1) # l @ rest) n (length C) x = Some (Inr (length C + 1 + length l, x @ l))"
proof (rule d_step_run)
  show "rd (C @ (of_nat (length l) - 1) # l @ rest) (length C) = Some (of_nat (length l) - 1)" by simp
  show "unat (of_nat (length l) - 1 :: byte) + 1 = length l" using assms(1,2) by (subst unat_run_header) simp_all
  show "mem_get (length C + 1) (length l) (C @ (of_nat (length l) - 1) # l @ rest) = Some l"
    using mem_get_append [of "C @ [of_nat (length l) - 1]" "length C + 1" l "length l" rest] by simp
qed (use assms in simp_all)

lemma copy_octets_length: "copy_octets n ref out = Some out' \<Longrightarrow> length out' = length out + n"
  by (induction n arbitrary: ref out) (auto split: Option.bind_splits)

lemma ref_header:
  fixes off m :: nat
  assumes "off < 8192" "m < 8"
  shows "unat (of_nat (off div 256 + m * 32) :: byte) = off div 256 + m * 32"
    "drop_bit 5 (off div 256 + m * 32) = m" "(off div 256 + m * 32) AND 31 = off div 256"
proof -
  have d: "off div 256 < 32" using assms(1) by simp
  then show "unat (of_nat (off div 256 + m * 32) :: byte) = off div 256 + m * 32"
    using assms(2) by (intro unat_byte) simp
  show "drop_bit 5 (off div 256 + m * 32) = m" using d by (simp add: drop_bit_eq_div)
  have "(off div 256 + m * 32) AND mask 5 = off div 256" using d by (simp add: take_bit_eq_mask [symmetric] take_bit_eq_mod)
  then show "(off div 256 + m * 32) AND 31 = off div 256" by (simp add: mask_eq_exp_minus_1)
qed

lemma lzf_d_step_back:
  assumes "off < 8192" "off < length x" "3 \<le> L" "L \<le> 264" "copy_octets L (length x - off - 1) x = Some y" "length y \<le> n"
  shows "lzf_d_step (C @ back_ref off (L - 2) @ rest) n (length C) x = Some (Inr (length C + length (back_ref off (L - 2)), y))"
proof -
  let ?inp = "C @ back_ref off (L - 2) @ rest"
  have o: "unat (of_nat off :: byte) = off mod 256" by (simp add: unsigned_of_nat take_bit_eq_mod)
  have ref: "int (length x) - int (push_bit 8 (off div 256)) - 1 - int (off mod 256) = int (length x - off - 1)"
  proof -
    have "int (off div 256) * 256 + int (off mod 256) = int off" by (metis div_mult_mod_eq of_nat_add of_nat_mult of_nat_numeral)
    moreover have "int (push_bit 8 (off div 256)) = int (off div 256) * 256" by (simp add: push_bit_eq_mult)
    ultimately show ?thesis using assms(2) by linarith
  qed
  have len: "length x + L \<le> n" using copy_octets_length [OF assms(5)] assms(6) by simp
  have copy: "copy_ref (L - 2) (length x - off - 1) x = Some y"
  proof -
    have "L - 2 + 2 = L" using assms(3) by simp
    with assms(5) show ?thesis by (simp only: copy_ref_octets)
  qed
  show ?thesis
  proof (cases "L - 2 < 7")
    case True
    then have "L - 2 < 8" by simp
    note h = ref_header [OF assms(1) this]
    have "lzf_d_step ?inp n (length C) x = Some (Inr (length C + 2, y))"
    proof (rule d_step_short)
      show "rd ?inp (length C) = Some (of_nat (off div 256 + (L - 2) * 32))" "rd ?inp (length C + 1) = Some (of_nat off)"
        using True by (simp_all add: rd_def back_ref_def nth_append)
      show "\<not> unat (of_nat (off div 256 + (L - 2) * 32) :: byte) < 32" "drop_bit 5 (unat (of_nat (off div 256 + (L - 2) * 32) :: byte)) = L - 2"
        using True assms(3) by (simp_all only: h)
      show "int (length x) - int (push_bit 8 (unat (of_nat (off div 256 + (L - 2) * 32) :: byte) AND 31)) - 1 - int (unat (of_nat off :: byte))
          = int (length x - off - 1)"
        using True ref by (simp only: h o)
      show "L - 2 \<noteq> 7" "length x + (L - 2) + 2 \<le> n" using True len assms(3) by linarith+
    qed (rule copy)
    then show ?thesis using True by (simp add: back_ref_def)
  next
    case False
    have "(7 :: nat) < 8" by simp
    note h = ref_header [OF assms(1) this]
    have l: "unat (of_nat (L - 2 - 7) :: byte) = L - 2 - 7" using assms(4) by (intro unat_byte) simp
    have "lzf_d_step ?inp n (length C) x = Some (Inr (length C + 3, y))"
    proof (rule d_step_long)
      show "rd ?inp (length C) = Some (of_nat (off div 256 + 7 * 32))" "rd ?inp (length C + 1) = Some (of_nat (L - 2 - 7))"
        "rd ?inp (length C + 2) = Some (of_nat off)"
        using False by (simp_all add: rd_def back_ref_def nth_append)
      show "\<not> unat (of_nat (off div 256 + 7 * 32) :: byte) < 32" "drop_bit 5 (unat (of_nat (off div 256 + 7 * 32) :: byte)) = 7"
        by (simp_all only: h)
      show "int (length x) - int (push_bit 8 (unat (of_nat (off div 256 + 7 * 32) :: byte) AND 31)) - 1 - int (unat (of_nat off :: byte))
          = int (length x - off - 1)"
        using ref by (simp only: h o)
      show "7 + unat (of_nat (L - 2 - 7) :: byte) = L - 2" "length x + (L - 2) + 2 \<le> n" using False l len assms(3) by linarith+
    qed (rule copy)
    then show ?thesis using False by (simp add: back_ref_def)
  qed
qed

text \<open>The decompressor runs through a stream.\<close>

definition d_from :: "byte list \<Rightarrow> nat \<Rightarrow> nat \<Rightarrow> byte list \<Rightarrow> (lzf_error + byte list) option" where
  "d_from inp n ip out = (if ip < length inp then lzf_d_loop inp n ip out else Some (Inr out))"

lemma d_from_step:
  assumes "lzf_d_step inp n ip out = Some (Inr (ip', out'))"
  shows "d_from inp n ip out = d_from inp n ip' out'"
  using lzf_d_step_forward [OF assms] assms by (simp add: d_from_def lzf_d_loop.simps [of inp n ip out])

lemma lzf_rep_decodes:
  assumes "lzf_rep C x" "length x \<le> n"
  shows "d_from (C @ rest) n 0 [] = d_from (C @ rest) n (length C) x"
  using assms
proof (induction arbitrary: rest)
  case (run C x l)
  then show ?case
    using run.IH [of "(of_nat (length l) - 1) # l @ rest"]
      d_from_step [OF lzf_d_step_run [of l x n C rest]] by simp
next
  case (copy C x off L y)
  then show ?case
    using copy.IH [of "back_ref off (L - 2) @ rest"] copy_octets_length [OF copy.hyps(6)]
      d_from_step [OF lzf_d_step_back [of off x L y n C rest]] by simp
qed simp

lemma lzf_rep_decompress:
  assumes "lzf_rep C x" "C \<noteq> []" "length x \<le> n"
  shows "lzf_decompress C n = Some (Inr x)"
  using lzf_rep_decodes [OF assms(1,3), of "[]"] assms(2) by (simp add: lzf_decompress_def d_from_def)

section \<open>The compressor\<close>

text \<open>
  The invariant of the compressor: the output begins with a stream for the input up to the open run of
  literals, and behind the slot for the header of the run are its bytes.  Only full runs make the
  stream longer than the input, by one byte in 32.
\<close>

definition lzf_inv :: "byte list \<Rightarrow> lzf_state \<Rightarrow> bool" where
  "lzf_inv inp st \<longleftrightarrow> l_lit st \<le> 32 \<and> l_lit st \<le> l_ip st \<and> l_ip st \<le> length inp \<and>
    (\<exists>C tail. l_out st = C @ tail \<and> l_op st = length C + 1 + l_lit st \<and> lzf_rep C (take (l_ip st - l_lit st) inp) \<and>
      length C \<le> (l_ip st - l_lit st) + (l_ip st - l_lit st) div 32 \<and>
      (l_lit st \<noteq> 0 \<longrightarrow> (\<exists>h rest. tail = h # take (l_lit st) (drop (l_ip st - l_lit st) inp) @ rest)))"

lemma lzf_inv_closed:
  "\<lbrakk>l_lit st = 0; l_out st = C @ tail; l_op st = length C + 1; lzf_rep C (take (l_ip st) inp); l_ip st \<le> length inp\<rbrakk>
   \<Longrightarrow> length C \<le> l_ip st + l_ip st div 32 \<Longrightarrow> lzf_inv inp st"
  by (auto simp: lzf_inv_def)

lemma lzf_inv_hash: "lzf_inv inp (st\<lparr>l_hval := h, l_htab := t\<rparr>) \<longleftrightarrow> lzf_inv inp st"
  by (simp add: lzf_inv_def)

lemma lzf_inv_op:
  assumes "lzf_inv inp st"
  shows "l_op st \<le> length inp + length inp div 32 + 1"
proof -
  have "l_op st \<le> (l_ip st - l_lit st) + (l_ip st - l_lit st) div 32 + 1 + l_lit st" "l_lit st \<le> l_ip st" "l_ip st \<le> length inp"
    using assms unfolding lzf_inv_def by auto
  moreover from this have "(l_ip st - l_lit st) div 32 \<le> length inp div 32" by (intro div_le_mono) simp
  ultimately show ?thesis by linarith
qed

text \<open>Writing the header of the run completes the stream.\<close>

lemma close_run:
  assumes "lzf_inv inp st" "l_op st - l_lit st - 1 < length (l_out st)"
  shows "\<exists>C tail. mem_put (l_op st - l_lit st - 1) [of_nat (l_lit st) - 1] (l_out st) = Some (C @ tail) \<and>
    length (C @ tail) = length (l_out st) \<and> length C = l_op st - of_bool (l_lit st = 0) \<and> lzf_rep C (take (l_ip st) inp) \<and>
    length C \<le> l_ip st + l_ip st div 32 + of_bool (l_lit st < 32)"
proof -
  obtain C tail where c: "l_out st = C @ tail" "l_op st = length C + 1 + l_lit st" "lzf_rep C (take (l_ip st - l_lit st) inp)"
    "l_lit st \<noteq> 0 \<longrightarrow> (\<exists>h rest. tail = h # take (l_lit st) (drop (l_ip st - l_lit st) inp) @ rest)"
    and C: "length C \<le> (l_ip st - l_lit st) + (l_ip st - l_lit st) div 32"
    and b: "l_lit st \<le> 32" "l_lit st \<le> l_ip st" "l_ip st \<le> length inp"
    using assms(1) by (auto simp: lzf_inv_def)
  have "tail \<noteq> []" using assms(2) c(1,2) by auto
  then obtain h t where t: "tail = h # t" by (cases tail) auto
  let ?w = "of_nat (l_lit st) - 1 :: byte"
  have put: "mem_put (l_op st - l_lit st - 1) [?w] (l_out st) = Some (C @ ?w # t)"
    using mem_put_append [of C "length C" "[h]" "[?w]" t] by (simp add: c t)
  have small: "length C + 1 + l_lit st \<le> l_ip st + l_ip st div 32 + of_bool (l_lit st < 32)"
  proof -
    obtain n where n: "l_ip st = n + l_lit st" using b(2) by (metis le_add_diff_inverse2)
    have "n div 32 \<le> l_ip st div 32" unfolding n by (intro div_le_mono) simp
    moreover have "l_ip st div 32 = n div 32 + 1" if "l_lit st = 32" using that n by simp
    ultimately show ?thesis using C n b(1) by (cases "l_lit st = 32") auto
  qed
  show ?thesis
  proof (cases "l_lit st = 0")
    case True
    then show ?thesis using put c t C by (intro exI [of _ C] exI [of _ "?w # t"]) simp
  next
    case False
    let ?l = "take (l_lit st) (drop (l_ip st - l_lit st) inp)"
    obtain rest where r: "t = ?l @ rest" using c(4) False t by auto
    have len: "length ?l = l_lit st" using b by simp
    have "lzf_rep (C @ ?w # ?l) (take (l_ip st - l_lit st) inp @ ?l)"
      using lzf_rep.run [OF c(3), of ?l] False b(1) unfolding len by simp
    moreover have "take (l_ip st - l_lit st) inp @ ?l = take (l_ip st) inp"
      using b(2) by (metis le_add_diff_inverse2 take_add)
    ultimately show ?thesis
      using put c r False len t small by (intro exI [of _ "C @ ?w # ?l"] exI [of _ rest]) simp
  qed
qed

lemma put_literal_inv:
  assumes "lzf_inv inp st" "l_lit st < 32" "l_ip st < length inp" "l_op st < length (l_out st)"
  shows "\<exists>st'. put_literal inp st = Some st' \<and> lzf_inv inp st' \<and> l_ip st' = l_ip st + 1 \<and> length (l_out st') = length (l_out st) \<and>
    (l_lit st' = l_lit st + 1 \<and> l_lit st' < 32 \<and> l_op st' = l_op st + 1 \<or> l_lit st = 31 \<and> l_lit st' = 0 \<and> l_op st' = l_op st + 2)"
proof -
  obtain C tail where c: "l_out st = C @ tail" "l_op st = length C + 1 + l_lit st" "lzf_rep C (take (l_ip st - l_lit st) inp)"
    "l_lit st \<noteq> 0 \<longrightarrow> (\<exists>h rest. tail = h # take (l_lit st) (drop (l_ip st - l_lit st) inp) @ rest)"
    and C: "length C \<le> (l_ip st - l_lit st) + (l_ip st - l_lit st) div 32"
    and b: "l_lit st \<le> l_ip st"
    using assms(1) by (auto simp: lzf_inv_def)
  let ?l = "take (l_lit st) (drop (l_ip st - l_lit st) inp)" and ?b = "inp ! l_ip st"
  have "tail \<noteq> []" using assms(4) c(1,2) by auto
  then obtain h rest where t: "tail = h # ?l @ rest" using c(4) by (cases "l_lit st = 0") (auto simp: neq_Nil_conv)
  have len: "length ?l = l_lit st" using b assms(3) by simp
  have "rest \<noteq> []" using assms(4) c(1,2) t len by auto
  then obtain x rest' where r: "rest = x # rest'" by (cases rest) auto
  have put: "mem_put (l_op st) [?b] (l_out st) = Some (C @ h # (?l @ [?b]) @ rest')"
  proof -
    have "length (C @ h # ?l) = l_op st" unfolding length_append list.size len c(2) by simp
    from mem_put_append [OF this, of "[x]" "[?b]" rest'] show ?thesis by (simp add: c(1) t r)
  qed
  have l: "?l @ [?b] = take (l_lit st + 1) (drop (l_ip st - l_lit st) inp)"
    using b assms(3) by (simp add: take_Suc_conv_app_nth)
  let ?st = "st\<lparr>l_lit := l_lit st + 1, l_op := l_op st + 1, l_ip := l_ip st + 1, l_out := C @ h # (?l @ [?b]) @ rest'\<rparr>"
  have inv: "lzf_inv inp ?st" using assms(2,3) b c(2,3) l C by (auto simp: lzf_inv_def)
  have lo: "length (l_out ?st) = length (l_out st)" using mem_put_length [OF put] by simp
  show ?thesis
  proof (cases "l_lit st + 1 = 32")
    case False
    then show ?thesis using put inv lo assms(2,3) by (simp add: put_literal_def)
  next
    case True
    have "l_op ?st - l_lit ?st - 1 < length (l_out ?st)" using lo assms(4) by simp
    from close_run [OF inv this] obtain D tail' where d:
      "mem_put (l_op ?st - l_lit ?st - 1) [of_nat (l_lit ?st) - 1] (l_out ?st) = Some (D @ tail')"
      "length (D @ tail') = length (l_out st)" "length D = l_op st + 1" "lzf_rep D (take (l_ip st + 1) inp)"
      "length D \<le> (l_ip st + 1) + (l_ip st + 1) div 32"
      using lo True by auto
    let ?st' = "?st\<lparr>l_lit := 0, l_op := l_op st + 2, l_out := D @ tail'\<rparr>"
    have "put_literal inp st = Some ?st'"
      using d(1) True assms(3) put by (simp add: put_literal_def)
    moreover have "lzf_inv inp ?st'" using assms(3) d(3-5) by (intro lzf_inv_closed [of _ D tail']) simp_all
    ultimately show ?thesis using True d(2) by auto
  qed
qed

text \<open>Matches.\<close>

lemma lzf_off_near:
  assumes "lzf_off ip ref < 8192" "ip < 2 ^ 32" "ref < 2 ^ 32"
  shows "ref < ip \<and> lzf_off ip ref = ip - ref - 1"
proof (cases "ref < ip")
  case True
  then have "(int ip - int ref - 1) mod 2 ^ 64 = int ip - int ref - 1" using assms(2) by (intro mod_pos_pos_trivial) auto
  with True show ?thesis by (simp add: lzf_off_def)
next
  case False
  then have "(int ip - int ref - 1) mod 2 ^ 64 = int ip - int ref - 1 + 2 ^ 64"
    using assms(3) by (intro int_mod_pos_eq [of _ _ "- 1"]) auto
  with False assms show ?thesis by (simp add: lzf_off_def)
qed

abbreviation same_octets :: "byte list \<Rightarrow> nat \<Rightarrow> nat \<Rightarrow> nat \<Rightarrow> bool" where
  "same_octets inp ref ip n \<equiv> \<forall>k < n. inp ! (ref + k) = inp ! (ip + k)"

lemma lzf_matches_spec:
  assumes "ip + 2 < length inp" "length inp < 2 ^ 32" "ref < 2 ^ 32"
  shows "\<exists>m. lzf_matches inp ip ref = Some m \<and>
    (m \<longrightarrow> 0 < ref \<and> ref < ip \<and> lzf_off ip ref = ip - ref - 1 \<and> lzf_off ip ref < 8192 \<and> same_octets inp ref ip 3)"
proof (cases "lzf_off ip ref < 8192 \<and> ref > 0")
  case True
  have o: "ref < ip" "lzf_off ip ref = ip - ref - 1" using lzf_off_near [of ip ref] True assms by auto
  have two: "mem_get p 2 inp = Some [inp ! p, inp ! (p + 1)]" if "p + 2 < length inp" for p
    using that by (simp add: mem_get_def numeral_2_eq_2 take_Suc_conv_app_nth)
  have "same_octets inp ref ip 3 \<longleftrightarrow> inp ! ref = inp ! ip \<and> inp ! (ref + 1) = inp ! (ip + 1) \<and> inp ! (ref + 2) = inp ! (ip + 2)"
    by (auto simp: numeral_3_eq_3 numeral_2_eq_2 less_Suc_eq)
  with True o assms(1) two [of ref] two [of ip] show ?thesis by (auto simp: lzf_matches_def)
next
  case False
  then show ?thesis by (auto simp: lzf_matches_def)
qed

lemma unrolled_spec:
  assumes "ref < ip" "ip + len + k < length inp" "same_octets inp ref ip (len + 1)"
  shows "\<exists>len' brk. unrolled k inp ref ip len = Some (len', brk) \<and>
    (if brk then len < len' \<and> len' \<le> len + k \<and> same_octets inp ref ip len'
     else len' = len + k \<and> same_octets inp ref ip (len' + 1))"
  using assms(2,3)
proof (induction k arbitrary: len)
  case (Suc k)
  show ?case
  proof (cases "inp ! (ref + (len + 1)) = inp ! (ip + (len + 1))")
    case True
    then have "same_octets inp ref ip (len + 1 + 1)" using Suc.prems(2) by (auto simp: less_Suc_eq)
    from Suc.IH [OF _ this] Suc.prems(1) obtain len' brk where
      "unrolled k inp ref ip (len + 1) = Some (len', brk)"
      "if brk then len + 1 < len' \<and> len' \<le> len + 1 + k \<and> same_octets inp ref ip len'
       else len' = len + 1 + k \<and> same_octets inp ref ip (len' + 1)" by auto
    then show ?thesis using True Suc.prems(1) assms(1) by (auto split: if_splits)
  next
    case False
    then show ?thesis using Suc.prems assms(1) by auto
  qed
qed auto

lemma extend_spec:
  assumes "ref < ip" "ip + maxlen + 2 \<le> length inp" "same_octets inp ref ip (len + 1)"
  shows "\<exists>L. extend inp ref ip maxlen len = Some L \<and> len + 1 \<le> L \<and> (L \<le> maxlen \<or> L = len + 1) \<and> same_octets inp ref ip L"
  using assms(3)
proof (induction "maxlen - len" arbitrary: len rule: less_induct)
  case less
  show ?case
  proof (cases "len + 1 < maxlen \<and> inp ! (ref + (len + 1)) = inp ! (ip + (len + 1))")
    case True
    then have "same_octets inp ref ip (len + 1 + 1)" using less.prems by (auto simp: less_Suc_eq)
    moreover have "maxlen - (len + 1) < maxlen - len" using True by linarith
    ultimately obtain L where
      "extend inp ref ip maxlen (len + 1) = Some L" "len + 1 + 1 \<le> L" "L \<le> maxlen \<or> L = len + 1 + 1" "same_octets inp ref ip L"
      using less.hyps [of "len + 1"] by blast
    then show ?thesis using True assms(1,2) by (subst extend.simps) auto
  next
    case False
    then show ?thesis using less.prems assms(1,2) by (subst extend.simps) auto
  qed
qed

lemma match_length_spec:
  assumes "ref < ip" "ip + 2 < length inp" "same_octets inp ref ip 3" "maxlen = min 264 (length inp - ip - 2)"
  shows "\<exists>L. match_length inp ref ip maxlen = Some L \<and> 3 \<le> L \<and> L \<le> 264 \<and> ip + L \<le> length inp \<and> same_octets inp ref ip L"
proof -
  have m: "ip + maxlen + 2 \<le> length inp" "maxlen \<le> 264" using assms(2,4) by auto
  show ?thesis
  proof (cases "maxlen > 16")
    case True
    obtain len brk where u: "unrolled 16 inp ref ip 2 = Some (len, brk)"
      "if brk then 2 < len \<and> len \<le> 2 + 16 \<and> same_octets inp ref ip len
       else len = 2 + 16 \<and> same_octets inp ref ip (len + 1)"
      using unrolled_spec [of ref ip 2 16 inp] True m(1) assms(1,3) by auto
    show ?thesis
    proof (cases brk)
      case True
      then show ?thesis using u m \<open>maxlen > 16\<close> by (auto simp: match_length_def)
    next
      case False
      then have len: "len = 18" "same_octets inp ref ip (len + 1)" using u(2) by auto
      from extend_spec [OF assms(1) m(1) len(2)] obtain L where
        "extend inp ref ip maxlen len = Some L" "len + 1 \<le> L" "L \<le> maxlen \<or> L = len + 1" "same_octets inp ref ip L" by blast
      then show ?thesis using u(1) False m \<open>maxlen > 16\<close> len(1) by (auto simp: match_length_def)
    qed
  next
    case False
    have "same_octets inp ref ip (2 + 1)" using assms(3) by simp
    from extend_spec [OF assms(1) m(1) this] obtain L where
      "extend inp ref ip maxlen 2 = Some L" "2 + 1 \<le> L" "L \<le> maxlen \<or> L = 2 + 1" "same_octets inp ref ip L" by blast
    then show ?thesis using False m assms(2) by (auto simp: match_length_def)
  qed
qed

text \<open>Writing a back reference behind a stream that has room for it.\<close>

lemma put_back_ref:
  assumes "length C + 3 < length (C @ tail)"
  shows "\<exists>out2 op2 out3 tail'.
    (if len < 7 then map_option (\<lambda>out. (out, length C + 1)) (mem_put (length C) [of_nat (off div 256 + len * 32)] (C @ tail))
     else do {
       out \<leftarrow> mem_put (length C) [of_nat (off div 256 + 7 * 32)] (C @ tail);
       out \<leftarrow> mem_put (length C + 1) [of_nat (len - 7)] out;
       Some (out, length C + 2)
     }) = Some (out2, op2) \<and> mem_put op2 [of_nat off] out2 = Some out3 \<and>
    out3 = (C @ back_ref off len) @ tail' \<and> length out3 = length (C @ tail) \<and> op2 + 1 = length (C @ back_ref off len)"
proof -
  obtain a b c t where t: "tail = a # b # c # t"
  proof (cases tail)
    case (Cons a r)
    then show ?thesis using assms that by (cases r; cases "tl r") auto
  qed (use assms in simp)
  have p: "mem_put (length D) [y] (D @ x # r) = Some (D @ y # r)" for D :: "byte list" and x y r
    using mem_put_append [of D "length D" "[x]" "[y]" r] by simp
  show ?thesis
  proof (cases "len < 7")
    case True
    then show ?thesis
      using p [of C "of_nat (off div 256 + len * 32)" a "b # c # t"] p [of "C @ [of_nat (off div 256 + len * 32)]" "of_nat off" b "c # t"]
      by (simp add: t back_ref_def)
  next
    case False
    then show ?thesis
      using p [of C "of_nat (off div 256 + 7 * 32)" a "b # c # t"]
        p [of "C @ [of_nat (off div 256 + 7 * 32)]" "of_nat (len - 7)" b "c # t"]
        p [of "C @ [of_nat (off div 256 + 7 * 32), of_nat (len - 7)]" "of_nat off" c t]
      by (simp add: t back_ref_def)
  qed
qed

lemma lzf_match_step_inv:
  assumes "lzf_inv inp st" "l_lit st < 32" "l_ip st + 2 < length inp" "ref < l_ip st" "same_octets inp ref (l_ip st) 3"
    "lzf_off (l_ip st) ref = l_ip st - ref - 1" "lzf_off (l_ip st) ref < 8192"
  shows "\<exists>st' next. lzf_match_step inp ref st = Some (st', next) \<and> length (l_out st') = length (l_out st) \<and>
    (next = Give_up \<longrightarrow> length (l_out st) \<le> l_op st + 4) \<and>
    (next \<noteq> Give_up \<longrightarrow> lzf_inv inp st' \<and> l_lit st' = 0 \<and> l_ip st < l_ip st' \<and> (next = Leave \<longrightarrow> length inp - 2 \<le> l_ip st'))"
proof -
  let ?ip = "l_ip st" and ?op = "l_op st - of_bool (l_lit st = 0)"
  define maxlen where "maxlen = (if length inp - ?ip - 2 > 264 then 264 else length inp - ?ip - 2)"
  have "maxlen = min 264 (length inp - ?ip - 2)" by (simp add: maxlen_def)
  from match_length_spec [OF assms(4,3,5) this] obtain L where L: "match_length inp ref ?ip maxlen = Some L"
    "3 \<le> L" "L \<le> 264" "?ip + L \<le> length inp" "same_octets inp ref ?ip L" by blast
  show ?thesis
  proof (cases "l_op st + 3 + 1 \<ge> length (l_out st) \<and> ?op + 3 + 1 \<ge> length (l_out st)")
    case True
    then show ?thesis by (auto simp: lzf_match_step_def Let_def)
  next
    case room: False
    then have "l_op st - l_lit st - 1 < length (l_out st)" by (cases "l_lit st = 0") auto
    from close_run [OF assms(1) this] obtain C tail where c:
      "mem_put (l_op st - l_lit st - 1) [of_nat (l_lit st) - 1] (l_out st) = Some (C @ tail)"
      "length (C @ tail) = length (l_out st)" "length C = ?op" "lzf_rep C (take ?ip inp)"
      "length C \<le> ?ip + ?ip div 32 + of_bool (l_lit st < 32)" by blast
    have "length C + 3 < length (C @ tail)" using room c(2,3) by auto
    from put_back_ref [OF this, of "L - 2" "lzf_off ?ip ref"] obtain out2 op2 out3 tail' where w:
      "(if L - 2 < 7 then map_option (\<lambda>out. (out, ?op + 1)) (mem_put ?op [of_nat (lzf_off ?ip ref div 256 + (L - 2) * 32)] (C @ tail))
       else do {
         out \<leftarrow> mem_put ?op [of_nat (lzf_off ?ip ref div 256 + 7 * 32)] (C @ tail);
         out \<leftarrow> mem_put (?op + 1) [of_nat (L - 2 - 7)] out;
         Some (out, ?op + 2)
       }) = Some (out2, op2)" "mem_put op2 [of_nat (lzf_off ?ip ref)] out2 = Some out3"
      "out3 = (C @ back_ref (lzf_off ?ip ref) (L - 2)) @ tail'" "length out3 = length (l_out st)"
      "op2 + 1 = length (C @ back_ref (lzf_off ?ip ref) (L - 2))"
      unfolding c(3) c(2) by blast
    have "copy_octets L (length (take ?ip inp) - lzf_off ?ip ref - 1) (take ?ip inp) = Some (take (?ip + L) inp)"
      using copy_octets_extend [OF assms(4) L(4,5)] assms(3,4,6) by simp
    then have rep: "lzf_rep (C @ back_ref (lzf_off ?ip ref) (L - 2)) (take (?ip + L) inp)"
      using assms(3,4,6,7) L(2,3) by (intro lzf_rep.copy [OF c(4)]) simp_all
    have short: "length (C @ back_ref (lzf_off ?ip ref) (L - 2)) \<le> (?ip + L) + (?ip + L) div 32"
    proof -
      have "length (back_ref (lzf_off ?ip ref) (L - 2)) + 1 \<le> L" using L(2) by (auto simp: back_ref_def)
      moreover have "?ip div 32 \<le> (?ip + L) div 32" by (intro div_le_mono) simp
      ultimately show ?thesis using c(5) by (auto split: if_splits simp: of_bool_def)
    qed
    let ?st = "st\<lparr>l_ip := ?ip + L, l_op := op2 + 2, l_lit := 0, l_out := out3\<rparr>"
    have inv: "lzf_inv inp (?st\<lparr>l_hval := h, l_htab := t\<rparr>)" "lzf_inv inp ?st" for h t
      by (rule lzf_inv_closed [of _ "C @ back_ref (lzf_off ?ip ref) (L - 2)" tail']; use rep w(3,5) L(4) short in simp)+
    have ip2: "?ip + 1 + (L - 2 + 1) = ?ip + L" using L(2) by simp
    show ?thesis
      unfolding lzf_match_step_def Let_def maxlen_def [symmetric] c(1) bind.bind_lunit L(1) w(1) prod.case w(2) ip2
      using room inv w(4) L(2,4) assms(3) by (auto simp: FRST_def NEXT_def)
  qed
qed

lemma lzf_c_loop_inv:
  assumes "lzf_inv inp st" "l_lit st < 32" "2 \<le> length inp" "length inp < 2 ^ 32"
  shows "\<exists>st' fail. lzf_c_loop inp st = Some (st', fail) \<and> length (l_out st') = length (l_out st) \<and>
    (fail \<longrightarrow> length (l_out st) \<le> length inp + length inp div 32 + 5) \<and>
    (\<not> fail \<longrightarrow> lzf_inv inp st' \<and> l_lit st' < 32 \<and> length inp - 2 \<le> l_ip st')"
  using assms(1,2)
proof (induction "length inp - l_ip st" arbitrary: st rule: less_induct)
  case less
  show ?case
  proof (cases "l_ip st < length inp - 2")
    case False
    then show ?thesis using less.prems by (subst lzf_c_loop.simps) auto
  next
    case True
    then have ip: "l_ip st + 2 < length inp" by simp
    then obtain hval where h: "NEXT (l_hval st) inp (l_ip st) = Some hval" by (simp add: NEXT_def)
    let ?ref = "unat (l_htab st (IDX hval))"
    let ?st = "st\<lparr>l_hval := hval, l_htab := (l_htab st)(IDX hval := of_nat (l_ip st))\<rparr>"
    have inv: "lzf_inv inp ?st" using less.prems(1) by (simp only: lzf_inv_hash)
    have "?ref < 2 ^ 32" using unsigned_less [of "l_htab st (IDX hval)"] by simp
    from lzf_matches_spec [OF ip assms(4) this] obtain m where m: "lzf_matches inp (l_ip st) ?ref = Some m"
      "m \<longrightarrow> ?ref < l_ip st \<and> lzf_off (l_ip st) ?ref = l_ip st - ?ref - 1 \<and> lzf_off (l_ip st) ?ref < 8192 \<and>
        same_octets inp ?ref (l_ip st) 3" by blast
    show ?thesis
    proof (cases m)
      case True
      obtain st' nxt where s: "lzf_match_step inp ?ref ?st = Some (st', nxt)" "length (l_out st') = length (l_out st)"
        "nxt = Give_up \<longrightarrow> length (l_out st) \<le> l_op st + 4"
        "nxt \<noteq> Give_up \<longrightarrow> lzf_inv inp st' \<and> l_lit st' = 0 \<and> l_ip st < l_ip st' \<and> (nxt = Leave \<longrightarrow> length inp - 2 \<le> l_ip st')"
        using lzf_match_step_inv [OF inv, of ?ref] less.prems(2) ip m(2) True by auto
      show ?thesis
      proof (cases "nxt = Go_on")
        case go: True
        with less.hyps [of st'] s(2,4) ip obtain st'' fail where
          "lzf_c_loop inp st' = Some (st'', fail)" "length (l_out st'') = length (l_out st)"
          "fail \<longrightarrow> length (l_out st) \<le> length inp + length inp div 32 + 5"
          "\<not> fail \<longrightarrow> lzf_inv inp st'' \<and> l_lit st'' < 32 \<and> length inp - 2 \<le> l_ip st''" by fastforce
        then show ?thesis using \<open>l_ip st < length inp - 2\<close> h m(1) True s(1) go by (subst lzf_c_loop.simps) (simp add: Let_def)
      next
        case False
        then show ?thesis using \<open>l_ip st < length inp - 2\<close> h m(1) True s lzf_inv_op [OF less.prems(1)]
          by (subst lzf_c_loop.simps) (cases nxt; fastforce simp: Let_def)
      qed
    next
      case False
      show ?thesis
      proof (cases "l_op st \<ge> length (l_out st)")
        case full: True
        then show ?thesis using True h m(1) False lzf_inv_op [OF less.prems(1)] by (subst lzf_c_loop.simps) (force simp: Let_def)
      next
        case room: False
        obtain st' where s: "put_literal inp ?st = Some st'" "lzf_inv inp st'" "l_ip st' = l_ip st + 1"
          "length (l_out st') = length (l_out st)" "l_lit st' < 32"
          using put_literal_inv [OF inv] less.prems(2) ip room by fastforce
        with less.hyps [of st'] ip obtain st'' fail where
          "lzf_c_loop inp st' = Some (st'', fail)" "length (l_out st'') = length (l_out st)"
          "fail \<longrightarrow> length (l_out st) \<le> length inp + length inp div 32 + 5"
          "\<not> fail \<longrightarrow> lzf_inv inp st'' \<and> l_lit st'' < 32 \<and> length inp - 2 \<le> l_ip st''" by fastforce
        then show ?thesis using True h m(1) False room s(1) by (subst lzf_c_loop.simps) (simp add: Let_def)
      qed
    qed
  qed
qed

text \<open>The last two bytes add at most one header.\<close>

lemma lzf_tail_inv:
  assumes "lzf_inv inp st" "l_lit st < 32" "length inp - 2 \<le> l_ip st" "l_op st + 3 \<le> length (l_out st)"
  shows "\<exists>st'. lzf_tail (length inp - l_ip st) inp st = Some st' \<and> lzf_inv inp st' \<and> l_ip st' = length inp \<and>
    length (l_out st') = length (l_out st) \<and> l_op st' \<le> length (l_out st)"
proof -
  have le: "l_ip st \<le> length inp" using assms(1) by (simp add: lzf_inv_def)
  with assms(3) consider "length inp = l_ip st" | "length inp = l_ip st + 1" | "length inp = l_ip st + 2" by linarith
  then show ?thesis
  proof cases
    case 1
    then show ?thesis using assms by simp
  next
    case 2
    with put_literal_inv [OF assms(1,2)] assms(4) show ?thesis by fastforce
  next
    case 3
    with put_literal_inv [OF assms(1,2)] assms(4) obtain st1 where s: "put_literal inp st = Some st1" "lzf_inv inp st1"
      "l_ip st1 = l_ip st + 1" "length (l_out st1) = length (l_out st)"
      "l_lit st1 = l_lit st + 1 \<and> l_lit st1 < 32 \<and> l_op st1 = l_op st + 1 \<or> l_lit st = 31 \<and> l_lit st1 = 0 \<and> l_op st1 = l_op st + 2"
      by auto
    then have "l_lit st1 < 32" "l_ip st1 < length inp" "l_op st1 < length (l_out st1)" using 3 assms(4) by auto
    from put_literal_inv [OF s(2) this] s 3 assms(4) show ?thesis by (fastforce simp: numeral_2_eq_2)
  qed
qed

lemma lzf_compress_spec:
  assumes "2 \<le> length inp" "length inp < 2 ^ 32"
  shows "\<exists>n out. lzf_compress htab inp out0 = Some (n, out) \<and> length out = length out0 \<and> n \<le> length out0 \<and>
    (n = 0 \<longrightarrow> length out0 \<le> length inp + length inp div 32 + 5) \<and> (n \<noteq> 0 \<longrightarrow> lzf_rep (take n out) inp)"
proof (cases "out0 = []")
  case True
  then show ?thesis using assms by (simp add: lzf_compress_def)
next
  case False
  have "1 < length inp" "0 < length inp" using assms(1) by auto
  then obtain hval where h: "FRST inp 0 = Some hval" by (simp add: FRST_def)
  let ?st = "\<lparr>l_ip = 0, l_op = 1, l_lit = 0, l_hval = hval, l_htab = htab, l_out = out0\<rparr>"
  have "lzf_inv inp ?st" by (auto simp: lzf_inv_def lzf_rep.empty)
  from lzf_c_loop_inv [OF this _ assms] obtain st fail where s: "lzf_c_loop inp ?st = Some (st, fail)"
    "length (l_out st) = length out0"
    "fail \<longrightarrow> length out0 \<le> length inp + length inp div 32 + 5"
    "\<not> fail \<longrightarrow> lzf_inv inp st \<and> l_lit st < 32 \<and> length inp - 2 \<le> l_ip st" by auto
  note unf = lzf_compress_def h bind.bind_lunit s(1) prod.case
  show ?thesis
  proof (cases "fail \<or> l_op st + 3 > length (l_out st)")
    case True
    then show ?thesis unfolding unf using s(2-4) False assms(1) lzf_inv_op [of inp st] by auto
  next
    case ok: False
    then obtain st1 where t: "lzf_tail (length inp - l_ip st) inp st = Some st1" "lzf_inv inp st1" "l_ip st1 = length inp"
      "length (l_out st1) = length out0" "l_op st1 \<le> length out0"
      using lzf_tail_inv [of inp st] s(2,4) by auto
    have "l_op st1 - l_lit st1 - 1 < length (l_out st1)" using t(4,5) False by (cases "l_op st1") auto
    from close_run [OF t(2) this] obtain C tail where c:
      "mem_put (l_op st1 - l_lit st1 - 1) [of_nat (l_lit st1) - 1] (l_out st1) = Some (C @ tail)"
      "length (C @ tail) = length out0" "length C = l_op st1 - of_bool (l_lit st1 = 0)" "lzf_rep C inp"
      unfolding t(3,4) by auto
    have "lzf_compress htab inp out0 = Some (length C, C @ tail)"
      unfolding unf t(1) c(1) c(3) using ok False assms(1) by auto
    moreover have "C \<noteq> []" using lzf_rep_nonempty [OF c(4)] assms(1) by (cases inp) auto
    ultimately show ?thesis using c(2,4) by simp
  qed
qed

section \<open>The decompressor on arbitrary input\<close>

lemma copy_octets_in: "ref < length out \<Longrightarrow> \<exists>out'. copy_octets n ref out = Some out'"
  by (induction n arbitrary: ref out) auto

text \<open>A round returns, and what it writes fits.\<close>

definition fits :: "nat \<Rightarrow> byte list \<Rightarrow> (lzf_error + nat \<times> byte list) option \<Rightarrow> bool" where
  "fits n out r \<longleftrightarrow> (\<exists>e. r = Some (Inl e)) \<or> (\<exists>ip' out'. r = Some (Inr (ip', out')) \<and> length out < length out' \<and> length out' \<le> n)"

lemma lzf_d_ref_safe:
  assumes "ip < length inp" "ref < int (length out)"
  shows "fits n out (lzf_d_ref inp n ip out len ref)"
proof -
  let ?ref = "ref - int (unat (inp ! ip))"
  have "\<exists>out'. copy_ref len (nat ?ref) out = Some out' \<and> length out' = length out + len + 2" if "\<not> ?ref < 0"
  proof -
    have "nat ?ref < length out" using that assms(2) by linarith
    from copy_octets_in [OF this, of "len + 2"] obtain out' where "copy_octets (len + 2) (nat ?ref) out = Some out'" by blast
    from this copy_octets_length [OF this] show ?thesis unfolding copy_ref_octets by simp
  qed
  then show ?thesis
    unfolding lzf_d_ref_def fits_def rd_in [OF assms(1)] Let_def bind.bind_lunit by (cases "?ref < 0") auto
qed

lemma lzf_d_step_safe: "ip < length inp \<Longrightarrow> fits n out (lzf_d_step inp n ip out)"
  using lzf_d_ref_safe [of "ip + 2" inp] lzf_d_ref_safe [of "ip + 1" inp]
  by (simp add: lzf_d_step_def Let_def) (auto simp: fits_def mem_get_def)

lemma lzf_d_loop_safe:
  assumes "ip < length inp" "length out \<le> n"
  shows "\<exists>r. lzf_d_loop inp n ip out = Some r \<and> (\<forall>out'. r = Inr out' \<longrightarrow> out' \<noteq> [] \<and> length out' \<le> n)"
  using assms
proof (induction inp n ip out rule: lzf_d_loop.induct)
  case (1 inp n ip out)
  consider e where "lzf_d_step inp n ip out = Some (Inl e)"
    | ip' out' where "lzf_d_step inp n ip out = Some (Inr (ip', out'))" "length out < length out'" "length out' \<le> n"
    using lzf_d_step_safe [OF 1(2), of n out] by (auto simp: fits_def)
  then show ?case
  proof cases
    case 1
    then show ?thesis by (simp add: lzf_d_loop.simps [of inp])
  next
    case 2
    then show ?thesis using "1.IH" [OF 2(1) refl refl] by (subst lzf_d_loop.simps) auto
  qed
qed

section \<open>Properties\<close>

text \<open>C7: Compression and decompression are inverse to each other.  Whatever the uninitialised hash table
  holds and however small the output block is, \<open>lzf_compress\<close> returns without an access outside its
  input and its output; when it does not give up, decompressing what it wrote gives back the input,
  for every buffer that can hold it; and it does not give up when the output has room for one byte more
  in 32 and six more.\<close>

theorem lzf_roundtrip:
  assumes "2 \<le> length inp" "length inp < 2 ^ 32"
  shows "\<exists>n out. lzf_compress htab inp out0 = Some (n, out) \<and> length out = length out0 \<and> n \<le> length out0 \<and>
    (n \<noteq> 0 \<longrightarrow> (\<forall>out_len \<ge> length inp. lzf_decompress (take n out) out_len = Some (Inr inp))) \<and>
    (length inp + length inp div 32 + 6 \<le> length out0 \<longrightarrow> n \<noteq> 0)"
proof -
  obtain n out where c: "lzf_compress htab inp out0 = Some (n, out)" "length out = length out0" "n \<le> length out0"
    "n = 0 \<longrightarrow> length out0 \<le> length inp + length inp div 32 + 5" "n \<noteq> 0 \<longrightarrow> lzf_rep (take n out) inp"
    using lzf_compress_spec [OF assms] by blast
  moreover have "take n out \<noteq> []" if "n \<noteq> 0" using that c(2,3) by (cases out) auto
  moreover have "n \<noteq> 0" if "length inp + length inp div 32 + 6 \<le> length out0" using that c(4) by auto
  ultimately show ?thesis using lzf_rep_decompress by blast
qed

theorem lzf_roundtrip_witness:
  "\<exists>n out. lzf_compress (\<lambda>_. 0) (replicate 40 65) (replicate 47 0) = Some (n, out) \<and> n \<noteq> 0 \<and>
    lzf_decompress (take n out) 40 = Some (Inr (replicate 40 65))"
proof -
  obtain n out where "lzf_compress (\<lambda>_. 0) (replicate 40 65) (replicate 47 0) = Some (n, out)"
    "n \<noteq> 0 \<longrightarrow> (\<forall>out_len \<ge> length (replicate 40 (65 :: byte)). lzf_decompress (take n out) out_len = Some (Inr (replicate 40 65)))"
    "length (replicate 40 (65 :: byte)) + length (replicate 40 (65 :: byte)) div 32 + 6 \<le> length (replicate 47 (0 :: byte)) \<longrightarrow> n \<noteq> 0"
    using lzf_roundtrip [of "replicate 40 65" "\<lambda>_. 0" "replicate 47 0"] by auto
  then show ?thesis by fastforce
qed

text \<open>C19: On any input that is not empty, however corrupt, \<open>lzf_decompress\<close> returns without an access
  outside the input or the output: it reports an error or fills between one and \<open>out_len\<close> bytes.\<close>

theorem lzf_decompress_safe:
  assumes "inp \<noteq> []"
  shows "\<exists>r. lzf_decompress inp out_len = Some r \<and> (\<forall>out. r = Inr out \<longrightarrow> out \<noteq> [] \<and> length out \<le> out_len)"
  unfolding lzf_decompress_def using assms by (intro lzf_d_loop_safe) simp_all

theorem lzf_decompress_safe_witness:
  "\<exists>r. lzf_decompress [255, 255, 255, 7] 100 = Some r \<and> (\<forall>out. r = Inr out \<longrightarrow> length out \<le> 100)"
  using lzf_decompress_safe [of "[255, 255, 255, 7]" 100] by auto

text \<open>An empty input is read before it is checked, and so is the second byte of an input of one byte.\<close>

lemma lzf_decompress_empty: "lzf_decompress [] out_len = None"
  by (simp add: lzf_decompress_def lzf_d_loop.simps lzf_d_step_def rd_def)

lemma lzf_compress_one: "out0 \<noteq> [] \<Longrightarrow> lzf_compress htab [b] out0 = None"
  by (simp add: lzf_compress_def FRST_def rd_def)

end
