(* ===== verification/Intset.thy ===== *)
theory Intset
  imports Bytes Refine
begin

text \<open>
  The integer sets of \<open>intset.c\<close>: a sorted array of 16, 32 or 64 bit integers in one block of
  bytes, searched by bisection, and widened in place when a value does not fit.  The field
  \<open>contents\<close> is the allocated block behind the header; an access outside it is \<open>None\<close>.  Lengths and
  byte counts are \<open>uint32_t\<close> and wrap.
\<close>

section \<open>Model\<close>

definition INTSET_ENC_INT16 :: nat where "INTSET_ENC_INT16 = 2"
definition INTSET_ENC_INT32 :: nat where "INTSET_ENC_INT32 = 4"
definition INTSET_ENC_INT64 :: nat where "INTSET_ENC_INT64 = 8"

lemmas intset_encs = INTSET_ENC_INT16_def INTSET_ENC_INT32_def INTSET_ENC_INT64_def

record intset =
  is_encoding :: nat
  is_length :: nat
  contents :: "byte list"

definition intsetValueEncoding :: "int \<Rightarrow> nat" where
  "intsetValueEncoding v =
    (if v < - (2 ^ 31) \<or> v > 2 ^ 31 - 1 then INTSET_ENC_INT64
     else if v < - (2 ^ 15) \<or> v > 2 ^ 15 - 1 then INTSET_ENC_INT32
     else INTSET_ENC_INT16)"

text \<open>The three branches on the encoding differ in the element width only.\<close>

definition enc_width :: "nat \<Rightarrow> nat" where
  "enc_width enc = (if enc = INTSET_ENC_INT64 then 8 else if enc = INTSET_ENC_INT32 then 4 else 2)"

definition intsetGetEncoded :: "intset \<Rightarrow> int \<Rightarrow> nat \<Rightarrow> int option" where
  "intsetGetEncoded s pos enc =
    (if pos < 0 then None
     else map_option le_int (mem_get (nat pos * enc_width enc) (enc_width enc) (contents s)))"

definition intsetGetRaw :: "intset \<Rightarrow> int \<Rightarrow> int option" where
  "intsetGetRaw s pos = intsetGetEncoded s pos (is_encoding s)"

definition intsetSet :: "intset \<Rightarrow> int \<Rightarrow> int \<Rightarrow> intset option" where
  "intsetSet s pos v =
    (if pos < 0 then None
     else
       (let w = enc_width (is_encoding s)
        in map_option (\<lambda>c. s\<lparr>contents := c\<rparr>) (mem_put (nat pos * w) (le_sbytes w v) (contents s))))"

definition intsetNew :: intset where
  "intsetNew = \<lparr>is_encoding = INTSET_ENC_INT16, is_length = 0, contents = []\<rparr>"

definition intsetResize :: "(nat \<Rightarrow> byte) \<Rightarrow> intset \<Rightarrow> nat \<Rightarrow> intset" where
  "intsetResize junk s len =
    s\<lparr>contents := mem_realloc junk (len * is_encoding s mod 2 ^ 32) (contents s)\<rparr>"

text \<open>The bisection loop of \<open>intsetSearch\<close>: the final values of \<open>min\<close>, \<open>mid\<close> and \<open>cur\<close>.\<close>

function search_loop :: "intset \<Rightarrow> int \<Rightarrow> int \<Rightarrow> int \<Rightarrow> int \<Rightarrow> int \<Rightarrow> (int \<times> int \<times> int) option" where
  "search_loop s v mn mx mid cur =
    (if mx \<ge> mn then
       (let mid = (mn + mx) div 2
        in case intsetGetRaw s mid of
             None \<Rightarrow> None
           | Some cur \<Rightarrow>
               if v > cur then search_loop s v (mid + 1) mx mid cur
               else if v < cur then search_loop s v mn (mid - 1) mid cur
               else Some (mn, mid, cur))
     else Some (mn, mid, cur))"
  by pat_completeness auto
termination
  by (relation "measure (\<lambda>(s, v, mn, mx, mid, cur). nat (mx - mn + 1))") auto

declare search_loop.simps [simp del]

text \<open>\<open>intsetSearch\<close>: whether the value is there, and \<open>*pos\<close>.\<close>

definition intsetSearch :: "intset \<Rightarrow> int \<Rightarrow> (bool \<times> nat) option" where
  "intsetSearch s v =
    (let mx = int (is_length s) - 1
     in if is_length s = 0 then Some (False, 0)
        else
          do {
            last \<leftarrow> intsetGetRaw s mx;
            if v > last then Some (False, is_length s)
            else
              do {
                first \<leftarrow> intsetGetRaw s 0;
                if v < first then Some (False, 0)
                else
                  do {
                    (mn, mid, cur) \<leftarrow> search_loop s v 0 mx (- 1) (- 1);
                    Some (if v = cur then (True, nat mid) else (False, nat mn))
                  }
              }
          })"

text \<open>The loop \<open>while(length--)\<close> of \<open>intsetUpgradeAndAdd\<close>, from the last element to the first.\<close>

fun upgrade_loop :: "nat \<Rightarrow> nat \<Rightarrow> nat \<Rightarrow> intset \<Rightarrow> intset option" where
  "upgrade_loop 0 curenc prepend s = Some s"
| "upgrade_loop (Suc len) curenc prepend s =
    do {
      v \<leftarrow> intsetGetEncoded s (int len) curenc;
      s1 \<leftarrow> intsetSet s (int (len + prepend)) v;
      upgrade_loop len curenc prepend s1
    }"

definition intsetUpgradeAndAdd :: "(nat \<Rightarrow> byte) \<Rightarrow> intset \<Rightarrow> int \<Rightarrow> intset option" where
  "intsetUpgradeAndAdd junk s v =
    do {
      let curenc = is_encoding s;
      let newenc = intsetValueEncoding v;
      let len = is_length s;
      let prepend = (if v < 0 then 1 else 0);
      let s1 = intsetResize junk (s\<lparr>is_encoding := newenc\<rparr>) ((is_length s + 1) mod 2 ^ 32);
      s2 \<leftarrow> upgrade_loop len curenc prepend s1;
      s3 \<leftarrow> (if prepend \<noteq> 0 then intsetSet s2 0 v else intsetSet s2 (int (is_length s2)) v);
      Some (s3\<lparr>is_length := (is_length s3 + 1) mod 2 ^ 32\<rparr>)
    }"

definition intsetMoveTail :: "intset \<Rightarrow> nat \<Rightarrow> nat \<Rightarrow> intset option" where
  "intsetMoveTail s from to =
    (let w = enc_width (is_encoding s);
         bytes = (is_length s + 2 ^ 32 - from) mod 2 ^ 32 * w mod 2 ^ 32
     in map_option (\<lambda>c. s\<lparr>contents := c\<rparr>) (mem_move (to * w) (from * w) bytes (contents s)))"

text \<open>The second components are \<open>*success\<close>.\<close>

definition intsetAdd :: "(nat \<Rightarrow> byte) \<Rightarrow> intset \<Rightarrow> int \<Rightarrow> (intset \<times> bool) option" where
  "intsetAdd junk s v =
    (if intsetValueEncoding v > is_encoding s
     then map_option (\<lambda>s1. (s1, True)) (intsetUpgradeAndAdd junk s v)
     else
       do {
         (found, pos) \<leftarrow> intsetSearch s v;
         if found then Some (s, False)
         else
           do {
             let s1 = intsetResize junk s ((is_length s + 1) mod 2 ^ 32);
             s2 \<leftarrow> (if pos < is_length s1 then intsetMoveTail s1 pos (pos + 1) else Some s1);
             s3 \<leftarrow> intsetSet s2 (int pos) v;
             Some (s3\<lparr>is_length := (is_length s3 + 1) mod 2 ^ 32\<rparr>, True)
           }
       })"

definition intsetRemove :: "(nat \<Rightarrow> byte) \<Rightarrow> intset \<Rightarrow> int \<Rightarrow> (intset \<times> bool) option" where
  "intsetRemove junk s v =
    (if intsetValueEncoding v \<le> is_encoding s then
       do {
         (found, pos) \<leftarrow> intsetSearch s v;
         if found then
           do {
             let len = is_length s;
             s1 \<leftarrow> (if pos < len - 1 then intsetMoveTail s (pos + 1) pos else Some s);
             let s2 = intsetResize junk s1 (len - 1);
             Some (s2\<lparr>is_length := len - 1\<rparr>, True)
           }
         else Some (s, False)
       }
     else Some (s, False))"

definition intsetFind :: "intset \<Rightarrow> int \<Rightarrow> bool option" where
  "intsetFind s v =
    (if intsetValueEncoding v \<le> is_encoding s then map_option fst (intsetSearch s v) else Some False)"

text \<open>\<open>intsetRandom\<close>, with the result of \<open>rand()\<close> as an argument; \<open>None\<close> also stands for the division
  by a length of 0.\<close>

definition intsetRandom :: "nat \<Rightarrow> intset \<Rightarrow> int option" where
  "intsetRandom rnd s =
    (if is_length s = 0 then None else intsetGetRaw s (int (rnd mod is_length s)))"

text \<open>\<open>intsetGet\<close>: the inner option is \<open>None\<close> when the position is out of range.\<close>

definition intsetGet :: "intset \<Rightarrow> nat \<Rightarrow> int option option" where
  "intsetGet s pos =
    (if pos < is_length s then map_option Some (intsetGetRaw s (int pos)) else Some None)"

definition intsetLen :: "intset \<Rightarrow> nat" where
  "intsetLen s = is_length s"

text \<open>The header has two \<open>uint32_t\<close> fields.\<close>

definition intsetBlobLen :: "intset \<Rightarrow> nat" where
  "intsetBlobLen s = 8 + is_length s * is_encoding s mod 2 ^ 32"

section \<open>Representation\<close>

definition enc_list :: "nat \<Rightarrow> int list \<Rightarrow> byte list" where
  "enc_list w vs = concat (map (le_sbytes w) vs)"

definition fits :: "nat \<Rightarrow> int \<Rightarrow> bool" where
  "fits w v \<longleftrightarrow> - (256 ^ w div 2) \<le> v \<and> v < 256 ^ w div 2"

definition rep :: "intset \<Rightarrow> int list \<Rightarrow> bool" where
  "rep s vs \<longleftrightarrow> is_encoding s \<in> {2, 4, 8} \<and> is_length s = length vs \<and>
     contents s = enc_list (is_encoding s) vs \<and> list_all (fits (is_encoding s)) vs"

lemma length_enc_list [simp]: "length (enc_list w vs) = length vs * w"
  by (simp add: enc_list_def length_concat comp_def sum_list_triv)

lemma enc_list_append [simp]: "enc_list w (xs @ ys) = enc_list w xs @ enc_list w ys"
  by (simp add: enc_list_def)

lemma enc_list_Nil [simp]: "enc_list w [] = []"
  by (simp add: enc_list_def)

lemma enc_list_Cons [simp]: "enc_list w (x # ys) = le_sbytes w x @ enc_list w ys"
  by (simp add: enc_list_def)

lemma enc_width_id: "enc \<in> {2, 4, 8} \<Longrightarrow> enc_width enc = enc"
  by (auto simp: enc_width_def intset_encs)

lemma le_int_fits: "w \<in> {2, 4, 8} \<Longrightarrow> fits w v \<Longrightarrow> le_int (le_sbytes w v) = v"
  by (rule le_int_le_sbytes) (auto simp: fits_def)

lemma fits_mono: "fits w v \<Longrightarrow> w \<le> w' \<Longrightarrow> w \<in> {2, 4, 8} \<Longrightarrow> w' \<in> {2, 4, 8} \<Longrightarrow> fits w' v"
  by (auto simp: fits_def)

lemma valenc_fits: "- (2 ^ 63) \<le> v \<Longrightarrow> v < 2 ^ 63 \<Longrightarrow> w \<in> {2, 4, 8} \<Longrightarrow>
    fits w v \<longleftrightarrow> intsetValueEncoding v \<le> w"
  by (auto simp: fits_def intsetValueEncoding_def intset_encs)

lemma valenc_cases: "intsetValueEncoding v \<in> {2, 4, 8}"
  by (auto simp: intsetValueEncoding_def intset_encs)

lemma enc_list_split: "p < length vs \<Longrightarrow>
    enc_list w vs = enc_list w (take p vs) @ le_sbytes w (vs ! p) @ enc_list w (drop (Suc p) vs)"
  by (metis id_take_nth_drop enc_list_append enc_list_Cons)

lemma get_encoded:
  assumes "enc \<in> {2, 4, 8}" "p < length vs" "fits enc (vs ! p)"
    "contents s = enc_list enc vs @ rest"
  shows "intsetGetEncoded s (int p) enc = Some (vs ! p)"
  using assms
  by (simp add: intsetGetEncoded_def enc_width_id enc_list_split [of p vs] mem_get_append le_int_fits del: insert_iff)

lemma rep_get: "rep s vs \<Longrightarrow> p < length vs \<Longrightarrow> intsetGetRaw s (int p) = Some (vs ! p)"
  unfolding intsetGetRaw_def rep_def by (rule get_encoded [where rest = "[]"]) (auto simp: list_all_length)

lemma set_encoded:
  assumes "is_encoding s \<in> {2, 4, 8}" "contents s = a @ b @ c" "length a = p * is_encoding s"
    "length b = is_encoding s"
  shows "intsetSet s (int p) v = Some (s\<lparr>contents := a @ le_sbytes (is_encoding s) v @ c\<rparr>)"
  using assms by (simp add: intsetSet_def enc_width_id mem_put_append del: insert_iff)

section \<open>Search\<close>

text \<open>What a search for \<open>v\<close> returns: its position, or the position where it belongs.\<close>

definition search_result :: "int list \<Rightarrow> int \<Rightarrow> bool \<Rightarrow> nat \<Rightarrow> bool" where
  "search_result vs v found pos \<longleftrightarrow>
     (if found then pos < length vs \<and> vs ! pos = v
      else pos \<le> length vs \<and> (\<forall>i < pos. vs ! i < v) \<and> (\<forall>i. pos \<le> i \<and> i < length vs \<longrightarrow> v < vs ! i))"

lemma sorted_nth_le: "sorted_wrt (<) (vs :: int list) \<Longrightarrow> i \<le> j \<Longrightarrow> j < length vs \<Longrightarrow> vs ! i \<le> vs ! j"
  using sorted_wrt_nth_less [of "(<)" vs i j] by (cases "i = j") auto

lemma search_loop_spec:
  assumes "rep s vs" "sorted_wrt (<) vs" "0 \<le> mn" "mx < int (length vs)" "mn \<le> mx + 1"
    "\<forall>i < nat mn. vs ! i < v" "\<forall>i. mx < int i \<and> i < length vs \<longrightarrow> v < vs ! i" "mn \<le> mx \<or> cur \<noteq> v"
  shows "\<exists>mn' mid' cur'. search_loop s v mn mx mid cur = Some (mn', mid', cur') \<and>
     search_result vs v (v = cur') (nat (if v = cur' then mid' else mn'))"
  using assms
proof (induction s v mn mx mid cur rule: search_loop.induct)
  case (1 s v mn mx mid cur)
  let ?m = "(mn + mx) div 2"
  show ?case
  proof (cases "mn \<le> mx")
    case False
    with 1(3-) show ?thesis by (subst search_loop.simps) (auto simp: search_result_def)
  next
    case True
    have m: "mn \<le> ?m" "?m \<le> mx" using True by auto
    then have ml: "nat ?m < length vs" and m0: "0 \<le> ?m" using 1(5,6) by linarith+
    have get: "intsetGetRaw s ?m = Some (vs ! nat ?m)" using rep_get [OF 1(3) ml] m0 by simp
    note le = sorted_nth_le [OF 1(4)]
    consider "v > vs ! nat ?m" | "v < vs ! nat ?m" | "v = vs ! nat ?m" by linarith
    then show ?thesis
    proof cases
      case 1
      have "\<forall>i < nat (?m + 1). vs ! i < v"
      proof (intro allI impI)
        fix i assume "i < nat (?m + 1)"
        then have "i \<le> nat ?m" by linarith
        with le [OF this ml] 1 show "vs ! i < v" by linarith
      qed
      moreover have "search_loop s v mn mx mid cur = search_loop s v (?m + 1) mx ?m (vs ! nat ?m)"
        using True get 1 by (subst search_loop.simps) (simp add: Let_def)
      ultimately show ?thesis
        using "1.IH"(1) [OF True refl get 1] 1 m m0 "1.prems" by simp
    next
      case 2
      have "\<forall>i. ?m - 1 < int i \<and> i < length vs \<longrightarrow> v < vs ! i"
      proof (intro allI impI)
        fix i assume i: "?m - 1 < int i \<and> i < length vs"
        then have "nat ?m \<le> i" by linarith
        with le [OF this] i 2 show "v < vs ! i" by fastforce
      qed
      moreover have "search_loop s v mn mx mid cur = search_loop s v mn (?m - 1) ?m (vs ! nat ?m)"
        using True get 2 by (subst search_loop.simps) (simp add: Let_def)
      ultimately show ?thesis
        using "1.IH"(2) [OF True refl get _ 2] 2 m m0 "1.prems" by simp
    next
      case 3
      then show ?thesis
        using m m0 ml True get by (subst search_loop.simps) (auto simp: search_result_def)
    qed
  qed
qed

lemma intsetSearch_spec:
  assumes r: "rep s vs" and so: "sorted_wrt (<) vs"
  obtains found pos where "intsetSearch s v = Some (found, pos)" "search_result vs v found pos"
proof (cases "vs = []")
  case True
  with r show ?thesis
    by (intro that [of False 0]) (auto simp: intsetSearch_def rep_def search_result_def)
next
  case False
  then have n: "0 < length vs" "length vs - 1 < length vs" by auto
  have len: "is_length s = length vs" using r by (simp add: rep_def)
  have mx: "int (length vs) - 1 = int (length vs - 1)" using n by linarith
  have g: "intsetGetRaw s (int (length vs) - 1) = Some (vs ! (length vs - 1))" "intsetGetRaw s 0 = Some (vs ! 0)"
    unfolding mx using rep_get [OF r n(2)] rep_get [OF r n(1)] by simp_all
  note le = sorted_nth_le [OF so]
  consider (hi) "v > vs ! (length vs - 1)" | (lo) "v < vs ! 0" | (mid) "\<not> v > vs ! (length vs - 1)" "\<not> v < vs ! 0"
    by blast
  then show ?thesis
  proof cases
    case hi
    have "vs ! i < v" if "i < length vs" for i
      using le [of i "length vs - 1"] that n(2) hi by linarith
    with hi g len n show ?thesis
      by (intro that [of False "length vs"]) (auto simp: intsetSearch_def search_result_def)
  next
    case lo
    have "v < vs ! i" if "i < length vs" for i using le [of 0 i] that lo by linarith
    moreover from this [OF n(2)] have "\<not> v > vs ! (length vs - 1)" by simp
    ultimately show ?thesis
      using lo g len n
      by (intro that [of False 0]) (auto simp: intsetSearch_def search_result_def Let_def)
  next
    case mid
    obtain mn' mid' cur' where "search_loop s v 0 (int (length vs) - 1) (- 1) (- 1) = Some (mn', mid', cur')"
      "search_result vs v (v = cur') (nat (if v = cur' then mid' else mn'))"
      using search_loop_spec [OF r so, of 0 "int (length vs) - 1" v "- 1" "- 1"] n by auto
    with mid g len n show ?thesis
      by (intro that [of "v = cur'" "nat (if v = cur' then mid' else mn')"]) (auto simp: intsetSearch_def Let_def)
  qed
qed

lemma search_found: "search_result vs v found pos \<Longrightarrow> found \<longleftrightarrow> v \<in> set vs"
  unfolding search_result_def in_set_conv_nth by (metis linorder_not_le order_less_irrefl)

lemma search_insert_sorted:
  assumes "sorted_wrt (<) vs" "search_result vs v False pos"
  shows "sorted_wrt (<) (take pos vs @ v # drop pos vs)"
proof -
  have "\<forall>x \<in> set (take pos vs). x < v" using assms(2) by (auto simp: search_result_def in_set_conv_nth)
  moreover have "\<forall>x \<in> set (drop pos vs). v < x" using assms(2) by (auto simp: search_result_def in_set_conv_nth)
  moreover have "sorted_wrt (<) (take pos vs @ drop pos vs)" using assms(1) by simp
  ultimately show ?thesis unfolding sorted_wrt_append by auto
qed

section \<open>Operations\<close>

text \<open>The block sizes fit \<open>uint32_t\<close> as long as the set has fewer than \<open>2 ^ 28\<close> elements.\<close>

abbreviation is_room :: "int list \<Rightarrow> bool" where
  "is_room vs \<equiv> length vs < 2 ^ 28"

lemma room_bytes:
  fixes n w :: nat
  assumes "w \<in> {2, 4, 8}" "n \<le> 2 ^ 28"
  shows "n * w mod 2 ^ 32 = n * w" "n mod 2 ^ 32 = n"
proof -
  have "n * w \<le> 2 ^ 28 * 8" using assms by (intro mult_le_mono) auto
  then show "n * w mod 2 ^ 32 = n * w" by simp
  show "n mod 2 ^ 32 = n" using assms(2) by simp
qed

lemma u32_diff: "p \<le> n \<Longrightarrow> n < 2 ^ 32 \<Longrightarrow> (n + 2 ^ 32 - p) mod 2 ^ 32 = n - (p :: nat)"
proof -
  assume "p \<le> n" "n < 2 ^ 32"
  moreover from this have "n + 2 ^ 32 - p = (n - p) + 2 ^ 32" by simp
  ultimately show ?thesis by (simp only: mod_add_self2) simp
qed

lemma resize_grow:
  assumes "rep s vs" "is_room vs"
  shows "\<exists>j. intsetResize junk s ((is_length s + 1) mod 2 ^ 32) = s\<lparr>contents := enc_list (is_encoding s) vs @ j\<rparr> \<and>
    length j = is_encoding s"
proof -
  have "is_encoding s \<in> {2, 4, 8}" "is_length s + 1 \<le> 2 ^ 28" using assms by (auto simp: rep_def)
  note rb = room_bytes [OF this]
  show ?thesis
    using assms rb
    by (intro exI [of _ "map junk [length vs * is_encoding s..<(length vs + 1) * is_encoding s]"])
      (simp add: intsetResize_def rep_def mem_realloc_grow)
qed

lemma move_tail_right:
  assumes "is_encoding s \<in> {2, 4, 8}" "is_room vs" "is_length s = length vs" "p \<le> length vs"
    "contents s = enc_list (is_encoding s) vs @ j" "length j = is_encoding s"
  shows "\<exists>x. intsetMoveTail s p (p + 1) =
      Some (s\<lparr>contents := enc_list (is_encoding s) (take p vs) @ x @ enc_list (is_encoding s) (drop p vs)\<rparr>) \<and>
    length x = is_encoding s"
proof -
  let ?w = "is_encoding s"
  have "(is_length s + 2 ^ 32 - p) mod 2 ^ 32 = length vs - p" using assms(2-4) u32_diff [of p "length vs"] by simp
  moreover have "(length vs - p) * ?w mod 2 ^ 32 = (length vs - p) * ?w"
    using assms(2) by (intro room_bytes assms(1)) simp
  moreover have "contents s = enc_list ?w (take p vs) @ enc_list ?w (drop p vs) @ j"
    using assms(5) by (metis append.assoc append_take_drop_id enc_list_append)
  moreover have "mem_move ((p + 1) * ?w) (p * ?w) ((length vs - p) * ?w)
      (enc_list ?w (take p vs) @ enc_list ?w (drop p vs) @ j) =
    Some (enc_list ?w (take p vs) @ take (length j) (enc_list ?w (drop p vs) @ j) @ enc_list ?w (drop p vs))"
    using assms(4,6) by (intro mem_move_right) auto
  ultimately show ?thesis
    using assms(1,6)
    by (intro exI [of _ "take (length j) (enc_list ?w (drop p vs) @ j)"])
      (simp add: intsetMoveTail_def enc_width_id Let_def del: insert_iff take_append)
qed

text \<open>The back-to-front loop of an upgrade, seen on the block: what is still in the old encoding, free
  space, and what has been converted.\<close>

lemma upgrade_loop_spec:
  assumes "is_encoding s \<in> {2, 4, 8}" "cur \<in> {2, 4, 8}" "cur \<le> is_encoding s" "list_all (fits cur) vs" "k \<le> length vs"
    "contents s = enc_list cur (take k vs) @ gap @ enc_list (is_encoding s) (drop k vs) @ tail"
    "length (enc_list cur (take k vs) @ gap) = (k + pre) * is_encoding s"
  shows "\<exists>gap'. upgrade_loop k cur pre s = Some (s\<lparr>contents := gap' @ enc_list (is_encoding s) vs @ tail\<rparr>) \<and>
    length gap' = pre * is_encoding s"
  using assms
proof (induction k arbitrary: s gap)
  case 0
  then have "s = s\<lparr>contents := gap @ enc_list (is_encoding s) vs @ tail\<rparr>" by (cases s) simp
  with 0 show ?case by (intro exI [of _ gap]) simp
next
  case (Suc k)
  let ?w = "is_encoding s"
  have k: "k < length vs" using Suc.prems(5) by simp
  have tk: "take (Suc k) vs = take k vs @ [vs ! k]" using k by (rule take_Suc_conv_app_nth)
  have get: "intsetGetEncoded s (int k) cur = Some (vs ! k)"
    using get_encoded [OF Suc.prems(2), of k "take (Suc k) vs" s] k Suc.prems(4,6) by (auto simp: list_all_length)
  let ?a = "enc_list cur (take k vs)" and ?g = "le_sbytes cur (vs ! k) @ gap"
  have len: "length ?g = (k + 1 + pre) * ?w - k * cur" "(k + 1 + pre) * ?w = k * cur + length ?g"
    using Suc.prems(7) k by (simp_all add: tk)
  have kw: "k * cur \<le> (k + pre) * ?w" using Suc.prems(3) by (intro mult_le_mono) auto
  define g1 where "g1 = take ((k + pre) * ?w - k * cur) ?g"
  define g2 where "g2 = drop ((k + pre) * ?w - k * cur) ?g"
  have g: "?g = g1 @ g2" unfolding g1_def g2_def by (rule append_take_drop_id [symmetric])
  have gl: "length g1 = (k + pre) * ?w - k * cur" "length g2 = ?w"
    using len kw by (auto simp: g1_def g2_def)
  have c: "contents s = (?a @ g1) @ g2 @ enc_list ?w (drop (Suc k) vs) @ tail"
    using Suc.prems(6) g by (simp add: tk)
  have la: "length (?a @ g1) = (k + pre) * ?w" using gl(1) kw k by simp
  let ?s = "s\<lparr>contents := ?a @ g1 @ enc_list ?w (drop k vs) @ tail\<rparr>"
  have "drop k vs = vs ! k # drop (Suc k) vs" using k by (rule Cons_nth_drop_Suc [symmetric])
  then have "intsetSet s (int (k + pre)) (vs ! k) = Some ?s"
    using set_encoded [OF Suc.prems(1) c la gl(2)] by simp
  moreover have "\<exists>gap'. upgrade_loop k cur pre ?s = Some (?s\<lparr>contents := gap' @ enc_list (is_encoding ?s) vs @ tail\<rparr>) \<and>
      length gap' = pre * is_encoding ?s"
    using Suc.prems la k by (intro Suc.IH [where gap = g1]) auto
  ultimately show ?case using get by auto
qed

lemma upgrade_spec:
  assumes r: "rep s vs" and room: "is_room vs" and v: "- (2 ^ 63) \<le> v" "v < 2 ^ 63" "intsetValueEncoding v > is_encoding s"
  shows "\<exists>s'. intsetUpgradeAndAdd junk s v = Some s' \<and> rep s' (if v < 0 then v # vs else vs @ [v])"
proof -
  let ?w = "intsetValueEncoding v" and ?cur = "is_encoding s" and ?pre = "if v < 0 then 1 else 0 :: nat"
  have w: "?w \<in> {2, 4, 8}" "?cur \<in> {2, 4, 8}" "?cur \<le> ?w" using valenc_cases r v(3) by (auto simp: rep_def)
  have n1: "(length vs + 1) mod 2 ^ 32 = length vs + 1" "(length vs + 1) * ?w mod 2 ^ 32 = (length vs + 1) * ?w"
    using room_bytes [OF w(1), of "length vs + 1"] room by simp_all
  have cl: "length vs * ?cur \<le> (length vs + 1) * ?w" using w(3) by (intro mult_le_mono) auto
  define tail where "tail = drop ((length vs + ?pre) * ?w - length vs * ?cur) (map junk [length vs * ?cur..<(length vs + 1) * ?w])"
  define gap where "gap = take ((length vs + ?pre) * ?w - length vs * ?cur) (map junk [length vs * ?cur..<(length vs + 1) * ?w])"
  let ?s = "s\<lparr>is_encoding := ?w, contents := enc_list ?cur vs @ gap @ tail\<rparr>"
  have rs: "intsetResize junk (s\<lparr>is_encoding := ?w\<rparr>) ((is_length s + 1) mod 2 ^ 32) = ?s"
    using r n1 cl by (simp add: intsetResize_def rep_def mem_realloc_grow gap_def tail_def)
  have "length vs * ?cur \<le> (length vs + ?pre) * ?w" using w(3) by (intro mult_le_mono) auto
  then have lg: "length (enc_list ?cur vs @ gap) = (length vs + ?pre) * ?w" "length tail = (1 - ?pre) * ?w"
    by (auto simp: gap_def tail_def algebra_simps)
  have "\<exists>gap'. upgrade_loop (length vs) ?cur ?pre ?s = Some (?s\<lparr>contents := gap' @ enc_list (is_encoding ?s) vs @ tail\<rparr>) \<and>
      length gap' = ?pre * is_encoding ?s"
    using r w lg by (intro upgrade_loop_spec [where gap = gap]) (auto simp: rep_def)
  then obtain gap' where up: "upgrade_loop (length vs) ?cur ?pre ?s = Some (?s\<lparr>contents := gap' @ enc_list ?w vs @ tail\<rparr>)"
    "length gap' = ?pre * ?w" by auto
  let ?s2 = "?s\<lparr>contents := gap' @ enc_list ?w vs @ tail\<rparr>"
  have len: "is_length s = length vs" using r by (simp add: rep_def)
  have set: "(if ?pre \<noteq> 0 then intsetSet ?s2 0 v else intsetSet ?s2 (int (is_length ?s2)) v) =
      Some (?s2\<lparr>contents := enc_list ?w (if v < 0 then v # vs else vs @ [v])\<rparr>)"
  proof (cases "v < 0")
    case True
    then show ?thesis
      using set_encoded [of ?s2 "[]" gap' "enc_list ?w vs @ tail" 0 v] up(2) w(1) lg(2) by simp
  next
    case False
    then show ?thesis
      using set_encoded [of ?s2 "enc_list ?w vs" tail "[]" "length vs" v] up(2) w(1) lg(2) len by simp
  qed
  have "fits ?w v" using valenc_fits [OF v(1,2) w(1)] by simp
  moreover have "list_all (fits ?w) vs" using r fits_mono [OF _ w(3,2,1)] by (auto simp: rep_def list_all_iff)
  ultimately have "rep (?s2\<lparr>contents := enc_list ?w (if v < 0 then v # vs else vs @ [v]),
      is_length := length vs + 1\<rparr>) (if v < 0 then v # vs else vs @ [v])"
    using w(1) by (auto simp: rep_def)
  moreover have "intsetUpgradeAndAdd junk s v =
     Some (?s2\<lparr>contents := enc_list ?w (if v < 0 then v # vs else vs @ [v]), is_length := length vs + 1\<rparr>)"
    using rs up(1) set len n1(1) by (cases "v < 0") (simp_all add: intsetUpgradeAndAdd_def Let_def)
  ultimately show ?thesis by blast
qed

definition isorted :: "intset \<Rightarrow> int list \<Rightarrow> bool" where
  "isorted s vs \<longleftrightarrow> rep s vs \<and> sorted_wrt (<) vs"

lemma intsetAdd_spec:
  assumes s: "isorted s vs" and room: "is_room vs" and v: "- (2 ^ 63) \<le> v" "v < 2 ^ 63"
  shows "\<exists>s' vs'. intsetAdd junk s v = Some (s', v \<notin> set vs) \<and> isorted s' vs' \<and> set vs' = insert v (set vs)"
proof -
  have r: "rep s vs" and so: "sorted_wrt (<) vs" using s by (simp_all add: isorted_def)
  then have w: "is_encoding s \<in> {2, 4, 8}" and fi: "\<forall>x \<in> set vs. fits (is_encoding s) x"
    by (auto simp: rep_def list_all_iff)
  show ?thesis
  proof (cases "intsetValueEncoding v > is_encoding s")
    case True
    obtain s' where s': "intsetUpgradeAndAdd junk s v = Some s'" "rep s' (if v < 0 then v # vs else vs @ [v])"
      using upgrade_spec [OF r room v True] by blast
    have nf: "\<not> fits (is_encoding s) v" using True valenc_fits [OF v w] by simp
    then have "v \<notin> set vs" using fi by blast
    moreover have "\<forall>x \<in> set vs. if v < 0 then v < x else x < v"
      using fi nf by (auto simp: fits_def)
    then have "sorted_wrt (<) (if v < 0 then v # vs else vs @ [v])" using so by (auto simp: sorted_wrt_append)
    ultimately show ?thesis
      using True s' by (intro exI [of _ s'] exI [of _ "if v < 0 then v # vs else vs @ [v]"])
        (auto simp: intsetAdd_def isorted_def)
  next
    case False
    obtain found pos where f: "intsetSearch s v = Some (found, pos)" "search_result vs v found pos"
      using intsetSearch_spec [OF r so] by blast
    show ?thesis
    proof (cases found)
      case True
      with f False search_found [OF f(2)] s show ?thesis by (auto simp: intsetAdd_def)
    next
      case nf: False
      let ?w = "is_encoding s" and ?vs = "take pos vs @ v # drop pos vs"
      have sr: "search_result vs v False pos" and p: "pos \<le> length vs" using f(2) nf by (simp_all add: search_result_def)
      obtain j where j: "intsetResize junk s ((is_length s + 1) mod 2 ^ 32) = s\<lparr>contents := enc_list ?w vs @ j\<rparr>"
        "length j = ?w" using resize_grow [OF r room] by blast
      let ?s1 = "s\<lparr>contents := enc_list ?w vs @ j\<rparr>"
      have len: "is_length s = length vs" using r by (simp add: rep_def)
      have "\<exists>x. (if pos < is_length ?s1 then intsetMoveTail ?s1 pos (pos + 1) else Some ?s1) =
          Some (s\<lparr>contents := enc_list ?w (take pos vs) @ x @ enc_list ?w (drop pos vs)\<rparr>) \<and> length x = ?w"
        using move_tail_right [of ?s1 vs pos j] w room len p j(2) by (cases "pos < length vs") auto
      then obtain x where x: "(if pos < is_length ?s1 then intsetMoveTail ?s1 pos (pos + 1) else Some ?s1) =
          Some (s\<lparr>contents := enc_list ?w (take pos vs) @ x @ enc_list ?w (drop pos vs)\<rparr>)" "length x = ?w"
        by blast
      have set: "intsetSet (s\<lparr>contents := enc_list ?w (take pos vs) @ x @ enc_list ?w (drop pos vs)\<rparr>) (int pos) v =
          Some (s\<lparr>contents := enc_list ?w ?vs\<rparr>)"
        using set_encoded [where s = "s\<lparr>contents := enc_list ?w (take pos vs) @ x @ enc_list ?w (drop pos vs)\<rparr>" and p = pos] w x(2) p by simp
      have "(length vs + 1) mod 2 ^ 32 = length vs + 1" using room by simp
      then have add: "intsetAdd junk s v = Some (s\<lparr>contents := enc_list ?w ?vs, is_length := length vs + 1\<rparr>, True)"
        using False f(1) nf j(1) x(1) set len by (simp add: intsetAdd_def Let_def)
      have "fits ?w v" using valenc_fits [OF v w] False by simp
      then have "rep (s\<lparr>contents := enc_list ?w ?vs, is_length := length vs + 1\<rparr>) ?vs"
        using w fi p by (auto simp: rep_def list_all_iff dest: in_set_takeD in_set_dropD)
      moreover have "set ?vs = insert v (set vs)" by (metis append_take_drop_id insert_is_Un list.simps(15) set_append sup_left_commute)
      ultimately show ?thesis
        using add search_insert_sorted [OF so sr] search_found [OF f(2)] nf by (auto simp: isorted_def)
    qed
  qed
qed

lemma intsetRemove_spec:
  assumes s: "isorted s vs" and room: "is_room vs" and v: "- (2 ^ 63) \<le> v" "v < 2 ^ 63"
  shows "\<exists>s' vs'. intsetRemove junk s v = Some (s', v \<in> set vs) \<and> isorted s' vs' \<and> set vs' = set vs - {v}"
proof -
  have r: "rep s vs" and so: "sorted_wrt (<) vs" using s by (simp_all add: isorted_def)
  then have w: "is_encoding s \<in> {2, 4, 8}" and fi: "\<forall>x \<in> set vs. fits (is_encoding s) x"
    by (auto simp: rep_def list_all_iff)
  show ?thesis
  proof (cases "intsetValueEncoding v \<le> is_encoding s")
    case False
    then have "v \<notin> set vs" using fi valenc_fits [OF v w] by auto
    with False s show ?thesis by (auto simp: intsetRemove_def)
  next
    case True
    obtain found pos where f: "intsetSearch s v = Some (found, pos)" "search_result vs v found pos"
      using intsetSearch_spec [OF r so] by blast
    show ?thesis
    proof (cases found)
      case False
      with f True search_found [OF f(2)] s show ?thesis by (auto simp: intsetRemove_def)
    next
      case fo: True
      let ?w = "is_encoding s" and ?vs = "take pos vs @ drop (Suc pos) vs"
      have p: "pos < length vs" "vs ! pos = v" using f(2) fo by (simp_all add: search_result_def)
      have len: "is_length s = length vs" and c: "contents s = enc_list ?w vs" using r by (simp_all add: rep_def)
      note sp = enc_list_split [OF p(1), of ?w]
      have "\<exists>x. (if pos < length vs - 1 then intsetMoveTail s (pos + 1) pos else Some s) =
          Some (s\<lparr>contents := enc_list ?w ?vs @ x\<rparr>) \<and> length x = ?w"
      proof (cases "pos < length vs - 1")
        case True
        have "(length vs + 2 ^ 32 - (pos + 1)) mod 2 ^ 32 = length vs - (pos + 1)"
          using room p(1) by (intro u32_diff) simp_all
        moreover have "(length vs - (pos + 1)) * ?w mod 2 ^ 32 = (length vs - (pos + 1)) * ?w"
          using room by (intro room_bytes w) simp
        moreover have "\<exists>r. mem_move (pos * ?w) ((pos + 1) * ?w) ((length vs - (pos + 1)) * ?w) (enc_list ?w vs) =
            Some (enc_list ?w (take pos vs) @ enc_list ?w (drop (Suc pos) vs) @ r) \<and> length r = length (le_sbytes ?w (vs ! pos))"
          unfolding sp using p(1) by (intro mem_move_left) auto
        ultimately show ?thesis
          using True w len c by (auto simp: intsetMoveTail_def enc_width_id Let_def simp del: insert_iff)
      next
        case False
        then have "drop (Suc pos) vs = []" using p(1) by simp
        then have "s = s\<lparr>contents := enc_list ?w ?vs @ le_sbytes ?w (vs ! pos)\<rparr>" using sp c by (cases s) simp
        with False show ?thesis by (intro exI [of _ "le_sbytes ?w (vs ! pos)"]) simp
      qed
      then obtain x where x: "(if pos < length vs - 1 then intsetMoveTail s (pos + 1) pos else Some s) =
          Some (s\<lparr>contents := enc_list ?w ?vs @ x\<rparr>)" "length x = ?w" by blast
      have lv: "length ?vs = length vs - 1" using p(1) by simp
      have "(length vs - 1) * ?w mod 2 ^ 32 = (length vs - 1) * ?w" using room by (intro room_bytes w) simp
      moreover have "mem_realloc junk ((length vs - 1) * ?w) (enc_list ?w ?vs @ x) = enc_list ?w ?vs"
        by (rule mem_realloc_prefix) (simp only: length_enc_list lv)
      ultimately have "intsetResize junk (s\<lparr>contents := enc_list ?w ?vs @ x\<rparr>) (length vs - 1) = s\<lparr>contents := enc_list ?w ?vs\<rparr>"
        by (simp add: intsetResize_def)
      then have rem: "intsetRemove junk s v = Some (s\<lparr>contents := enc_list ?w ?vs, is_length := length vs - 1\<rparr>, True)"
        using True f(1) fo x(1) len by (simp add: intsetRemove_def Let_def)
      have e: "vs = take pos vs @ v # drop (Suc pos) vs" using p by (metis id_take_nth_drop)
      have "sorted_wrt (<) (take pos vs @ v # drop (Suc pos) vs)" using so e by simp
      then have so': "sorted_wrt (<) ?vs" and v': "v \<notin> set ?vs" unfolding sorted_wrt_append by auto
      have sv: "set vs = insert v (set ?vs)" by (subst e) auto
      then have "rep (s\<lparr>contents := enc_list ?w ?vs, is_length := length vs - 1\<rparr>) ?vs"
        using w fi lv by (auto simp: rep_def list_all_iff simp del: insert_iff)
      then show ?thesis
        using rem so' v' sv search_found [OF f(2)] fo by (auto simp: isorted_def)
    qed
  qed
qed

section \<open>The integer set as a set\<close>

definition int_values :: "intset \<Rightarrow> int list" where
  "int_values s = map (\<lambda>i. the (intsetGetRaw s (int i))) [0..<is_length s]"

definition intset_ok :: "intset \<Rightarrow> bool" where
  "intset_ok s \<longleftrightarrow> isorted s (int_values s)"

lemma rep_values: "rep s vs \<Longrightarrow> int_values s = vs"
  by (rule nth_equalityI) (auto simp: int_values_def rep_get rep_def)

lemma isorted_ok: "isorted s vs \<Longrightarrow> intset_ok s \<and> int_values s = vs"
  using rep_values [of s vs] by (simp add: intset_ok_def isorted_def)

lemma sorted_values: "isorted s vs \<Longrightarrow> sorted_list_of_set (set vs) = vs"
  by (simp add: isorted_def strict_sorted_iff sorted_list_of_set.idem_if_sorted_distinct)

lemma isorted_length: "isorted s vs \<Longrightarrow> is_length s = length vs \<and> card (set vs) = length vs"
  using distinct_card [of vs] by (simp add: isorted_def rep_def strict_sorted_iff)

datatype intset_op =
    IAdd "nat \<Rightarrow> byte" int
  | IRemove "nat \<Rightarrow> byte" int
  | IFind int
  | IGet nat
  | ILen

datatype intset_reply = IFlag bool | IVal "int option" | ICount nat

definition intset_step :: "intset_op \<Rightarrow> intset \<Rightarrow> (intset \<times> intset_reply) option" where
  "intset_step op s =
    (case op of
       IAdd junk v \<Rightarrow> do { (s1, b) \<leftarrow> intsetAdd junk s v; Some (s1, IFlag b) }
     | IRemove junk v \<Rightarrow> do { (s1, b) \<leftarrow> intsetRemove junk s v; Some (s1, IFlag b) }
     | IFind v \<Rightarrow> do { b \<leftarrow> intsetFind s v; Some (s, IFlag b) }
     | IGet pos \<Rightarrow> do { v \<leftarrow> intsetGet s pos; Some (s, IVal v) }
     | ILen \<Rightarrow> Some (s, ICount (intsetLen s)))"

fun set_step :: "intset_op \<Rightarrow> int set \<Rightarrow> int set \<times> intset_reply" where
  "set_step (IAdd junk v) A = (insert v A, IFlag (v \<notin> A))"
| "set_step (IRemove junk v) A = (A - {v}, IFlag (v \<in> A))"
| "set_step (IFind v) A = (A, IFlag (v \<in> A))"
| "set_step (IGet pos) A = (A, IVal (if pos < card A then Some (sorted_list_of_set A ! pos) else None))"
| "set_step ILen A = (A, ICount (card A))"

text \<open>The arguments are \<open>int64_t\<close>.\<close>

fun int64_op :: "intset_op \<Rightarrow> bool" where
  "int64_op (IAdd junk v) \<longleftrightarrow> - (2 ^ 63) \<le> v \<and> v < 2 ^ 63"
| "int64_op (IRemove junk v) \<longleftrightarrow> - (2 ^ 63) \<le> v \<and> v < 2 ^ 63"
| "int64_op (IFind v) \<longleftrightarrow> - (2 ^ 63) \<le> v \<and> v < 2 ^ 63"
| "int64_op (IGet pos) \<longleftrightarrow> True"
| "int64_op ILen \<longleftrightarrow> True"

lemma intsetFind_spec:
  assumes "isorted s vs" "- (2 ^ 63) \<le> v" "v < 2 ^ 63"
  shows "intsetFind s v = Some (v \<in> set vs)"
proof (cases "intsetValueEncoding v \<le> is_encoding s")
  case True
  obtain found pos where "intsetSearch s v = Some (found, pos)" "search_result vs v found pos"
    using intsetSearch_spec [of s vs v] assms(1) by (auto simp: isorted_def)
  with True search_found show ?thesis by (auto simp: intsetFind_def)
next
  case False
  moreover have "v \<notin> set vs"
    using False assms valenc_fits [OF assms(2,3)] by (auto simp: isorted_def rep_def list_all_iff)
  ultimately show ?thesis by (simp add: intsetFind_def)
qed

lemma intset_step_sim:
  assumes ok: "intset_ok s" and "int64_op op" "is_length s < 2 ^ 28"
  shows "\<exists>s' r. intset_step op s = Some (s', r) \<and> intset_ok s' \<and>
    set_step op (set (int_values s)) = (set (int_values s'), r) \<and> is_length s' \<le> is_length s + 1"
proof -
  let ?vs = "int_values s"
  have s: "isorted s ?vs" using ok by (simp add: intset_ok_def)
  note len = isorted_length [OF s]
  have grow: "is_length s' \<le> is_length s + 1" if "isorted s' vs'" "set vs' \<subseteq> insert v (set ?vs)" for s' vs' v
    using isorted_length [OF that(1)] len card_mono [OF _ that(2)] card_insert_le_m1 [of "Suc (card (set ?vs))" "set ?vs" v]
    by simp
  show ?thesis
  proof (cases op)
    case (IAdd junk v)
    then obtain s' vs' where "intsetAdd junk s v = Some (s', v \<notin> set ?vs)" "isorted s' vs'" "set vs' = insert v (set ?vs)"
      using intsetAdd_spec [OF s, of v junk] assms len by auto
    with IAdd grow [of s' vs' v] show ?thesis by (auto simp: intset_step_def dest: isorted_ok)
  next
    case (IRemove junk v)
    then obtain s' vs' where "intsetRemove junk s v = Some (s', v \<in> set ?vs)" "isorted s' vs'" "set vs' = set ?vs - {v}"
      using intsetRemove_spec [OF s, of v junk] assms len by auto
    with IRemove grow [of s' vs' v] show ?thesis by (auto simp: intset_step_def dest: isorted_ok)
  next
    case (IFind v)
    with intsetFind_spec [OF s] assms ok show ?thesis by (simp add: intset_step_def)
  next
    case (IGet pos)
    have "intsetGet s pos = Some (if pos < length ?vs then Some (?vs ! pos) else None)"
      using s len rep_get [of s ?vs pos] by (simp add: intsetGet_def isorted_def)
    with IGet ok len sorted_values [OF s] show ?thesis by (simp add: intset_step_def)
  next
    case ILen
    with ok len show ?thesis by (simp add: intset_step_def intsetLen_def)
  qed
qed

interpretation intset_sim: simulation intset_step set_step "\<lambda>s. set (int_values s)" intset_ok "\<lambda>op _. int64_op op" is_length "2 ^ 28"
  by unfold_locales (rule intset_step_sim)

lemma intsetNew_ok: "intset_ok intsetNew" "int_values intsetNew = []" "is_length intsetNew = 0"
  by (simp_all add: intset_ok_def isorted_def int_values_def intsetNew_def rep_def intset_encs)

section \<open>Properties\<close>

text \<open>C8: Any sequence of insertions, deletions, membership tests and positional reads on a fresh
  integer set behaves as on a mathematical set of integers (positions are those of the sorted
  enumeration): no access leaves the block, also while the encoding is widened in place, every
  reply is that of the set, and the representation stays sorted and exactly as long as its
  elements.\<close>

theorem intset_refines_set:
  assumes "list_all int64_op ops" "length ops \<le> 2 ^ 28"
  shows "\<exists>s rs. run_ops intset_step ops intsetNew = Some (s, rs) \<and> intset_ok s \<and>
    run_spec set_step ops {} = (set (int_values s), rs)"
  using intset_sim.run_sim [of intsetNew ops] assms by (simp add: intsetNew_ok)

theorem intset_refines_set_witness:
  "\<exists>s. run_ops intset_step
      [IAdd (\<lambda>_. 7) 5, IAdd (\<lambda>_. 7) 70000, IAdd (\<lambda>_. 7) 5, IFind 70000, IRemove (\<lambda>_. 7) 5, IFind 5, ILen] intsetNew =
    Some (s, [IFlag True, IFlag True, IFlag False, IFlag True, IFlag True, IFlag False, ICount 1])"
  using intset_refines_set
    [of "[IAdd (\<lambda>_. 7) 5, IAdd (\<lambda>_. 7) 70000, IAdd (\<lambda>_. 7) 5, IFind 70000, IRemove (\<lambda>_. 7) 5, IFind 5, ILen]"]
  by auto

text \<open>The bisection of \<open>intsetSearch\<close> ends and finds what a linear search finds: the position of
  the value, or the number of smaller elements.\<close>

lemma intsetSearch_linear:
  assumes "intset_ok s"
  shows "intsetSearch s v = Some (v \<in> set (int_values s), length (filter (\<lambda>x. x < v) (int_values s)))"
proof -
  let ?vs = "int_values s"
  have r: "rep s ?vs" and so: "sorted_wrt (<) ?vs" using assms by (simp_all add: intset_ok_def isorted_def)
  obtain found pos where f: "intsetSearch s v = Some (found, pos)" "search_result ?vs v found pos"
    using intsetSearch_spec [OF r so] by blast
  have p: "pos \<le> length ?vs" "\<forall>i < pos. ?vs ! i < v" "\<forall>i. pos \<le> i \<and> i < length ?vs \<longrightarrow> \<not> ?vs ! i < v"
    using f(2) sorted_nth_le [OF so] sorted_wrt_nth_less [OF so]
    by (fastforce simp: search_result_def split: if_splits)+
  have "filter (\<lambda>x. x < v) (take pos ?vs) = take pos ?vs" "filter (\<lambda>x. x < v) (drop pos ?vs) = []"
    using p by (auto simp: filter_id_conv filter_empty_conv in_set_conv_nth)
  then have "filter (\<lambda>x. x < v) ?vs = take pos ?vs" by (metis append_Nil2 append_take_drop_id filter_append)
  then have "length (filter (\<lambda>x. x < v) ?vs) = pos" using p(1) by simp
  with f search_found [OF f(2)] show ?thesis by simp
qed

end
