(* ===== verification/Adlist.thy ===== *)
theory Adlist
  imports Refine "HOL-Library.Monad_Syntax"
begin

text \<open>
  The doubly linked lists of \<open>adlist.c\<close>, with the nodes in an explicit heap.  A pointer is an
  address or \<open>NULL\<close>, the result of \<open>zmalloc\<close> is an argument of the operations that allocate, and
  dereferencing \<open>NULL\<close> or an address that is not allocated is the result \<open>None\<close>.  Values are values
  of the model, so the \<open>free\<close> method, which releases them, has no counterpart.
\<close>

section \<open>Model\<close>

type_synonym ptr = "nat option"

record 'a listNode =
  ln_prev :: ptr
  ln_next :: ptr
  ln_value :: 'a

type_synonym 'a heap = "nat \<rightharpoonup> 'a listNode"

record 'a list_t =
  lhead :: ptr
  ltail :: ptr
  ldup :: "('a \<Rightarrow> 'a option) option"
  lmatch :: "('a \<Rightarrow> 'a \<Rightarrow> bool) option"
  llen :: nat

datatype direction = AL_START_HEAD | AL_START_TAIL

record listIter =
  li_next :: ptr
  li_direction :: direction

definition get_node :: "'a heap \<Rightarrow> ptr \<Rightarrow> 'a listNode option" where
  "get_node h p = (case p of None \<Rightarrow> None | Some a \<Rightarrow> h a)"

definition set_prev :: "ptr \<Rightarrow> ptr \<Rightarrow> 'a heap \<Rightarrow> 'a heap option" where
  "set_prev p v h =
    (case p of None \<Rightarrow> None | Some a \<Rightarrow> map_option (\<lambda>n. h(a \<mapsto> n\<lparr>ln_prev := v\<rparr>)) (h a))"

definition set_next :: "ptr \<Rightarrow> ptr \<Rightarrow> 'a heap \<Rightarrow> 'a heap option" where
  "set_next p v h =
    (case p of None \<Rightarrow> None | Some a \<Rightarrow> map_option (\<lambda>n. h(a \<mapsto> n\<lparr>ln_next := v\<rparr>)) (h a))"

definition listCreate :: "'a list_t" where
  "listCreate = \<lparr>lhead = None, ltail = None, ldup = None, lmatch = None, llen = 0\<rparr>"

fun empty_loop :: "nat \<Rightarrow> ptr \<Rightarrow> 'a heap \<Rightarrow> 'a heap option" where
  "empty_loop 0 current h = Some h"
| "empty_loop (Suc len) current h =
    do {
      n \<leftarrow> get_node h current;
      empty_loop len (ln_next n) (h(the current := None))
    }"

definition listEmpty :: "'a heap \<Rightarrow> 'a list_t \<Rightarrow> ('a heap \<times> 'a list_t) option" where
  "listEmpty h l =
    do {
      h1 \<leftarrow> empty_loop (llen l) (lhead l) h;
      Some (h1, l\<lparr>lhead := None, ltail := None, llen := 0\<rparr>)
    }"

definition listRelease :: "'a heap \<Rightarrow> 'a list_t \<Rightarrow> 'a heap option" where
  "listRelease h l = map_option fst (listEmpty h l)"

text \<open>The first argument is the result of \<open>zmalloc\<close>; the flag of the result is a non-\<open>NULL\<close> return.\<close>

definition listAddNodeHead :: "ptr \<Rightarrow> 'a \<Rightarrow> 'a heap \<Rightarrow> 'a list_t \<Rightarrow> ('a heap \<times> 'a list_t \<times> bool) option" where
  "listAddNodeHead m v h l =
    (case m of
       None \<Rightarrow> Some (h, l, False)
     | Some node \<Rightarrow>
         if llen l = 0 then
           Some (h(node \<mapsto> \<lparr>ln_prev = None, ln_next = None, ln_value = v\<rparr>),
                 l\<lparr>lhead := Some node, ltail := Some node, llen := llen l + 1\<rparr>, True)
         else
           do {
             h1 \<leftarrow> set_prev (lhead l) (Some node) (h(node \<mapsto> \<lparr>ln_prev = None, ln_next = lhead l, ln_value = v\<rparr>));
             Some (h1, l\<lparr>lhead := Some node, llen := llen l + 1\<rparr>, True)
           })"

definition listAddNodeTail :: "ptr \<Rightarrow> 'a \<Rightarrow> 'a heap \<Rightarrow> 'a list_t \<Rightarrow> ('a heap \<times> 'a list_t \<times> bool) option" where
  "listAddNodeTail m v h l =
    (case m of
       None \<Rightarrow> Some (h, l, False)
     | Some node \<Rightarrow>
         if llen l = 0 then
           Some (h(node \<mapsto> \<lparr>ln_prev = None, ln_next = None, ln_value = v\<rparr>),
                 l\<lparr>lhead := Some node, ltail := Some node, llen := llen l + 1\<rparr>, True)
         else
           do {
             h1 \<leftarrow> set_next (ltail l) (Some node) (h(node \<mapsto> \<lparr>ln_prev = ltail l, ln_next = None, ln_value = v\<rparr>));
             Some (h1, l\<lparr>ltail := Some node, llen := llen l + 1\<rparr>, True)
           })"

definition listInsertNode ::
  "ptr \<Rightarrow> ptr \<Rightarrow> 'a \<Rightarrow> bool \<Rightarrow> 'a heap \<Rightarrow> 'a list_t \<Rightarrow> ('a heap \<times> 'a list_t \<times> bool) option" where
  "listInsertNode m old_node v after h l =
    (case m of
       None \<Rightarrow> Some (h, l, False)
     | Some node \<Rightarrow>
         do {
           old \<leftarrow> get_node h old_node;
           let (prv, nxt) = (if after then (old_node, ln_next old) else (ln_prev old, old_node));
           let l1 = (if after then (if ltail l = old_node then l\<lparr>ltail := Some node\<rparr> else l)
                     else (if lhead l = old_node then l\<lparr>lhead := Some node\<rparr> else l));
           let h1 = h(node \<mapsto> \<lparr>ln_prev = prv, ln_next = nxt, ln_value = v\<rparr>);
           h2 \<leftarrow> (if prv \<noteq> None then set_next prv (Some node) h1 else Some h1);
           h3 \<leftarrow> (if nxt \<noteq> None then set_prev nxt (Some node) h2 else Some h2);
           Some (h3, l1\<lparr>llen := llen l1 + 1\<rparr>, True)
         })"

definition listDelNode :: "ptr \<Rightarrow> 'a heap \<Rightarrow> 'a list_t \<Rightarrow> ('a heap \<times> 'a list_t) option" where
  "listDelNode node h l =
    do {
      n \<leftarrow> get_node h node;
      (h1, l1) \<leftarrow>
        (if ln_prev n \<noteq> None then map_option (\<lambda>h. (h, l)) (set_next (ln_prev n) (ln_next n) h)
         else Some (h, l\<lparr>lhead := ln_next n\<rparr>));
      (h2, l2) \<leftarrow>
        (if ln_next n \<noteq> None then map_option (\<lambda>h. (h, l1)) (set_prev (ln_next n) (ln_prev n) h1)
         else Some (h1, l1\<lparr>ltail := ln_prev n\<rparr>));
      Some (h2(the node := None), l2\<lparr>llen := llen l2 - 1\<rparr>)
    }"

definition listGetIterator :: "'a list_t \<Rightarrow> direction \<Rightarrow> listIter" where
  "listGetIterator l dir =
    \<lparr>li_next = (if dir = AL_START_HEAD then lhead l else ltail l), li_direction = dir\<rparr>"

definition listRewind :: "'a list_t \<Rightarrow> listIter" where
  "listRewind l = \<lparr>li_next = lhead l, li_direction = AL_START_HEAD\<rparr>"

definition listRewindTail :: "'a list_t \<Rightarrow> listIter" where
  "listRewindTail l = \<lparr>li_next = ltail l, li_direction = AL_START_TAIL\<rparr>"

definition listNext :: "'a heap \<Rightarrow> listIter \<Rightarrow> (listIter \<times> ptr) option" where
  "listNext h it =
    (case li_next it of
       None \<Rightarrow> Some (it, None)
     | Some current \<Rightarrow>
         do {
           n \<leftarrow> get_node h (Some current);
           Some (it\<lparr>li_next := (if li_direction it = AL_START_HEAD then ln_next n else ln_prev n)\<rparr>, Some current)
         })"

text \<open>
  \<open>listDup\<close>: the list of pointers holds the results of the successive calls of \<open>zmalloc\<close> (\<open>NULL\<close>
  when it is exhausted), the first argument bounds the rounds of the loop.  The inner \<open>None\<close> is the
  result \<open>NULL\<close>.
\<close>

fun dup_loop :: "nat \<Rightarrow> ptr list \<Rightarrow> 'a heap \<Rightarrow> listIter \<Rightarrow> 'a list_t \<Rightarrow> ('a heap \<times> 'a list_t option) option" where
  "dup_loop 0 ms h iter copy = None"
| "dup_loop (Suc fuel) ms h iter copy =
    do {
      (iter1, node) \<leftarrow> listNext h iter;
      (case node of
         None \<Rightarrow> Some (h, Some copy)
       | Some a \<Rightarrow>
           do {
             n \<leftarrow> get_node h node;
             (case (case ldup copy of None \<Rightarrow> Some (ln_value n) | Some f \<Rightarrow> f (ln_value n)) of
                None \<Rightarrow> map_option (\<lambda>h. (h, None)) (listRelease h copy)
              | Some v \<Rightarrow>
                  do {
                    (h1, copy1, success) \<leftarrow> listAddNodeTail (case ms of [] \<Rightarrow> None | m # _ \<Rightarrow> m) v h copy;
                    if success then dup_loop fuel (drop 1 ms) h1 iter1 copy1
                    else map_option (\<lambda>h. (h, None)) (listRelease h1 copy1)
                  })
           })
    }"

definition listDup :: "nat \<Rightarrow> ptr list \<Rightarrow> 'a heap \<Rightarrow> 'a list_t \<Rightarrow> ('a heap \<times> 'a list_t option) option" where
  "listDup fuel ms h orig =
    dup_loop fuel ms h (listRewind orig) (listCreate\<lparr>ldup := ldup orig, lmatch := lmatch orig\<rparr>)"

fun listSearch_loop :: "nat \<Rightarrow> 'a heap \<Rightarrow> 'a list_t \<Rightarrow> listIter \<Rightarrow> 'a \<Rightarrow> ptr option" where
  "listSearch_loop 0 h l iter key = None"
| "listSearch_loop (Suc fuel) h l iter key =
    do {
      (iter1, node) \<leftarrow> listNext h iter;
      (case node of
         None \<Rightarrow> Some None
       | Some a \<Rightarrow>
           do {
             n \<leftarrow> get_node h node;
             if (case lmatch l of Some f \<Rightarrow> f (ln_value n) key | None \<Rightarrow> key = ln_value n) then Some node
             else listSearch_loop fuel h l iter1 key
           })
    }"

definition listSearchKey :: "nat \<Rightarrow> 'a heap \<Rightarrow> 'a list_t \<Rightarrow> 'a \<Rightarrow> ptr option" where
  "listSearchKey fuel h l key = listSearch_loop fuel h l (listRewind l) key"

text \<open>The two loops \<open>while(index-- && n)\<close> of \<open>listIndex\<close>; the result \<open>Some None\<close> is \<open>NULL\<close>.\<close>

fun index_loop :: "nat \<Rightarrow> direction \<Rightarrow> 'a heap \<Rightarrow> ptr \<Rightarrow> ptr option" where
  "index_loop 0 dir h n = Some n"
| "index_loop (Suc i) dir h n =
    (case n of
       None \<Rightarrow> Some None
     | Some a \<Rightarrow>
         do { nd \<leftarrow> get_node h n; index_loop i dir h (if dir = AL_START_HEAD then ln_next nd else ln_prev nd) })"

definition listIndex :: "'a heap \<Rightarrow> 'a list_t \<Rightarrow> int \<Rightarrow> ptr option" where
  "listIndex h l index =
    (if index < 0 then index_loop (nat (- index - 1)) AL_START_TAIL h (ltail l)
     else index_loop (nat index) AL_START_HEAD h (lhead l))"

definition listRotate :: "'a heap \<Rightarrow> 'a list_t \<Rightarrow> ('a heap \<times> 'a list_t) option" where
  "listRotate h l =
    (if llen l \<le> 1 then Some (h, l)
     else
       do {
         let tail = ltail l;
         t \<leftarrow> get_node h tail;
         let l1 = l\<lparr>ltail := ln_prev t\<rparr>;
         h1 \<leftarrow> set_next (ltail l1) None h;
         h2 \<leftarrow> set_prev (lhead l1) tail h1;
         h3 \<leftarrow> set_prev tail None h2;
         h4 \<leftarrow> set_next tail (lhead l1) h3;
         Some (h4, l1\<lparr>lhead := tail\<rparr>)
       })"

text \<open>\<open>listJoin\<close>: the two lists, the second one emptied.\<close>

definition listJoin :: "'a heap \<Rightarrow> 'a list_t \<Rightarrow> 'a list_t \<Rightarrow> ('a heap \<times> 'a list_t \<times> 'a list_t) option" where
  "listJoin h l o2 =
    do {
      h1 \<leftarrow> (if lhead o2 \<noteq> None then set_prev (lhead o2) (ltail l) h else Some h);
      (h2, l1) \<leftarrow>
        (if ltail l \<noteq> None then map_option (\<lambda>h. (h, l)) (set_next (ltail l) (lhead o2) h1)
         else Some (h1, l\<lparr>lhead := lhead o2\<rparr>));
      let l2 = (if ltail o2 \<noteq> None then l1\<lparr>ltail := ltail o2\<rparr> else l1);
      Some (h2, l2\<lparr>llen := llen l2 + llen o2\<rparr>, o2\<lparr>lhead := None, ltail := None, llen := 0\<rparr>)
    }"

section \<open>Segments\<close>

text \<open>The nodes of a list, as pairs of address and value.\<close>

type_synonym 'a nodes = "(nat \<times> 'a) list"

definition firstp :: "'a nodes \<Rightarrow> ptr \<Rightarrow> ptr" where
  "firstp ns p = (case ns of [] \<Rightarrow> p | n # _ \<Rightarrow> Some (fst n))"

definition lastp :: "ptr \<Rightarrow> 'a nodes \<Rightarrow> ptr" where
  "lastp p ns = (if ns = [] then p else Some (fst (last ns)))"

text \<open>A chain of nodes between the pointers \<open>p\<close> (before) and \<open>q\<close> (behind).\<close>

fun dseg :: "'a heap \<Rightarrow> ptr \<Rightarrow> 'a nodes \<Rightarrow> ptr \<Rightarrow> bool" where
  "dseg h p [] q \<longleftrightarrow> True"
| "dseg h p ((a, v) # ns) q \<longleftrightarrow>
    h a = Some \<lparr>ln_prev = p, ln_next = firstp ns q, ln_value = v\<rparr> \<and> dseg h (Some a) ns q"

definition list_rep :: "'a heap \<Rightarrow> 'a list_t \<Rightarrow> 'a nodes \<Rightarrow> bool" where
  "list_rep h l ns \<longleftrightarrow> dseg h None ns None \<and> distinct (map fst ns) \<and> lhead l = firstp ns None \<and>
     ltail l = lastp None ns \<and> llen l = length ns"

lemma firstp_simps [simp]: "firstp [] p = p" "firstp (n # ns) p = Some (fst n)"
  "firstp (ns @ ms) p = firstp ns (firstp ms p)"
  by (simp_all add: firstp_def split: list.splits)

lemma lastp_simps [simp]: "lastp p [] = p" "lastp p (n # ns) = lastp (Some (fst n)) ns"
  "lastp p (ns @ ms) = lastp (lastp p ns) ms"
  by (auto simp: lastp_def)

lemma dseg_append [simp]: "dseg h p (ns @ ms) q \<longleftrightarrow> dseg h p ns (firstp ms q) \<and> dseg h (lastp p ns) ms q"
  by (induction h p ns q rule: dseg.induct) auto

text \<open>Changing a node outside a segment does not affect it.\<close>

lemma dseg_frame: "(\<And>a. a \<in> fst ` set ns \<Longrightarrow> h' a = h a) \<Longrightarrow> dseg h' p ns q = dseg h p ns q"
  by (induction h p ns q rule: dseg.induct) auto

lemma dseg_upd [simp]: "a \<notin> fst ` set ns \<Longrightarrow> dseg (h(a := x)) p ns q = dseg h p ns q"
  by (rule dseg_frame) auto

lemma dseg_alloc: "dseg h p ns q \<Longrightarrow> a \<in> fst ` set ns \<Longrightarrow> \<exists>n. h a = Some n"
  by (induction h p ns q rule: dseg.induct) auto

text \<open>Changing the pointer behind the last node, and the pointer before the first one.\<close>

lemma dseg_set_next:
  assumes "dseg h p (ns @ [(a, v)]) q" "a \<notin> fst ` set ns"
  shows "set_next (Some a) q' h = Some (h(a \<mapsto> \<lparr>ln_prev = lastp p ns, ln_next = q', ln_value = v\<rparr>))"
    "dseg (h(a \<mapsto> \<lparr>ln_prev = lastp p ns, ln_next = q', ln_value = v\<rparr>)) p (ns @ [(a, v)]) q'"
  using assms by (simp_all add: set_next_def)

lemma dseg_set_prev:
  assumes "dseg h p ((a, v) # ns) q" "a \<notin> fst ` set ns"
  shows "set_prev (Some a) p' h = Some (h(a \<mapsto> \<lparr>ln_prev = p', ln_next = firstp ns q, ln_value = v\<rparr>))"
    "dseg (h(a \<mapsto> \<lparr>ln_prev = p', ln_next = firstp ns q, ln_value = v\<rparr>)) p' ((a, v) # ns) q"
  using assms by (simp_all add: set_prev_def)

lemma list_rep_empty: "list_rep h listCreate []"
  by (simp add: list_rep_def listCreate_def)

section \<open>Operations\<close>

lemma listAddNodeHead_rep:
  assumes "list_rep h l ns" "a \<notin> fst ` set ns"
  shows "\<exists>h' l'. listAddNodeHead (Some a) v h l = Some (h', l', True) \<and> list_rep h' l' ((a, v) # ns) \<and>
    ldup l' = ldup l \<and> lmatch l' = lmatch l \<and> (\<forall>b. b \<noteq> a \<and> b \<notin> fst ` set ns \<longrightarrow> h' b = h b) \<and>
    dom h' = insert a (dom h)"
proof (cases ns)
  case Nil
  with assms show ?thesis by (auto simp: listAddNodeHead_def list_rep_def)
next
  case (Cons n ms)
  obtain b w where n: "n = (b, w)" by (cases n)
  with Cons assms show ?thesis
    by (auto simp: listAddNodeHead_def list_rep_def set_prev_def)
qed

lemma nodes_snoc: "ns \<noteq> [] \<Longrightarrow> \<exists>ms b w. ns = ms @ [(b, w)]"
  by (metis rev_exhaust surj_pair)

lemma listAddNodeTail_rep:
  assumes "list_rep h l ns" "a \<notin> fst ` set ns"
  shows "\<exists>h' l'. listAddNodeTail (Some a) v h l = Some (h', l', True) \<and> list_rep h' l' (ns @ [(a, v)]) \<and>
    ldup l' = ldup l \<and> lmatch l' = lmatch l \<and> (\<forall>b. b \<noteq> a \<and> b \<notin> fst ` set ns \<longrightarrow> h' b = h b) \<and>
    dom h' = insert a (dom h)"
proof (cases "ns = []")
  case True
  with assms show ?thesis by (auto simp: listAddNodeTail_def list_rep_def)
next
  case False
  then obtain ms b w where n: "ns = ms @ [(b, w)]" using nodes_snoc by blast
  with assms show ?thesis
    by (auto simp: listAddNodeTail_def list_rep_def set_next_def)
qed

lemma listDelNode_rep:
  assumes "list_rep h l (xs @ (a, v) # ys)"
  shows "\<exists>h' l'. listDelNode (Some a) h l = Some (h', l') \<and> list_rep h' l' (xs @ ys) \<and>
    ldup l' = ldup l \<and> lmatch l' = lmatch l \<and> (\<forall>b. b \<notin> fst ` set (xs @ (a, v) # ys) \<longrightarrow> h' b = h b) \<and>
    dom h' = dom h - {a}"
proof (cases "xs = []")
  case True
  show ?thesis
  proof (cases ys)
    case Nil
    with True assms show ?thesis by (auto simp: listDelNode_def list_rep_def get_node_def)
  next
    case (Cons n ms)
    obtain c z where "n = (c, z)" by (cases n)
    with Cons True assms show ?thesis
      by (auto simp: listDelNode_def list_rep_def get_node_def set_prev_def)
  qed
next
  case False
  then obtain ms b w where x: "xs = ms @ [(b, w)]" using nodes_snoc by blast
  show ?thesis
  proof (cases ys)
    case Nil
    with x assms show ?thesis by (auto simp: listDelNode_def list_rep_def get_node_def set_next_def)
  next
    case (Cons n ms')
    obtain c z where "n = (c, z)" by (cases n)
    with Cons x assms show ?thesis
      by (auto simp: listDelNode_def list_rep_def get_node_def set_prev_def set_next_def)
  qed
qed

lemma listInsertNode_after:
  assumes "list_rep h l (xs @ (b, w) # ys)" "a \<notin> fst ` set (xs @ (b, w) # ys)"
  shows "\<exists>h' l'. listInsertNode (Some a) (Some b) v True h l = Some (h', l', True) \<and>
    list_rep h' l' (xs @ (b, w) # (a, v) # ys) \<and> ldup l' = ldup l \<and> lmatch l' = lmatch l \<and> dom h' = insert a (dom h)"
proof (cases ys)
  case Nil
  with assms show ?thesis
    by (auto simp: image_Un listInsertNode_def list_rep_def get_node_def set_next_def Let_def)
next
  case (Cons n ms)
  obtain c z where "n = (c, z)" by (cases n)
  with Cons assms show ?thesis
    by (auto simp: image_Un listInsertNode_def list_rep_def get_node_def set_next_def set_prev_def Let_def lastp_def)
qed

lemma listInsertNode_before:
  assumes "list_rep h l (xs @ (b, w) # ys)" "a \<notin> fst ` set (xs @ (b, w) # ys)"
  shows "\<exists>h' l'. listInsertNode (Some a) (Some b) v False h l = Some (h', l', True) \<and>
    list_rep h' l' (xs @ (a, v) # (b, w) # ys) \<and> ldup l' = ldup l \<and> lmatch l' = lmatch l \<and> dom h' = insert a (dom h)"
proof (cases "xs = []")
  case True
  with assms show ?thesis
    by (auto simp: image_Un listInsertNode_def list_rep_def get_node_def set_prev_def Let_def)
next
  case False
  then obtain ms c z where x: "xs = ms @ [(c, z)]" using nodes_snoc by blast
  show ?thesis
  proof (cases ms)
    case Nil
    with x assms show ?thesis
      by (auto simp: listInsertNode_def list_rep_def get_node_def set_next_def set_prev_def Let_def)
  next
    case (Cons n ms')
    obtain d u where "n = (d, u)" by (cases n)
    with x Cons assms show ?thesis
      by (auto simp: image_Un listInsertNode_def list_rep_def get_node_def set_next_def set_prev_def Let_def)
  qed
qed

lemma empty_loop_rep:
  "\<lbrakk>dseg h p ns q; distinct (map fst ns)\<rbrakk>
   \<Longrightarrow> empty_loop (length ns) (firstp ns r) h = Some (\<lambda>a. if a \<in> fst ` set ns then None else h a)"
proof (induction ns arbitrary: h p r)
  case Nil
  then show ?case by simp
next
  case (Cons n ns)
  obtain a v where n: "n = (a, v)" by (cases n)
  have d: "dseg (h(a := None)) (Some a) ns q" using Cons.prems n by simp
  have "empty_loop (length (n # ns)) (firstp (n # ns) r) h = empty_loop (length ns) (firstp ns q) (h(a := None))"
    using Cons.prems by (simp add: n get_node_def)
  also have "\<dots> = Some (\<lambda>b. if b \<in> fst ` set ns then None else (h(a := None)) b)"
    by (rule Cons.IH [OF d]) (use Cons.prems(2) in simp)
  also have "(\<lambda>b. if b \<in> fst ` set ns then None else (h(a := None)) b) =
      (\<lambda>b. if b \<in> fst ` set (n # ns) then None else h b)"
    by (auto simp: n)
  finally show ?case .
qed

lemma listEmpty_rep:
  assumes "list_rep h l ns"
  shows "\<exists>h' l'. listEmpty h l = Some (h', l') \<and> list_rep h' l' [] \<and> dom h' = dom h - fst ` set ns \<and>
    (\<forall>b. b \<notin> fst ` set ns \<longrightarrow> h' b = h b) \<and> ldup l' = ldup l \<and> lmatch l' = lmatch l"
  using assms empty_loop_rep [of h None ns None None]
  by (auto simp: listEmpty_def list_rep_def split: if_splits) force

lemma index_loop_head:
  "dseg h p ns None \<Longrightarrow> index_loop i AL_START_HEAD h (firstp ns None) =
     Some (if i < length ns then Some (fst (ns ! i)) else None)"
proof (induction i arbitrary: ns p)
  case 0
  then show ?case by (cases ns) auto
next
  case (Suc i)
  show ?case
  proof (cases ns)
    case (Cons n ms)
    obtain a v where n: "n = (a, v)" by (cases n)
    with Cons Suc.prems Suc.IH [of "Some a" ms] show ?thesis by (simp add: get_node_def)
  qed simp
qed

lemma index_loop_tail:
  "dseg h None ns q \<Longrightarrow> index_loop i AL_START_TAIL h (lastp None ns) =
     Some (if i < length ns then Some (fst (ns ! (length ns - 1 - i))) else None)"
proof (induction i arbitrary: ns q)
  case 0
  then show ?case by (cases ns rule: rev_cases) auto
next
  case (Suc i)
  show ?case
  proof (cases ns rule: rev_cases)
    case (snoc ms n)
    obtain a v where n: "n = (a, v)" by (cases n)
    with snoc Suc.prems Suc.IH [of ms "Some a"] show ?thesis by (auto simp: get_node_def nth_append)
  qed simp
qed

lemma listIndex_rep:
  assumes "list_rep h l ns"
  shows "listIndex h l i = Some
    (if 0 \<le> i \<and> i < int (length ns) then Some (fst (ns ! nat i))
     else if i < 0 \<and> - int (length ns) \<le> i then Some (fst (ns ! nat (int (length ns) + i)))
     else None)"
proof (cases "i < 0")
  case True
  have "length ns - 1 - nat (- i - 1) = nat (int (length ns) + i)" using True by linarith
  with True show ?thesis
    using assms index_loop_tail [of h ns None "nat (- i - 1)"] by (auto simp: listIndex_def list_rep_def)
next
  case False
  then show ?thesis
    using assms index_loop_head [of h None ns "nat i"] by (auto simp: listIndex_def list_rep_def)
qed

lemma listRotate_snoc:
  assumes "list_rep h l (ms @ [(b, w), (c, z)])"
  shows "\<exists>h' l'. listRotate h l = Some (h', l') \<and> list_rep h' l' ((c, z) # ms @ [(b, w)]) \<and>
    dom h' = dom h \<and> ldup l' = ldup l \<and> lmatch l' = lmatch l"
proof (cases ms)
  case Nil
  with assms show ?thesis
    by (auto simp: listRotate_def list_rep_def get_node_def set_next_def set_prev_def Let_def)
next
  case (Cons n ms')
  obtain d u where "n = (d, u)" by (cases n)
  with Cons assms show ?thesis
    by (auto simp: image_Un listRotate_def list_rep_def get_node_def set_next_def set_prev_def Let_def)
qed

lemma listRotate_rep:
  assumes "list_rep h l ns"
  shows "\<exists>h' l'. listRotate h l = Some (h', l') \<and>
    list_rep h' l' (if length ns \<le> 1 then ns else last ns # butlast ns) \<and> dom h' = dom h \<and>
    ldup l' = ldup l \<and> lmatch l' = lmatch l"
proof (cases "length ns \<le> 1")
  case True
  with assms show ?thesis by (auto simp: listRotate_def list_rep_def)
next
  case False
  then have "ns \<noteq> []" by auto
  then obtain xs c z where x: "ns = xs @ [(c, z)]" using nodes_snoc by blast
  with False have "xs \<noteq> []" by auto
  then obtain ms b w where "xs = ms @ [(b, w)]" using nodes_snoc by blast
  with x have n: "ns = ms @ [(b, w), (c, z)]" by simp
  then have "last ns # butlast ns = (c, z) # ms @ [(b, w)]" by (simp add: butlast_append)
  with False listRotate_snoc [OF assms [unfolded n]] show ?thesis by simp
qed

lemma listJoin_rep:
  assumes "list_rep h l ns" "list_rep h o2 ms" "fst ` set ns \<inter> fst ` set ms = {}"
  shows "\<exists>h' l' o2'. listJoin h l o2 = Some (h', l', o2') \<and> list_rep h' l' (ns @ ms) \<and> list_rep h' o2' [] \<and>
    dom h' = dom h \<and> (\<forall>b. b \<notin> fst ` set (ns @ ms) \<longrightarrow> h' b = h b)"
proof (cases "ns = []")
  case True
  show ?thesis
  proof (cases ms)
    case Nil
    with True assms show ?thesis by (auto simp: image_Un listJoin_def list_rep_def)
  next
    case (Cons m ms')
    obtain c z where "m = (c, z)" by (cases m)
    with True Cons assms show ?thesis
      by (auto simp: image_Un listJoin_def list_rep_def set_prev_def lastp_def)
  qed
next
  case False
  then obtain xs b w where x: "ns = xs @ [(b, w)]" using nodes_snoc by blast
  show ?thesis
  proof (cases ms)
    case Nil
    with x assms show ?thesis by (auto simp: image_Un listJoin_def list_rep_def set_next_def)
  next
    case (Cons m ms')
    obtain c z where "m = (c, z)" by (cases m)
    with x Cons assms show ?thesis
      by (auto simp: image_Un listJoin_def list_rep_def set_next_def set_prev_def lastp_def)
  qed
qed

section \<open>Traversals\<close>

definition value_match :: "'a list_t \<Rightarrow> 'a \<Rightarrow> 'a \<Rightarrow> bool" where
  "value_match l key v \<longleftrightarrow> (case lmatch l of Some f \<Rightarrow> f v key | None \<Rightarrow> key = v)"

lemma listNext_Cons:
  "h a = Some n \<Longrightarrow> listNext h \<lparr>li_next = Some a, li_direction = AL_START_HEAD\<rparr> =
    Some (\<lparr>li_next = ln_next n, li_direction = AL_START_HEAD\<rparr>, Some a)"
  by (simp add: listNext_def get_node_def)

lemma listSearch_loop_rep:
  "\<lbrakk>dseg h p ns None; length ns < fuel\<rbrakk> \<Longrightarrow>
   listSearch_loop fuel h l \<lparr>li_next = firstp ns None, li_direction = AL_START_HEAD\<rparr> key =
     Some (map_option fst (find (\<lambda>n. value_match l key (snd n)) ns))"
proof (induction fuel arbitrary: ns p)
  case (Suc fuel)
  show ?case
  proof (cases ns)
    case Nil
    then show ?thesis by (simp add: listNext_def)
  next
    case (Cons n ms)
    obtain a v where n: "n = (a, v)" by (cases n)
    with Cons Suc.prems Suc.IH [of "Some a" ms] show ?thesis
      by (simp add: listNext_Cons get_node_def value_match_def split: option.splits)
  qed
qed simp

lemma listSearchKey_rep:
  "\<lbrakk>list_rep h l ns; length ns < fuel\<rbrakk> \<Longrightarrow>
   listSearchKey fuel h l key = Some (map_option fst (find (\<lambda>n. value_match l key (snd n)) ns))"
  using listSearch_loop_rep [of h None ns fuel l key] by (simp add: listSearchKey_def list_rep_def listRewind_def)

text \<open>The values of a duplicate, or \<open>None\<close> when the \<open>dup\<close> method fails on one of them.\<close>

definition dup_value :: "'a list_t \<Rightarrow> 'a \<Rightarrow> 'a option" where
  "dup_value l v = (case ldup l of None \<Rightarrow> Some v | Some f \<Rightarrow> f v)"

lemma listRelease_rep:
  assumes "list_rep h l cs" "\<forall>a. a \<notin> fst ` set cs \<longrightarrow> h a = h0 a" "fst ` set cs \<inter> dom h0 = {}"
  shows "listRelease h l = Some h0"
proof -
  obtain h' l' where e: "listEmpty h l = Some (h', l')" "dom h' = dom h - fst ` set cs"
    "\<forall>b. b \<notin> fst ` set cs \<longrightarrow> h' b = h b"
    using listEmpty_rep [OF assms(1)] by blast
  have "h' a = h0 a" for a
  proof (cases "a \<in> fst ` set cs")
    case True
    then have "a \<notin> dom h'" "a \<notin> dom h0" using e(2) assms(3) by auto
    then show ?thesis by (simp add: domIff)
  next
    case False
    then show ?thesis using e(3) assms(2) by simp
  qed
  then show ?thesis using e(1) by (auto simp: listRelease_def)
qed

lemma dup_loop_rep:
  assumes "list_rep h copy cs" "\<forall>a. a \<notin> fst ` set cs \<longrightarrow> h a = h0 a" "fst ` set cs \<inter> dom h0 = {}"
    "dseg h0 p ns None" "length ns < fuel" "length ns \<le> length as" "distinct as" "set as \<inter> (dom h0 \<union> fst ` set cs) = {}"
  shows "case those (map (dup_value copy) (map snd ns)) of
      None \<Rightarrow> dup_loop fuel (map Some as) h \<lparr>li_next = firstp ns None, li_direction = AL_START_HEAD\<rparr> copy = Some (h0, None)
    | Some vs \<Rightarrow> \<exists>h' copy'. dup_loop fuel (map Some as) h \<lparr>li_next = firstp ns None, li_direction = AL_START_HEAD\<rparr> copy =
        Some (h', Some copy') \<and> list_rep h' copy' (cs @ zip as vs) \<and> ldup copy' = ldup copy \<and> lmatch copy' = lmatch copy \<and>
        (\<forall>a. a \<notin> fst ` set (cs @ zip as vs) \<longrightarrow> h' a = h0 a)"
  using assms
proof (induction ns arbitrary: fuel h copy cs as p)
  case Nil
  then show ?case by (cases fuel) (auto simp: listNext_def)
next
  case (Cons n ns)
  obtain b v where n: "n = (b, v)" by (cases n)
  obtain f where fu: "fuel = Suc f" using Cons.prems(5) by (cases fuel) auto
  obtain a as' where as: "as = a # as'" using Cons.prems(6) by (cases as) auto
  have hb: "h0 b = Some \<lparr>ln_prev = p, ln_next = firstp ns None, ln_value = v\<rparr>" "dseg h0 (Some b) ns None"
    using Cons.prems(4) n by simp_all
  then have "b \<notin> fst ` set cs" using Cons.prems(3) by auto
  then obtain nd where hb': "h b = Some nd" "ln_next nd = firstp ns None" "ln_value nd = v"
    using hb(1) Cons.prems(2) by simp
  let ?it = "\<lparr>li_next = Some b, li_direction = AL_START_HEAD\<rparr>"
  have nx: "listNext h ?it = Some (\<lparr>li_next = firstp ns None, li_direction = AL_START_HEAD\<rparr>, Some b)"
    using hb' by (simp add: listNext_Cons)
  show ?case
  proof (cases "dup_value copy v")
    case None
    moreover have "(case ldup copy of None \<Rightarrow> Some (ln_value nd) | Some f \<Rightarrow> f (ln_value nd)) = None"
      using None unfolding hb'(3) dup_value_def .
    ultimately show ?thesis
      using nx fu n hb' listRelease_rep [OF Cons.prems(1,2,3)] by (simp add: get_node_def)
  next
    case (Some w)
    then have dv: "(case ldup copy of None \<Rightarrow> Some (ln_value nd) | Some f \<Rightarrow> f (ln_value nd)) = Some w"
      unfolding hb'(3) dup_value_def .
    have a: "a \<notin> fst ` set cs" using Cons.prems(8) as by auto
    obtain h1 c1 where add: "listAddNodeTail (Some a) w h copy = Some (h1, c1, True)" "list_rep h1 c1 (cs @ [(a, w)])"
      "ldup c1 = ldup copy" "lmatch c1 = lmatch copy" "\<forall>b. b \<noteq> a \<and> b \<notin> fst ` set cs \<longrightarrow> h1 b = h b"
      using listAddNodeTail_rep [OF Cons.prems(1) a] by blast
    have step: "dup_loop fuel (map Some as) h ?it copy =
        dup_loop f (map Some as') h1 \<lparr>li_next = firstp ns None, li_direction = AL_START_HEAD\<rparr> c1"
      using nx fu n hb' as add(1) dv by (simp add: get_node_def)
    have eq: "dup_value c1 = dup_value copy" using add(3) by (simp add: dup_value_def fun_eq_iff)
    note IH = Cons.IH [OF add(2), of "Some b" f as', unfolded eq]
    show ?thesis
      using IH Cons.prems hb(2) fu as add(3,4,5) Some step n
      by (auto split: option.splits)
  qed
qed

text \<open>
  A loop over the list that removes some of the nodes it is given, as the comment of \<open>listNext\<close>
  allows; the result lists the values in the order they are visited.
\<close>

fun walk_del :: "nat \<Rightarrow> ('a \<Rightarrow> bool) \<Rightarrow> 'a heap \<Rightarrow> 'a list_t \<Rightarrow> listIter \<Rightarrow> ('a heap \<times> 'a list_t \<times> 'a list) option" where
  "walk_del 0 del h l it = None"
| "walk_del (Suc fuel) del h l it =
    do {
      (it1, node) \<leftarrow> listNext h it;
      (case node of
         None \<Rightarrow> Some (h, l, [])
       | Some a \<Rightarrow>
           do {
             n \<leftarrow> get_node h node;
             (h1, l1) \<leftarrow> (if del (ln_value n) then listDelNode node h l else Some (h, l));
             (h2, l2, vs) \<leftarrow> walk_del fuel del h1 l1 it1;
             Some (h2, l2, ln_value n # vs)
           })
    }"

lemma walk_del_rep:
  assumes "list_rep h l (xs @ ys)" "length ys < fuel"
  shows "\<exists>h' l'. walk_del fuel del h l \<lparr>li_next = firstp ys None, li_direction = AL_START_HEAD\<rparr> =
      Some (h', l', map snd ys) \<and> list_rep h' l' (xs @ filter (\<lambda>n. \<not> del (snd n)) ys)"
  using assms
proof (induction fuel arbitrary: h l xs ys)
  case (Suc fuel)
  show ?case
  proof (cases ys)
    case Nil
    with Suc.prems show ?thesis by (simp add: listNext_def)
  next
    case (Cons n ms)
    obtain a v where n: "n = (a, v)" by (cases n)
    obtain nd where nd: "h a = Some nd" "ln_next nd = firstp ms None" "ln_value nd = v"
      using Suc.prems(1) Cons n by (auto simp: list_rep_def)
    note nx = listNext_Cons [of h a nd, OF nd(1)]
    show ?thesis
    proof (cases "del v")
      case True
      obtain h1 l1 where d: "listDelNode (Some a) h l = Some (h1, l1)" "list_rep h1 l1 (xs @ ms)"
        using listDelNode_rep [of h l xs a v ms] Suc.prems(1) Cons n by auto
      with Suc.IH [OF d(2)] Suc.prems(2) Cons n nd nx True show ?thesis by (auto simp: get_node_def)
    next
      case False
      have "list_rep h l ((xs @ [(a, v)]) @ ms)" using Suc.prems(1) Cons n by simp
      from Suc.IH [OF this] Suc.prems(2) Cons n nd nx False show ?thesis by (auto simp: get_node_def)
    qed
  qed
qed simp

section \<open>The linked list as a list\<close>

text \<open>The nodes reached from the head.\<close>

fun nodes_from :: "nat \<Rightarrow> 'a heap \<Rightarrow> ptr \<Rightarrow> 'a nodes" where
  "nodes_from 0 h p = []"
| "nodes_from (Suc k) h p =
    (case p of
       None \<Rightarrow> []
     | Some a \<Rightarrow> (case h a of None \<Rightarrow> [] | Some n \<Rightarrow> (a, ln_value n) # nodes_from k h (ln_next n)))"

definition nodes_of :: "'a heap \<times> 'a list_t \<Rightarrow> 'a nodes" where
  "nodes_of hl = nodes_from (llen (snd hl)) (fst hl) (lhead (snd hl))"

lemma nodes_from_dseg: "dseg h p ns q \<Longrightarrow> nodes_from (length ns) h (firstp ns r) = ns"
  by (induction h p ns q arbitrary: r rule: dseg.induct) auto

lemma nodes_of_rep: "list_rep h l ns \<Longrightarrow> nodes_of (h, l) = ns"
  using nodes_from_dseg [of h None ns None None] by (simp add: nodes_of_def list_rep_def)

text \<open>The list owns the heap: nothing else is allocated, and nothing leaks.\<close>

definition list_ok :: "('a \<Rightarrow> 'a \<Rightarrow> bool) option \<Rightarrow> 'a heap \<times> 'a list_t \<Rightarrow> bool" where
  "list_ok M hl \<longleftrightarrow> list_rep (fst hl) (snd hl) (nodes_of hl) \<and> dom (fst hl) = fst ` set (nodes_of hl) \<and>
     lmatch (snd hl) = M"

lemma list_okI: "list_rep h l ns \<Longrightarrow> dom h = fst ` set ns \<Longrightarrow> lmatch l = M \<Longrightarrow> list_ok M (h, l) \<and> nodes_of (h, l) = ns"
  using nodes_of_rep [of h l ns] by (simp add: list_ok_def)

datatype 'a list_op =
    AddHead nat 'a
  | AddTail nat 'a
  | Insert nat nat 'a bool
  | DelNode nat
  | Index int
  | Search nat 'a
  | Rotate
  | EmptyList

datatype list_reply = Node ptr | Added bool | Unit

definition list_step :: "'a list_op \<Rightarrow> 'a heap \<times> 'a list_t \<Rightarrow> (('a heap \<times> 'a list_t) \<times> list_reply) option" where
  "list_step op hl =
    (case hl of (h, l) \<Rightarrow>
      (case op of
         AddHead a v \<Rightarrow> do { (h1, l1, b) \<leftarrow> listAddNodeHead (Some a) v h l; Some ((h1, l1), Added b) }
       | AddTail a v \<Rightarrow> do { (h1, l1, b) \<leftarrow> listAddNodeTail (Some a) v h l; Some ((h1, l1), Added b) }
       | Insert b a v after \<Rightarrow>
           do { (h1, l1, r) \<leftarrow> listInsertNode (Some a) (Some b) v after h l; Some ((h1, l1), Added r) }
       | DelNode a \<Rightarrow> do { (h1, l1) \<leftarrow> listDelNode (Some a) h l; Some ((h1, l1), Unit) }
       | Index i \<Rightarrow> do { p \<leftarrow> listIndex h l i; Some ((h, l), Node p) }
       | Search fuel key \<Rightarrow> do { p \<leftarrow> listSearchKey fuel h l key; Some ((h, l), Node p) }
       | Rotate \<Rightarrow> do { (h1, l1) \<leftarrow> listRotate h l; Some ((h1, l1), Unit) }
       | EmptyList \<Rightarrow> do { (h1, l1) \<leftarrow> listEmpty h l; Some ((h1, l1), Unit) }))"

fun ins_node :: "nat \<Rightarrow> nat \<times> 'a \<Rightarrow> bool \<Rightarrow> 'a nodes \<Rightarrow> 'a nodes" where
  "ins_node b x after [] = []"
| "ins_node b x after (n # ns) =
    (if fst n = b then (if after then n # x # ns else x # n # ns) else n # ins_node b x after ns)"

definition at_index :: "'b list \<Rightarrow> int \<Rightarrow> 'b option" where
  "at_index ns i =
    (if 0 \<le> i \<and> i < int (length ns) then Some (ns ! nat i)
     else if i < 0 \<and> - int (length ns) \<le> i then Some (ns ! nat (int (length ns) + i))
     else None)"

fun nodes_step :: "('a \<Rightarrow> 'a \<Rightarrow> bool) option \<Rightarrow> 'a list_op \<Rightarrow> 'a nodes \<Rightarrow> 'a nodes \<times> list_reply" where
  "nodes_step M (AddHead a v) ns = ((a, v) # ns, Added True)"
| "nodes_step M (AddTail a v) ns = (ns @ [(a, v)], Added True)"
| "nodes_step M (Insert b a v after) ns = (ins_node b (a, v) after ns, Added True)"
| "nodes_step M (DelNode a) ns = (filter (\<lambda>n. fst n \<noteq> a) ns, Unit)"
| "nodes_step M (Index i) ns = (ns, Node (map_option fst (at_index ns i)))"
| "nodes_step M (Search fuel key) ns =
    (ns, Node (map_option fst (find (\<lambda>n. case M of Some f \<Rightarrow> f (snd n) key | None \<Rightarrow> key = snd n) ns)))"
| "nodes_step M Rotate ns = (if length ns \<le> 1 then ns else last ns # butlast ns, Unit)"
| "nodes_step M EmptyList ns = ([], Unit)"

text \<open>New addresses are fresh, the nodes named are in the list, searches have enough rounds.\<close>

fun legal_op :: "'a list_op \<Rightarrow> 'a nodes \<Rightarrow> bool" where
  "legal_op (AddHead a v) ns \<longleftrightarrow> a \<notin> fst ` set ns"
| "legal_op (AddTail a v) ns \<longleftrightarrow> a \<notin> fst ` set ns"
| "legal_op (Insert b a v after) ns \<longleftrightarrow> a \<notin> fst ` set ns \<and> b \<in> fst ` set ns"
| "legal_op (DelNode a) ns \<longleftrightarrow> a \<in> fst ` set ns"
| "legal_op (Search fuel key) ns \<longleftrightarrow> length ns < fuel"
| "legal_op op ns \<longleftrightarrow> True"

lemma ins_node_split:
  "b \<notin> fst ` set xs \<Longrightarrow> ins_node b x after (xs @ (b, w) # ys) =
     (if after then xs @ (b, w) # x # ys else xs @ x # (b, w) # ys)"
  by (induction xs) auto

lemma list_step_sim:
  assumes ok: "list_ok M hl" and legal: "legal_op op (nodes_of hl)"
  shows "\<exists>hl' r. list_step op hl = Some (hl', r) \<and> list_ok M hl' \<and>
    nodes_step M op (nodes_of hl) = (nodes_of hl', r) \<and> length (nodes_of hl') \<le> length (nodes_of hl) + 1"
proof -
  obtain h l where hl: "hl = (h, l)" by (cases hl)
  let ?ns = "nodes_of (h, l)"
  have r: "list_rep h l ?ns" and d: "dom h = fst ` set ?ns" and m: "lmatch l = M" and dis: "distinct (map fst ?ns)"
    using ok hl by (simp_all add: list_ok_def list_rep_def)
  have split: "\<exists>xs w ys. ?ns = xs @ (b, w) # ys \<and> b \<notin> fst ` set xs \<and> b \<notin> fst ` set ys" if "b \<in> fst ` set ?ns" for b
  proof -
    from that obtain w where "(b, w) \<in> set ?ns" by auto
    then obtain xs ys where "?ns = xs @ (b, w) # ys" by (auto simp: in_set_conv_decomp)
    with dis show ?thesis by (auto simp: image_iff)
  qed
  have known: "\<exists>hl' r'. list_step op hl = Some (hl', r') \<and> list_ok M hl' \<and>
      nodes_step M op (nodes_of hl) = (nodes_of hl', r') \<and> length (nodes_of hl') \<le> length (nodes_of hl) + 1"
    if "list_step op (h, l) = Some ((h', l'), r)" "list_rep h' l' ns'" "dom h' = fst ` set ns'" "lmatch l' = M"
      "nodes_step M op ?ns = (ns', r)" "length ns' \<le> length ?ns + 1" for h' l' r ns'
    using that list_okI [OF that(2,3,4)] hl by auto
  show ?thesis
  proof (cases op)
    case (AddHead a v)
    then obtain h' l' where "listAddNodeHead (Some a) v h l = Some (h', l', True)" "list_rep h' l' ((a, v) # ?ns)"
      "lmatch l' = lmatch l" "dom h' = insert a (dom h)"
      using listAddNodeHead_rep [OF r, of a v] legal hl by auto
    with AddHead d m show ?thesis by (intro known [of h' l' "Added True" "(a, v) # ?ns"]) (auto simp: list_step_def)
  next
    case (AddTail a v)
    then obtain h' l' where "listAddNodeTail (Some a) v h l = Some (h', l', True)" "list_rep h' l' (?ns @ [(a, v)])"
      "lmatch l' = lmatch l" "dom h' = insert a (dom h)"
      using listAddNodeTail_rep [OF r, of a v] legal hl by auto
    with AddTail d m show ?thesis by (intro known [of h' l' "Added True" "?ns @ [(a, v)]"]) (auto simp: list_step_def)
  next
    case (Insert b a v after)
    then obtain xs w ys where s: "?ns = xs @ (b, w) # ys" "b \<notin> fst ` set xs" "a \<notin> fst ` set (xs @ (b, w) # ys)"
      using split [of b] legal hl by auto
    have "\<exists>h' l'. listInsertNode (Some a) (Some b) v after h l = Some (h', l', True) \<and>
        list_rep h' l' (ins_node b (a, v) after ?ns) \<and> lmatch l' = lmatch l \<and> dom h' = insert a (dom h)"
      using listInsertNode_after [OF r [unfolded s(1)] s(3), of v] listInsertNode_before [OF r [unfolded s(1)] s(3), of v]
      unfolding s(1) ins_node_split [OF s(2)] by (cases after) auto
    then obtain h' l' where "listInsertNode (Some a) (Some b) v after h l = Some (h', l', True)"
      "list_rep h' l' (ins_node b (a, v) after ?ns)" "lmatch l' = lmatch l" "dom h' = insert a (dom h)" by blast
    with Insert d m s(1) ins_node_split [OF s(2)] show ?thesis
      by (intro known [of h' l' "Added True" "ins_node b (a, v) after ?ns"]) (auto simp: list_step_def)
  next
    case (DelNode a)
    then obtain xs w ys where s: "?ns = xs @ (a, w) # ys" "a \<notin> fst ` set xs" "a \<notin> fst ` set ys"
      using split [of a] legal hl by auto
    obtain h' l' where "listDelNode (Some a) h l = Some (h', l')" "list_rep h' l' (xs @ ys)" "lmatch l' = lmatch l"
      "dom h' = dom h - {a}"
      using listDelNode_rep [OF r [unfolded s(1)]] by blast
    moreover have "filter (\<lambda>n. fst n \<noteq> a) ?ns = xs @ ys"
      using s(2,3) unfolding s(1) by (auto simp: image_iff intro!: arg_cong2 [of _ _ _ _ "(@)"] filter_True)
    ultimately show ?thesis using DelNode d m s by (intro known [of h' l' Unit "xs @ ys"]) (auto simp: list_step_def)
  next
    case (Index i)
    with listIndex_rep [OF r, of i] r d m show ?thesis
      by (intro known [of h l "Node (map_option fst (at_index ?ns i))" ?ns]) (auto simp: list_step_def at_index_def)
  next
    case (Search fuel key)
    with listSearchKey_rep [OF r, of fuel key] r d m legal hl show ?thesis
      by (intro known [of h l "snd (nodes_step M op ?ns)" ?ns]) (auto simp: list_step_def value_match_def)
  next
    case Rotate
    obtain h' l' where "listRotate h l = Some (h', l')"
      "list_rep h' l' (if length ?ns \<le> 1 then ?ns else last ?ns # butlast ?ns)" "dom h' = dom h" "lmatch l' = lmatch l"
      using listRotate_rep [OF r] by blast
    moreover have "length ?ns > 1 \<Longrightarrow> set (last ?ns # butlast ?ns) = set ?ns"
      by (cases ?ns rule: rev_cases) auto
    ultimately show ?thesis using Rotate d m
      by (intro known [of h' l' Unit "if length ?ns \<le> 1 then ?ns else last ?ns # butlast ?ns"]) (auto simp: list_step_def)
  next
    case EmptyList
    obtain h' l' where "listEmpty h l = Some (h', l')" "list_rep h' l' []" "dom h' = dom h - fst ` set ?ns" "lmatch l' = lmatch l"
      using listEmpty_rep [OF r] by blast
    with EmptyList d m show ?thesis by (intro known [of h' l' Unit "[]"]) (auto simp: list_step_def)
  qed
qed

interpretation list_sim: simulation list_step "nodes_step M" nodes_of "list_ok M" legal_op
  "\<lambda>hl. length (nodes_of hl)" limit for M limit
  by unfold_locales (rule list_step_sim)

lemma listCreate_ok: "list_ok None (Map.empty, listCreate)" "nodes_of (Map.empty, listCreate) = []"
  by (simp_all add: list_ok_def nodes_of_def list_rep_def listCreate_def)

section \<open>Properties\<close>

text \<open>C10: Any sequence of insertions at either end or next to a node, deletions, rotations, clearing,
  positional and key searches on a fresh linked list behaves as on the sequence of its nodes.  No
  dangling or \<open>NULL\<close> pointer is followed, all \<open>prev\<close> and \<open>next\<close> pointers agree with the sequence
  afterwards, and the heap holds exactly the nodes of the list: no node leaks.\<close>

theorem adlist_refines_list:
  assumes "legal_run legal_op (nodes_step None) ops []"
  shows "\<exists>h l rs. run_ops list_step ops (Map.empty, listCreate) = Some ((h, l), rs) \<and>
    list_rep h l (nodes_of (h, l)) \<and> dom h = fst ` set (nodes_of (h, l)) \<and>
    run_spec (nodes_step None) ops [] = (nodes_of (h, l), rs)"
proof -
  obtain hl rs where "run_ops list_step ops (Map.empty, listCreate) = Some (hl, rs)" "list_ok None hl"
    "run_spec (nodes_step None) ops [] = (nodes_of hl, rs)"
    using list_sim.run_sim [OF listCreate_ok(1), of ops "length ops"] assms by (auto simp: listCreate_ok(2))
  then show ?thesis by (cases hl) (auto simp: list_ok_def)
qed

theorem adlist_refines_list_witness:
  "\<exists>h l. run_ops list_step
      [AddTail 10 ''b'', AddHead 20 ''a'', Insert 10 30 ''c'' True, Rotate, DelNode 20, Index (- 1), Search 5 ''b'']
      (Map.empty, listCreate) =
    Some ((h, l), [Added True, Added True, Added True, Unit, Unit, Node (Some 10), Node (Some 10)]) \<and>
    nodes_of (h, l) = [(30, ''c''), (10, ''b'')]"
  using adlist_refines_list
    [of "[AddTail 10 ''b'', AddHead 20 ''a'', Insert 10 30 ''c'' True, Rotate, DelNode 20, Index (- 1), Search 5 ''b'']"]
  by (auto simp: at_index_def)

text \<open>C24: \<open>listDup\<close> copies the list into fresh nodes and leaves the original as it was; when the \<open>dup\<close>
  method fails on a value, everything allocated so far is released and the heap is exactly what
  it was.\<close>

theorem listDup_correct:
  assumes "list_rep h l ns" "length ns < fuel" "length ns \<le> length as" "distinct as" "set as \<inter> dom h = {}"
  shows "case those (map (dup_value l) (map snd ns)) of
      None \<Rightarrow> listDup fuel (map Some as) h l = Some (h, None)
    | Some vs \<Rightarrow> \<exists>h' l'. listDup fuel (map Some as) h l = Some (h', Some l') \<and> list_rep h' l' (zip as vs) \<and>
        list_rep h' l ns \<and> ldup l' = ldup l \<and> lmatch l' = lmatch l"
proof -
  let ?c = "listCreate\<lparr>ldup := ldup l, lmatch := lmatch l\<rparr>"
  have c: "list_rep h ?c []" by (simp add: list_rep_def listCreate_def)
  have dv: "dup_value ?c = dup_value l" by (simp add: dup_value_def fun_eq_iff)
  have d: "dseg h None ns None" and hd: "lhead l = firstp ns None" using assms(1) by (simp_all add: list_rep_def)
  have it: "listRewind l = \<lparr>li_next = firstp ns None, li_direction = AL_START_HEAD\<rparr>" by (simp add: listRewind_def hd)
  note dl = dup_loop_rep [OF c _ _ d assms(2,3,4), unfolded dv, folded it]
  show ?thesis
  proof (cases "those (map (dup_value l) (map snd ns))")
    case None
    with dl assms(5) show ?thesis by (simp add: listDup_def)
  next
    case (Some vs)
    with dl assms(5) obtain h' l' where r: "listDup fuel (map Some as) h l = Some (h', Some l')" "list_rep h' l' (zip as vs)"
      "ldup l' = ldup l" "lmatch l' = lmatch l" "\<forall>a. a \<notin> fst ` set (zip as vs) \<longrightarrow> h' a = h a"
      by (auto simp: listDup_def)
    have "h' a = h a" if "a \<in> fst ` set ns" for a
    proof -
      have "a \<in> dom h" using dseg_alloc [OF d that] by auto
      then have "a \<notin> fst ` set (zip as vs)" using assms(5) by (auto dest: set_zip_leftD)
      then show ?thesis using r(5) by simp
    qed
    then have "list_rep h' l ns" using assms(1) dseg_frame [of ns h' h] by (simp add: list_rep_def)
    with r Some show ?thesis by auto
  qed
qed

definition ex_heap :: "nat heap" where
  "ex_heap = [1 \<mapsto> \<lparr>ln_prev = None, ln_next = Some 2, ln_value = 10\<rparr>, 2 \<mapsto> \<lparr>ln_prev = Some 1, ln_next = None, ln_value = 20\<rparr>]"

definition ex_list :: "nat list_t" where
  "ex_list = \<lparr>lhead = Some 1, ltail = Some 2, ldup = Some (\<lambda>v. if v = 0 then None else Some (v + 1)), lmatch = None, llen = 2\<rparr>"

lemma ex_list_rep: "list_rep ex_heap ex_list [(1, 10), (2, 20)]"
  by (simp add: list_rep_def ex_heap_def ex_list_def)

theorem listDup_correct_witness:
  "\<exists>h' l'. listDup 3 [Some 7, Some 8] ex_heap ex_list = Some (h', Some l') \<and> list_rep h' l' [(7, 11), (8, 21)]"
proof -
  have "set [7, 8] \<inter> dom ex_heap = {}" by (auto simp: ex_heap_def)
  then show ?thesis
    using listDup_correct [OF ex_list_rep, of 3 "[7, 8]"] by (auto simp: dup_value_def ex_list_def)
qed

text \<open>C25: A loop over the list that removes, with \<open>listDelNode\<close>, some of the nodes \<open>listNext\<close> has just
  returned visits every value exactly once, in order, and leaves the others in order.\<close>

theorem iteration_with_removal:
  assumes "list_rep h l ns" "length ns < fuel"
  shows "\<exists>h' l'. walk_del fuel del h l (listRewind l) = Some (h', l', map snd ns) \<and>
    list_rep h' l' (filter (\<lambda>n. \<not> del (snd n)) ns)"
  using walk_del_rep [of h l "[]" ns fuel del] assms by (simp add: listRewind_def list_rep_def)

theorem iteration_with_removal_witness:
  "\<exists>h' l'. walk_del 3 (\<lambda>v. v = 10) ex_heap ex_list (listRewind ex_list) = Some (h', l', [10, 20]) \<and>
    list_rep h' l' [(2, 20)]"
  using iteration_with_removal [OF ex_list_rep, of 3 "\<lambda>v. v = 10"] by auto

text \<open>\<open>listJoin\<close> moves all nodes of the second list behind those of the first one, in order, and
  leaves the second list empty and valid; no other node changes.\<close>

lemma listJoin_correct:
  assumes "list_rep h l ns" "list_rep h o2 ms" "fst ` set ns \<inter> fst ` set ms = {}"
  shows "\<exists>h' l' o2'. listJoin h l o2 = Some (h', l', o2') \<and> list_rep h' l' (ns @ ms) \<and> list_rep h' o2' [] \<and>
    (\<forall>b. b \<notin> fst ` set (ns @ ms) \<longrightarrow> h' b = h b)"
  using listJoin_rep [OF assms] by blast

end
