(* ===== verification/Sds_Order.thy ===== *)
theory Sds_Order
  imports Prelude "HOL-Library.List_Lexorder" "HOL-Library.Product_Lexorder"
begin

text \<open>
  The comparison of strings, \<open>sdscmp\<close> of \<open>sds.c\<close>, and the order it stands for.  \<open>memcmp\<close> is the
  function of the C library on the first \<open>n\<close> bytes; of its result only the sign is specified, and
  the model returns -1, 0 or 1.
\<close>

fun memcmp :: "byte list \<Rightarrow> byte list \<Rightarrow> nat \<Rightarrow> int" where
  "memcmp (x # xs) (y # ys) (Suc n) = (if x < y then - 1 else if y < x then 1 else memcmp xs ys n)"
| "memcmp _ _ _ = 0"

definition sdscmp :: "byte list \<Rightarrow> byte list \<Rightarrow> int" where
  "sdscmp s1 s2 =
    (let l1 = length s1; l2 = length s2;
         minlen = (if l1 < l2 then l1 else l2);
         cmp = memcmp s1 s2 minlen
     in if cmp = 0 then (if l1 > l2 then 1 else if l1 < l2 then - 1 else 0) else cmp)"

lemma sdscmp_Nil: "sdscmp [] s = (if s = [] then 0 else - 1)" "sdscmp s [] = (if s = [] then 0 else 1)"
  by (simp_all add: sdscmp_def)

lemma sdscmp_Cons:
  "sdscmp (x # xs) (y # ys) = (if x < y then - 1 else if y < x then 1 else sdscmp xs ys)"
  by (simp add: sdscmp_def Let_def)

text \<open>\<open>sdscmp\<close> is the lexicographic order on the bytes.\<close>

lemma sdscmp_order: "sdscmp a b < 0 \<longleftrightarrow> a < b" "sdscmp a b = 0 \<longleftrightarrow> a = b" "sdscmp a b > 0 \<longleftrightarrow> b < a"
proof -
  have "(sdscmp a b < 0 \<longleftrightarrow> a < b) \<and> (sdscmp a b = 0 \<longleftrightarrow> a = b) \<and> (sdscmp a b > 0 \<longleftrightarrow> b < a)"
  proof (induction a arbitrary: b)
    case Nil
    show ?case by (cases b) (auto simp: sdscmp_Nil)
  next
    case (Cons x xs)
    show ?case
    proof (cases b)
      case Nil
      then show ?thesis by (simp add: sdscmp_Nil)
    next
      case b: (Cons y ys)
      show ?thesis using Cons.IH [of ys] by (auto simp: b sdscmp_Cons)
    qed
  qed
  then show "sdscmp a b < 0 \<longleftrightarrow> a < b" "sdscmp a b = 0 \<longleftrightarrow> a = b" "sdscmp a b > 0 \<longleftrightarrow> b < a" by auto
qed

end
