(* ===== verification/Skiplist.thy ===== *)
theory Skiplist
  imports Sds_Order "HOL-Library.Monad_Syntax"
begin

text \<open>
  The skip lists of \<open>t_zset.c\<close>, with the nodes in an explicit heap.  A node has an array of levels,
  each with a forward pointer and a span, the number of elements the pointer skips.  Dereferencing
  \<open>NULL\<close>, an address that is not allocated or a level the node does not have is the result \<open>None\<close>,
  as is a failing assertion.  Scores are a linearly ordered type: the doubles other than NaN.  The
  addresses \<open>zmalloc\<close> returns, the contents of fresh memory and the results of \<open>random()\<close> are
  arguments.
\<close>

section \<open>Data\<close>

type_synonym zptr = "nat option"

record 's zskiplistNode =
  z_ele :: "byte list option"
  z_score :: 's
  z_backward :: zptr
  z_level :: "(zptr \<times> nat) list"

type_synonym 's zheap = "nat \<rightharpoonup> 's zskiplistNode"

record zskiplist =
  zsl_header :: nat
  zsl_tail :: zptr
  zsl_length :: nat
  zsl_level :: nat

definition ZSKIPLIST_MAXLEVEL :: nat where
  "ZSKIPLIST_MAXLEVEL = 64"

text \<open>Reading and writing \<open>x->level[i]\<close> and \<open>x->backward\<close>.\<close>

definition get_level :: "'s zheap \<Rightarrow> nat \<Rightarrow> nat \<Rightarrow> (zptr \<times> nat) option" where
  "get_level h a i =
    do { n \<leftarrow> h a; if i < length (z_level n) then Some (z_level n ! i) else None }"

definition set_level :: "nat \<Rightarrow> nat \<Rightarrow> zptr \<times> nat \<Rightarrow> 's zheap \<Rightarrow> 's zheap option" where
  "set_level a i v h =
    do { n \<leftarrow> h a; if i < length (z_level n) then Some (h(a \<mapsto> n\<lparr>z_level := (z_level n)[i := v]\<rparr>)) else None }"

definition set_backward :: "nat \<Rightarrow> zptr \<Rightarrow> 's zheap \<Rightarrow> 's zheap option" where
  "set_backward a p h = do { n \<leftarrow> h a; Some (h(a \<mapsto> n\<lparr>z_backward := p\<rparr>)) }"

text \<open>A loop over a list of indices that may fail.\<close>

fun foldm :: "('i \<Rightarrow> 'h \<Rightarrow> 'h option) \<Rightarrow> 'i list \<Rightarrow> 'h \<Rightarrow> 'h option" where
  "foldm f [] h = Some h"
| "foldm f (i # is) h = do { h1 \<leftarrow> f i h; foldm f is h1 }"

section \<open>Creation and search\<close>

text \<open>The levels and the backward pointer of a new node are what the memory holds, \<open>junk\<close>.\<close>

definition zslCreateNode :: "zptr \<times> nat \<Rightarrow> nat \<Rightarrow> nat \<Rightarrow> 's \<Rightarrow> byte list option \<Rightarrow> 's zheap \<Rightarrow> 's zheap" where
  "zslCreateNode junk zn level score ele h =
    h(zn \<mapsto> \<lparr>z_ele = ele, z_score = score, z_backward = fst junk, z_level = replicate level junk\<rparr>)"

definition zslCreate :: "zptr \<times> nat \<Rightarrow> nat \<Rightarrow> 's \<Rightarrow> 's zheap \<Rightarrow> ('s zheap \<times> zskiplist) option" where
  "zslCreate junk hdr zero h =
    do {
      let h1 = zslCreateNode junk hdr ZSKIPLIST_MAXLEVEL zero None h;
      h2 \<leftarrow> foldm (\<lambda>j. set_level hdr j (None, 0)) [0..<ZSKIPLIST_MAXLEVEL] h1;
      h3 \<leftarrow> set_backward hdr None h2;
      Some (h3, \<lparr>zsl_header = hdr, zsl_tail = None, zsl_length = 0, zsl_level = 1\<rparr>)
    }"

text \<open>\<open>zslRandomLevel\<close> on the successive results of \<open>random()\<close>; \<open>ZSKIPLIST_P * 0xFFFF\<close> is 16383.75.\<close>

fun random_level_loop :: "nat list \<Rightarrow> nat \<Rightarrow> nat option" where
  "random_level_loop [] level = None"
| "random_level_loop (r # rs) level =
    (if r mod 0x10000 \<le> 16383 then random_level_loop rs (level + 1) else Some level)"

definition zslRandomLevel :: "nat list \<Rightarrow> nat option" where
  "zslRandomLevel rs =
    map_option (\<lambda>level. if level < ZSKIPLIST_MAXLEVEL then level else ZSKIPLIST_MAXLEVEL) (random_level_loop rs 1)"

text \<open>
  The loop that every search runs on one level: follow the forward pointers while the condition
  holds.  The condition sees the node pointed to and the number of elements traversed with it, and
  the second component counts the elements traversed.  The first argument bounds the steps.
\<close>

fun zsl_walk ::
  "nat \<Rightarrow> 's zheap \<Rightarrow> ('s zskiplistNode \<Rightarrow> nat \<Rightarrow> bool) \<Rightarrow> nat \<Rightarrow> nat \<Rightarrow> nat \<Rightarrow> (nat \<times> nat) option" where
  "zsl_walk 0 h cond i x traversed = None"
| "zsl_walk (Suc fuel) h cond i x traversed =
    do {
      (forward, span) \<leftarrow> get_level h x i;
      (case forward of
         None \<Rightarrow> Some (x, traversed)
       | Some y \<Rightarrow>
           do {
             n \<leftarrow> h y;
             if cond n (traversed + span) then zsl_walk fuel h cond i y (traversed + span)
             else Some (x, traversed)
           })
    }"

text \<open>
  The loop over the levels, from the highest down: the arrays \<open>update\<close> and \<open>rank\<close>, level 0 first.
\<close>

fun zsl_descend ::
  "nat \<Rightarrow> 's zheap \<Rightarrow> ('s zskiplistNode \<Rightarrow> nat \<Rightarrow> bool) \<Rightarrow> nat \<Rightarrow> nat \<Rightarrow> nat \<Rightarrow> (nat \<times> nat) list option" where
  "zsl_descend fuel h cond 0 x traversed = Some []"
| "zsl_descend fuel h cond (Suc i) x traversed =
    do {
      (x1, t1) \<leftarrow> zsl_walk fuel h cond i x traversed;
      rest \<leftarrow> zsl_descend fuel h cond i x1 t1;
      Some (rest @ [(x1, t1)])
    }"

definition zsl_search ::
  "'s zheap \<Rightarrow> zskiplist \<Rightarrow> ('s zskiplistNode \<Rightarrow> nat \<Rightarrow> bool) \<Rightarrow> (nat \<times> nat) list option" where
  "zsl_search h zsl cond = zsl_descend (zsl_length zsl + 1) h cond (zsl_level zsl) (zsl_header zsl) 0"

text \<open>The test of the searches by score and element; the header is never compared.\<close>

definition node_before :: "'s::linorder \<Rightarrow> byte list \<Rightarrow> 's zskiplistNode \<Rightarrow> nat \<Rightarrow> bool" where
  "node_before score ele n t \<longleftrightarrow>
    (z_score n < score \<or> z_score n = score \<and> sdscmp (the (z_ele n)) ele < 0)"

section \<open>Insertion and deletion\<close>

definition zslInsert ::
  "zptr \<times> nat \<Rightarrow> nat list \<Rightarrow> nat \<Rightarrow> 's::linorder \<Rightarrow> byte list \<Rightarrow> 's zheap \<Rightarrow> zskiplist \<Rightarrow> ('s zheap \<times> zskiplist) option" where
  "zslInsert junk rs x score ele h zsl =
    do {
      upd0 \<leftarrow> zsl_search h zsl (node_before score ele);
      level \<leftarrow> zslRandomLevel rs;
      let upd = upd0 @ replicate (level - zsl_level zsl) (zsl_header zsl, 0);
      h1 \<leftarrow> foldm (\<lambda>i h. do { (f, s) \<leftarrow> get_level h (zsl_header zsl) i; set_level (zsl_header zsl) i (f, zsl_length zsl) h })
              [zsl_level zsl..<level] h;
      let zsl_level' = (if level > zsl_level zsl then level else zsl_level zsl);
      let h2 = zslCreateNode junk x level score (Some ele) h1;
      let rank0 = snd (upd ! 0);
      h3 \<leftarrow> foldm (\<lambda>i h.
              do {
                let (u, r) = upd ! i;
                (f, s) \<leftarrow> get_level h u i;
                h \<leftarrow> set_level x i (f, s - (rank0 - r)) h;
                set_level u i (Some x, (rank0 - r) + 1) h
              }) [0..<level] h2;
      h4 \<leftarrow> foldm (\<lambda>i h. do { (f, s) \<leftarrow> get_level h (fst (upd ! i)) i; set_level (fst (upd ! i)) i (f, s + 1) h })
              [level..<zsl_level'] h3;
      h5 \<leftarrow> set_backward x (if fst (upd ! 0) = zsl_header zsl then None else Some (fst (upd ! 0))) h4;
      (f, _) \<leftarrow> get_level h5 x 0;
      (h6, tail) \<leftarrow>
        (case f of
           Some y \<Rightarrow> map_option (\<lambda>h. (h, zsl_tail zsl)) (set_backward y (Some x) h5)
         | None \<Rightarrow> Some (h5, Some x));
      Some (h6, zsl\<lparr>zsl_tail := tail, zsl_level := zsl_level', zsl_length := zsl_length zsl + 1\<rparr>)
    }"

text \<open>The loop at the end of \<open>zslDeleteNode\<close> that lowers the level of the list.\<close>

fun lower_level :: "'s zheap \<Rightarrow> nat \<Rightarrow> nat \<Rightarrow> nat option" where
  "lower_level h hdr 0 = Some 0"
| "lower_level h hdr (Suc k) =
    (if Suc k > 1 then
       do { (f, _) \<leftarrow> get_level h hdr k; if f = None then lower_level h hdr k else Some (Suc k) }
     else Some (Suc k))"

text \<open>The array \<open>update\<close> is the first components of the search result.\<close>

definition zslDeleteNode ::
  "nat \<Rightarrow> (nat \<times> nat) list \<Rightarrow> 's zheap \<Rightarrow> zskiplist \<Rightarrow> ('s zheap \<times> zskiplist) option" where
  "zslDeleteNode x upd h zsl =
    do {
      h1 \<leftarrow> foldm (\<lambda>i h.
              do {
                let u = fst (upd ! i);
                (f, s) \<leftarrow> get_level h u i;
                if f = Some x then do { (xf, xs) \<leftarrow> get_level h x i; set_level u i (xf, s + xs - 1) h }
                else set_level u i (f, s - 1) h
              }) [0..<zsl_level zsl] h;
      nx \<leftarrow> h1 x;
      (f, _) \<leftarrow> get_level h1 x 0;
      (h2, tail) \<leftarrow>
        (case f of
           Some y \<Rightarrow> map_option (\<lambda>h. (h, zsl_tail zsl)) (set_backward y (z_backward nx) h1)
         | None \<Rightarrow> Some (h1, z_backward nx));
      level \<leftarrow> lower_level h2 (zsl_header zsl) (zsl_level zsl);
      Some (h2, zsl\<lparr>zsl_tail := tail, zsl_level := level, zsl_length := zsl_length zsl - 1\<rparr>)
    }"

text \<open>\<open>zslDelete\<close> with \<open>node\<close> equal to \<open>NULL\<close>: the node is freed.\<close>

definition zslDelete ::
  "'s::linorder \<Rightarrow> byte list \<Rightarrow> 's zheap \<Rightarrow> zskiplist \<Rightarrow> ('s zheap \<times> zskiplist \<times> bool) option" where
  "zslDelete score ele h zsl =
    do {
      upd \<leftarrow> zsl_search h zsl (node_before score ele);
      (f, _) \<leftarrow> get_level h (fst (upd ! 0)) 0;
      (case f of
         None \<Rightarrow> Some (h, zsl, False)
       | Some x \<Rightarrow>
           do {
             n \<leftarrow> h x;
             if score = z_score n \<and> sdscmp (the (z_ele n)) ele = 0 then
               do {
                 (h1, zsl1) \<leftarrow> zslDeleteNode x upd h zsl;
                 Some (h1(x := None), zsl1, True)
               }
             else Some (h, zsl, False)
           })
    }"

definition zslUpdateScore ::
  "zptr \<times> nat \<Rightarrow> nat list \<Rightarrow> nat \<Rightarrow> 's::linorder \<Rightarrow> byte list \<Rightarrow> 's \<Rightarrow> 's zheap \<Rightarrow> zskiplist \<Rightarrow>
    ('s zheap \<times> zskiplist \<times> nat) option" where
  "zslUpdateScore junk rs new curscore ele newscore h zsl =
    do {
      upd \<leftarrow> zsl_search h zsl (node_before curscore ele);
      (f, _) \<leftarrow> get_level h (fst (upd ! 0)) 0;
      x \<leftarrow> f;
      n \<leftarrow> h x;
      if \<not> (curscore = z_score n \<and> sdscmp (the (z_ele n)) ele = 0) then None
      else
        do {
          before \<leftarrow> (case z_backward n of None \<Rightarrow> Some True | Some b \<Rightarrow> do { nb \<leftarrow> h b; Some (z_score nb < newscore) });
          (f1, _) \<leftarrow> get_level h x 0;
          after \<leftarrow> (case f1 of None \<Rightarrow> Some True | Some y \<Rightarrow> do { ny \<leftarrow> h y; Some (z_score ny > newscore) });
          if before \<and> after then Some (h(x \<mapsto> n\<lparr>z_score := newscore\<rparr>), zsl, x)
          else
            do {
              (h1, zsl1) \<leftarrow> zslDeleteNode x upd h zsl;
              (h2, zsl2) \<leftarrow> zslInsert junk rs new newscore (the (z_ele n)) h1 zsl1;
              Some (h2(x := None), zsl2, new)
            }
        }
    }"

section \<open>Ranges and ranks\<close>

record 's zrangespec =
  zr_min :: 's
  zr_max :: 's
  zr_minex :: bool
  zr_maxex :: bool

definition zslValueGteMin :: "'s::linorder \<Rightarrow> 's zrangespec \<Rightarrow> bool" where
  "zslValueGteMin v spec = (if zr_minex spec then v > zr_min spec else v \<ge> zr_min spec)"

definition zslValueLteMax :: "'s::linorder \<Rightarrow> 's zrangespec \<Rightarrow> bool" where
  "zslValueLteMax v spec = (if zr_maxex spec then v < zr_max spec else v \<le> zr_max spec)"

definition zslIsInRange :: "'s::linorder zheap \<Rightarrow> zskiplist \<Rightarrow> 's zrangespec \<Rightarrow> bool option" where
  "zslIsInRange h zsl rng =
    (if zr_min rng > zr_max rng \<or> (zr_min rng = zr_max rng \<and> (zr_minex rng \<or> zr_maxex rng))
     then Some False
     else
       (case zsl_tail zsl of
          None \<Rightarrow> Some False
        | Some x \<Rightarrow>
            do {
              n \<leftarrow> h x;
              if \<not> zslValueGteMin (z_score n) rng then Some False
              else
                do {
                  (f, _) \<leftarrow> get_level h (zsl_header zsl) 0;
                  (case f of
                     None \<Rightarrow> Some False
                   | Some y \<Rightarrow> do { m \<leftarrow> h y; Some (zslValueLteMax (z_score m) rng) })
                }
            }))"

text \<open>The results \<open>Some None\<close> are \<open>NULL\<close>.\<close>

definition zslFirstInRange :: "'s::linorder zheap \<Rightarrow> zskiplist \<Rightarrow> 's zrangespec \<Rightarrow> zptr option" where
  "zslFirstInRange h zsl rng =
    do {
      inside \<leftarrow> zslIsInRange h zsl rng;
      if \<not> inside then Some None
      else
        do {
          upd \<leftarrow> zsl_search h zsl (\<lambda>n t. \<not> zslValueGteMin (z_score n) rng);
          (f, _) \<leftarrow> get_level h (fst (upd ! 0)) 0;
          x \<leftarrow> f;
          n \<leftarrow> h x;
          Some (if \<not> zslValueLteMax (z_score n) rng then None else Some x)
        }
    }"

definition zslLastInRange :: "'s::linorder zheap \<Rightarrow> zskiplist \<Rightarrow> 's zrangespec \<Rightarrow> zptr option" where
  "zslLastInRange h zsl rng =
    do {
      inside \<leftarrow> zslIsInRange h zsl rng;
      if \<not> inside then Some None
      else
        do {
          upd \<leftarrow> zsl_search h zsl (\<lambda>n t. zslValueLteMax (z_score n) rng);
          let x = fst (upd ! 0);
          n \<leftarrow> h x;
          Some (if \<not> zslValueGteMin (z_score n) rng then None else Some x)
        }
    }"

text \<open>
  \<open>zslGetRank\<close> tests after each level whether the element is reached, so it has a loop of its own.
\<close>

fun rank_loop :: "nat \<Rightarrow> 's::linorder zheap \<Rightarrow> 's \<Rightarrow> byte list \<Rightarrow> nat \<Rightarrow> nat \<Rightarrow> nat \<Rightarrow> nat option" where
  "rank_loop fuel h score ele 0 x rank = Some 0"
| "rank_loop fuel h score ele (Suc i) x rank =
    do {
      (x1, r1) \<leftarrow> zsl_walk fuel h
        (\<lambda>n t. z_score n < score \<or> z_score n = score \<and> sdscmp (the (z_ele n)) ele \<le> 0) i x rank;
      n \<leftarrow> h x1;
      if z_ele n \<noteq> None \<and> sdscmp (the (z_ele n)) ele = 0 then Some r1
      else rank_loop fuel h score ele i x1 r1
    }"

definition zslGetRank :: "'s::linorder \<Rightarrow> byte list \<Rightarrow> 's zheap \<Rightarrow> zskiplist \<Rightarrow> nat option" where
  "zslGetRank score ele h zsl =
    rank_loop (zsl_length zsl + 1) h score ele (zsl_level zsl) (zsl_header zsl) 0"

fun by_rank_loop :: "nat \<Rightarrow> 's zheap \<Rightarrow> nat \<Rightarrow> nat \<Rightarrow> nat \<Rightarrow> nat \<Rightarrow> zptr option" where
  "by_rank_loop fuel h rank 0 x traversed = Some None"
| "by_rank_loop fuel h rank (Suc i) x traversed =
    do {
      (x1, t1) \<leftarrow> zsl_walk fuel h (\<lambda>n t. t \<le> rank) i x traversed;
      if t1 = rank then Some (Some x1) else by_rank_loop fuel h rank i x1 t1
    }"

definition zslGetElementByRank :: "nat \<Rightarrow> 's zheap \<Rightarrow> zskiplist \<Rightarrow> zptr option" where
  "zslGetElementByRank rank h zsl =
    by_rank_loop (zsl_length zsl + 1) h rank (zsl_level zsl) (zsl_header zsl) 0"

section \<open>Towers\<close>

text \<open>
  The shape of a skip list: the addresses and heights of its nodes in order, the header first.  The
  forward pointer of a node on level \<open>i\<close> leads to the next node higher than \<open>i\<close>.
\<close>

type_synonym towers = "(nat \<times> nat) list"

definition nxt :: "towers \<Rightarrow> nat \<Rightarrow> nat \<Rightarrow> nat option" where
  "nxt ps i p = find (\<lambda>q. i < snd (ps ! q)) [Suc p..<length ps]"

definition lev :: "towers \<Rightarrow> nat \<Rightarrow> nat \<Rightarrow> zptr \<times> nat" where
  "lev ps i p =
    (case nxt ps i p of
       None \<Rightarrow> (None, length ps - 1 - p)
     | Some q \<Rightarrow> (Some (fst (ps ! q)), q - p))"

text \<open>The last node higher than \<open>i\<close>.\<close>

definition lastpos :: "towers \<Rightarrow> nat \<Rightarrow> nat" where
  "lastpos A i = last (filter (\<lambda>q. i < snd (A ! q)) [0..<length A])"

lemma nxt_Some:
  "nxt ps i p = Some q \<longleftrightarrow> p < q \<and> q < length ps \<and> i < snd (ps ! q) \<and> (\<forall>r. p < r \<and> r < q \<longrightarrow> \<not> i < snd (ps ! r))"
proof -
  have "nxt ps i p = Some q \<longleftrightarrow> (\<exists>k < length ps - Suc p. i < snd (ps ! (Suc p + k)) \<and> q = Suc p + k \<and>
      (\<forall>j < k. \<not> i < snd (ps ! (Suc p + j))))"
    unfolding nxt_def find_Some_iff by (auto simp del: upt_Suc)
  also have "\<dots> \<longleftrightarrow> p < q \<and> q < length ps \<and> i < snd (ps ! q) \<and> (\<forall>r. p < r \<and> r < q \<longrightarrow> \<not> i < snd (ps ! r))"
    (is "?L \<longleftrightarrow> ?R")
  proof
    assume ?L
    then obtain k where k: "k < length ps - Suc p" "i < snd (ps ! (Suc p + k))" "q = Suc p + k"
      "\<forall>j < k. \<not> i < snd (ps ! (Suc p + j))" by blast
    have "\<not> i < snd (ps ! r)" if "p < r" "r < q" for r
      using k(4) [rule_format, of "r - Suc p"] that k(3) by simp
    with k show ?R by auto
  next
    assume R: ?R
    then have "q - Suc p < length ps - Suc p" "Suc p + (q - Suc p) = q" by auto
    with R show ?L by (intro exI [of _ "q - Suc p"]) auto
  qed
  finally show ?thesis .
qed

lemma nxt_None: "nxt ps i p = None \<longleftrightarrow> (\<forall>r. p < r \<and> r < length ps \<longrightarrow> \<not> i < snd (ps ! r))"
  unfolding nxt_def find_None_iff by (auto simp: Suc_le_eq)

lemma nxt_cong:
  assumes "\<And>r. p < r \<Longrightarrow> r < length ps \<Longrightarrow> snd (ps ! r) = snd (ps' ! r)" "length ps' = length ps"
  shows "nxt ps i p = nxt ps' i p"
  using assms unfolding nxt_def by (intro find_cong) auto

lemma lastpos:
  assumes "A \<noteq> []" "i < snd (A ! 0)"
  shows "lastpos A i < length A" "i < snd (A ! lastpos A i)" "\<And>r. lastpos A i < r \<Longrightarrow> r < length A \<Longrightarrow> \<not> i < snd (A ! r)"
proof -
  let ?f = "filter (\<lambda>q. i < snd (A ! q)) [0..<length A]"
  have "0 \<in> set ?f" using assms by simp
  then have ne: "?f \<noteq> []" by (metis empty_iff list.set(1))
  then have mem: "lastpos A i \<in> set ?f" unfolding lastpos_def by (rule last_in_set)
  then show "lastpos A i < length A" "i < snd (A ! lastpos A i)" by auto
  fix r assume r: "lastpos A i < r" "r < length A"
  show "\<not> i < snd (A ! r)"
  proof
    assume "i < snd (A ! r)"
    then have "r \<in> set ?f" using r(2) by simp
    moreover have "sorted ?f" by (simp add: sorted_wrt_filter)
    then have "\<forall>x \<in> set ?f. x \<le> last ?f"
      using ne by (metis append_butlast_last_id sorted_append set_append UnE list.set_intros(1) order_refl empty_iff list.set(1) set_ConsD)
    ultimately have "r \<le> lastpos A i" by (simp add: lastpos_def)
    with r(1) show False by simp
  qed
qed

lemma lastpos_unique:
  assumes "A \<noteq> []" "i < snd (A ! 0)" "u < length A" "i < snd (A ! u)" "\<And>r. u < r \<Longrightarrow> r < length A \<Longrightarrow> \<not> i < snd (A ! r)"
  shows "lastpos A i = u"
  using lastpos [OF assms(1,2)] assms(3,4,5) by (metis linorder_neqE_nat)

text \<open>Inserting a tower behind the towers \<open>A\<close>: what happens to the pointers and spans.\<close>

lemma nth_ins_left: "r < length A \<Longrightarrow> (A @ (x, L) # B) ! r = A ! r" "r < length A \<Longrightarrow> (A @ B) ! r = A ! r"
  by (simp_all add: nth_append)

lemma nth_ins_right: "length A \<le> r \<Longrightarrow> (A @ (x, L) # B) ! Suc r = (A @ B) ! r"
  by (simp add: nth_append Suc_diff_le)

lemma nth_ins_new: "(A @ (x, L) # B) ! length A = (x, L)"
  by simp

text \<open>Nodes behind the new one keep their pointers; their positions shift.\<close>

lemma nxt_ins_right:
  assumes "length A \<le> p"
  shows "nxt (A @ (x, L) # B) i (Suc p) = map_option Suc (nxt (A @ B) i p)"
proof (cases "nxt (A @ B) i p")
  case None
  have "\<not> i < snd ((A @ (x, L) # B) ! r)" if lt: "Suc p < r" "r < length (A @ (x, L) # B)" for r
  proof -
    obtain r' where "r = Suc r'" "p < r'" "r' < length (A @ B)" using lt by (cases r) auto
    with None assms show ?thesis using nth_ins_right [of A r' x L B] by (simp add: nxt_None)
  qed
  then have "nxt (A @ (x, L) # B) i (Suc p) = None" by (simp add: nxt_None)
  with None show ?thesis by simp
next
  case (Some q)
  then have q: "p < q" "q < length (A @ B)" "i < snd ((A @ B) ! q)" "\<forall>r. p < r \<and> r < q \<longrightarrow> \<not> i < snd ((A @ B) ! r)"
    by (auto simp: nxt_Some)
  have "\<not> i < snd ((A @ (x, L) # B) ! r)" if lt: "Suc p < r" "r < Suc q" for r
  proof -
    obtain r' where "r = Suc r'" "p < r'" "r' < q" using lt by (cases r) auto
    with q(4) assms show ?thesis using nth_ins_right [of A r' x L B] by simp
  qed
  then have "nxt (A @ (x, L) # B) i (Suc p) = Some (Suc q)"
    using q assms nth_ins_right [of A q x L B] by (auto simp: nxt_Some)
  with Some show ?thesis by simp
qed

lemma lev_ins_right:
  assumes "length A \<le> p" "p < length (A @ B)"
  shows "lev (A @ (x, L) # B) i (Suc p) = lev (A @ B) i p"
proof (cases "nxt (A @ B) i p")
  case None
  with assms show ?thesis by (simp add: lev_def nxt_ins_right)
next
  case (Some q)
  then have "length A \<le> q" using assms(1) by (simp add: nxt_Some)
  with Some assms(1) show ?thesis by (simp add: lev_def nxt_ins_right nth_ins_right)
qed

text \<open>Nodes before the new one that do not reach over it.\<close>

lemma nxt_ins_left:
  assumes "p < q" "q < length A" "i < snd (A ! q)"
  shows "nxt (A @ (x, L) # B) i p = nxt (A @ B) i p" "\<exists>r \<le> q. nxt (A @ B) i p = Some r"
proof -
  let ?r = "LEAST r. p < r \<and> i < snd (A ! r)"
  have l: "p < ?r" "i < snd (A ! ?r)" "?r \<le> q"
    using LeastI [of "\<lambda>r. p < r \<and> i < snd (A ! r)" q] Least_le [of "\<lambda>r. p < r \<and> i < snd (A ! r)" q] assms by auto
  have n: "\<not> i < snd (A ! s)" if "p < s" "s < ?r" for s
    using not_less_Least [OF that(2)] that(1) by blast
  have "nxt (A @ C) i p = Some ?r" for C :: towers
    using l n assms(2) by (auto simp: nxt_Some nth_append)
  then show "nxt (A @ (x, L) # B) i p = nxt (A @ B) i p" "\<exists>r \<le> q. nxt (A @ B) i p = Some r"
    using l(3) by auto
qed

lemma lev_ins_left:
  assumes "p < lastpos A i" "A \<noteq> []" "i < snd (A ! 0)"
  shows "lev (A @ (x, L) # B) i p = lev (A @ B) i p"
proof -
  note lp = lastpos [OF assms(2,3)]
  obtain r where r: "nxt (A @ B) i p = Some r" "r \<le> lastpos A i" "nxt (A @ (x, L) # B) i p = Some r"
    using nxt_ins_left(1) [OF assms(1) lp(1,2), of x L B] nxt_ins_left(2) [OF assms(1) lp(1,2), of B] by auto
  then have "r < length A" using lp(1) by simp
  with r show ?thesis by (simp add: lev_def nth_append)
qed

text \<open>The node whose pointer crosses the gap, in a list without and with a new tower.\<close>

lemma nxt_lastpos:
  assumes "A \<noteq> []" "i < snd (A ! 0)"
  shows "nxt (A @ C) i (lastpos A i) = nxt (A @ C) i (length A - 1)"
proof -
  note lp = lastpos [OF assms]
  let ?u = "lastpos A i"
  have A: "\<not> i < snd ((A @ C) ! r)" if "?u < r" "r < length A" for r
    using lp(3) that by (simp add: nth_append)
  show ?thesis
  proof (cases "nxt (A @ C) i (length A - 1)")
    case None
    have "\<not> i < snd ((A @ C) ! r)" if "?u < r" "r < length (A @ C)" for r
      using None A [of r] that by (cases "r < length A") (auto simp: nxt_None)
    then have "nxt (A @ C) i ?u = None" by (simp add: nxt_None)
    with None show ?thesis by simp
  next
    case (Some q)
    then have q: "length A - 1 < q" "q < length (A @ C)" "i < snd ((A @ C) ! q)"
      "\<forall>r. length A - 1 < r \<and> r < q \<longrightarrow> \<not> i < snd ((A @ C) ! r)" by (auto simp: nxt_Some)
    have "\<not> i < snd ((A @ C) ! r)" if "?u < r" "r < q" for r
      using q(4) A [of r] that by (cases "r < length A") auto
    with q lp(1) have "nxt (A @ C) i ?u = Some q" by (auto simp: nxt_Some)
    with Some show ?thesis by simp
  qed
qed

lemma nxt_new:
  assumes "A \<noteq> []" "i < snd (A ! 0)"
  shows "nxt (A @ (x, L) # B) i (length A) = map_option Suc (nxt (A @ B) i (lastpos A i))"
proof (cases "nxt (A @ B) i (length A - 1)")
  case None
  have "\<not> i < snd ((A @ (x, L) # B) ! r)" if lt: "length A < r" "r < length (A @ (x, L) # B)" for r
  proof -
    obtain r' where r': "r = Suc r'" "length A \<le> r'" "r' < length (A @ B)" using lt by (cases r) auto
    moreover from r'(2) have "length A - 1 < r'" using assms(1) by (cases A) auto
    ultimately show ?thesis using None nth_ins_right [OF r'(2), of x L B] by (auto simp: nxt_None)
  qed
  then have "nxt (A @ (x, L) # B) i (length A) = None" by (simp add: nxt_None)
  with None show ?thesis by (simp add: nxt_lastpos [OF assms])
next
  case (Some q)
  then have q: "length A - 1 < q" "q < length (A @ B)" "i < snd ((A @ B) ! q)"
    "\<forall>r. length A - 1 < r \<and> r < q \<longrightarrow> \<not> i < snd ((A @ B) ! r)" by (auto simp: nxt_Some)
  then have ql: "length A \<le> q" by linarith
  have "\<not> i < snd ((A @ (x, L) # B) ! r)" if lt: "length A < r" "r < Suc q" for r
  proof -
    obtain r' where r': "r = Suc r'" "length A \<le> r'" "r' < q" using lt by (cases r) auto
    moreover from r'(2) have "length A - 1 < r'" using assms(1) by (cases A) auto
    ultimately show ?thesis using q(4) nth_ins_right [OF r'(2), of x L B] by auto
  qed
  with q ql nth_ins_right [OF ql, of x L B] have "nxt (A @ (x, L) # B) i (length A) = Some (Suc q)"
    by (auto simp: nxt_Some)
  with Some show ?thesis by (simp add: nxt_lastpos [OF assms])
qed

lemma nxt_cross:
  assumes "A \<noteq> []" "i < snd (A ! 0)"
  shows "nxt (A @ (x, L) # B) i (lastpos A i) =
    (if i < L then Some (length A) else map_option Suc (nxt (A @ B) i (lastpos A i)))"
proof -
  note lp = lastpos [OF assms]
  let ?u = "lastpos A i" and ?ps = "A @ (x, L) # B"
  have A: "\<not> i < snd (?ps ! r)" if "?u < r" "r < length A" for r
    using lp(3) that by (simp add: nth_append)
  show ?thesis
  proof (cases "i < L")
    case True
    then have "nxt ?ps i ?u = Some (length A)" using lp(1) A by (auto simp: nxt_Some)
    with True show ?thesis by simp
  next
    case False
    have gap: "\<not> i < snd (?ps ! r)" if "?u < r" "r \<le> length A" for r
      using A [of r] False that by (cases "r = length A") auto
    have "nxt ?ps i ?u = nxt ?ps i (length A)"
    proof (cases "nxt ?ps i (length A)")
      case None
      have "\<not> i < snd (?ps ! r)" if "?u < r" "r < length ?ps" for r
        using None gap [of r] that by (cases "r \<le> length A") (auto simp: nxt_None)
      then have "nxt ?ps i ?u = None" by (simp add: nxt_None)
      with None show ?thesis by simp
    next
      case (Some q)
      have "\<not> i < snd (?ps ! r)" if "?u < r" "r < q" for r
        using Some gap [of r] that by (cases "r \<le> length A") (auto simp: nxt_Some)
      with Some lp(1) have "nxt ?ps i ?u = Some q" by (auto simp: nxt_Some)
      with Some show ?thesis by simp
    qed
    with False show ?thesis by (simp add: nxt_new [OF assms])
  qed
qed

lemma nxt_lastpos_ge:
  assumes "A \<noteq> []" "i < snd (A ! 0)" "nxt (A @ B) i (lastpos A i) = Some q"
  shows "length A \<le> q \<and> q < length (A @ B)"
proof -
  have "nxt (A @ B) i (length A - 1) = Some q" using assms(3) by (simp only: nxt_lastpos [OF assms(1,2)])
  then show ?thesis using assms(1) by (auto simp: nxt_Some)
qed

lemma lev_cross:
  assumes "A \<noteq> []" "i < snd (A ! 0)"
  shows "lev (A @ (x, L) # B) i (lastpos A i) =
    (if i < L then (Some x, length A - lastpos A i)
     else (fst (lev (A @ B) i (lastpos A i)), snd (lev (A @ B) i (lastpos A i)) + 1))"
proof -
  note lp = lastpos(1) [OF assms]
  show ?thesis
  proof (cases "nxt (A @ B) i (lastpos A i)")
    case None
    with lp show ?thesis by (auto simp: lev_def nxt_cross [OF assms])
  next
    case (Some q)
    then have "length A \<le> q" using nxt_lastpos_ge [OF assms] by simp
    with Some lp show ?thesis
      by (auto simp: lev_def nxt_cross [OF assms] nth_ins_right)
  qed
qed

lemma lev_new:
  assumes "A \<noteq> []" "i < snd (A ! 0)"
  shows "lev (A @ (x, L) # B) i (length A) =
    (fst (lev (A @ B) i (lastpos A i)), snd (lev (A @ B) i (lastpos A i)) - (length A - 1 - lastpos A i))"
proof -
  note lp = lastpos(1) [OF assms]
  show ?thesis
  proof (cases "nxt (A @ B) i (lastpos A i)")
    case None
    with lp show ?thesis by (auto simp: lev_def nxt_new [OF assms])
  next
    case (Some q)
    then have "length A \<le> q" using nxt_lastpos_ge [OF assms] by simp
    with Some lp show ?thesis
      by (auto simp: lev_def nxt_new [OF assms] nth_ins_right)
  qed
qed

text \<open>The spans of a new tower and of the pointer into it add up to the span of the crossing pointer.\<close>

lemma lev_span_ge:
  assumes "A \<noteq> []" "i < snd (A ! 0)"
  shows "length A - 1 - lastpos A i \<le> snd (lev (A @ B) i (lastpos A i))"
proof (cases "nxt (A @ B) i (lastpos A i)")
  case (Some q)
  have "length A \<le> q" using nxt_lastpos_ge [OF assms Some] by simp
  then have "length A - 1 \<le> q" by linarith
  then have "length A - 1 - lastpos A i \<le> q - lastpos A i" by (rule diff_le_mono)
  with Some show ?thesis by (simp add: lev_def)
qed (simp add: lev_def)

section \<open>The representation of a skip list\<close>

text \<open>
  A heap is seen through two views: the level entries, and the other fields with the height.
\<close>

definition fields :: "'s zheap \<Rightarrow> nat \<Rightarrow> (byte list option \<times> 's \<times> zptr \<times> nat) option" where
  "fields h a = map_option (\<lambda>n. (z_ele n, z_score n, z_backward n, length (z_level n))) (h a)"

text \<open>An element of a skip list: address, height, score and string.\<close>

type_synonym 's znode = "nat \<times> nat \<times> 's \<times> byte list"

abbreviation height :: "'s znode \<Rightarrow> nat" where "height n \<equiv> fst (snd n)"
abbreviation key :: "'s znode \<Rightarrow> 's \<times> byte list" where "key n \<equiv> snd (snd n)"

definition shape :: "nat \<Rightarrow> 's znode list \<Rightarrow> towers" where
  "shape hdr ns = (hdr, ZSKIPLIST_MAXLEVEL) # map (\<lambda>n. (fst n, height n)) ns"

definition zlevels :: "'s zheap \<Rightarrow> towers \<Rightarrow> nat \<Rightarrow> bool" where
  "zlevels h ps k \<longleftrightarrow>
    (\<forall>p < length ps. \<forall>i < snd (ps ! p). i < k \<longrightarrow> get_level h (fst (ps ! p)) i = Some (lev ps i p))"

fun zdata :: "(nat \<Rightarrow> (byte list option \<times> 's \<times> zptr \<times> nat) option) \<Rightarrow> zptr \<Rightarrow> 's znode list \<Rightarrow> bool" where
  "zdata F prev [] = True"
| "zdata F prev (n # ns) \<longleftrightarrow>
    F (fst n) = Some (Some (snd (key n)), fst (key n), prev, height n) \<and> zdata F (Some (fst n)) ns"

definition lastptr :: "zptr \<Rightarrow> 's znode list \<Rightarrow> zptr" where
  "lastptr prev ns = (if ns = [] then prev else Some (fst (last ns)))"

definition zrep :: "'s::linorder zheap \<Rightarrow> zskiplist \<Rightarrow> 's znode list \<Rightarrow> bool" where
  "zrep h z ns \<longleftrightarrow>
    distinct (zsl_header z # map fst ns) \<and>
    1 \<le> zsl_level z \<and> zsl_level z \<le> ZSKIPLIST_MAXLEVEL \<and>
    (\<forall>n \<in> set ns. 1 \<le> height n \<and> height n \<le> zsl_level z) \<and>
    (\<exists>s. fields h (zsl_header z) = Some (None, s, None, ZSKIPLIST_MAXLEVEL)) \<and>
    (\<forall>i. zsl_level z \<le> i \<and> i < ZSKIPLIST_MAXLEVEL \<longrightarrow> (\<exists>s. get_level h (zsl_header z) i = Some (None, s))) \<and>
    zlevels h (shape (zsl_header z) ns) (zsl_level z) \<and>
    zdata (fields h) None ns \<and>
    zsl_tail z = lastptr None ns \<and>
    zsl_length z = length ns \<and>
    sorted_wrt (<) (map key ns)"

lemma fields_set_level:
  assumes "fields h a = Some (e, s, b, l)" "i < l"
  obtains h' where "set_level a i v h = Some h'" "fields h' = fields h"
    "\<And>c j. get_level h' c j = (if c = a \<and> j = i then Some v else get_level h c j)"
proof -
  obtain n where n: "h a = Some n" "length (z_level n) = l" using assms(1) by (auto simp: fields_def)
  have "set_level a i v h = Some (h(a \<mapsto> n\<lparr>z_level := (z_level n)[i := v]\<rparr>))"
    using n assms(2) by (simp add: set_level_def)
  moreover have "fields (h(a \<mapsto> n\<lparr>z_level := (z_level n)[i := v]\<rparr>)) = fields h"
    using n by (auto simp: fields_def)
  moreover have "get_level (h(a \<mapsto> n\<lparr>z_level := (z_level n)[i := v]\<rparr>)) c j =
      (if c = a \<and> j = i then Some v else get_level h c j)" for c j
    using n assms(2) by (auto simp: get_level_def nth_list_update)
  ultimately show ?thesis using that by blast
qed

lemma fields_set_backward:
  assumes "fields h a = Some (e, s, b, l)"
  obtains h' where "set_backward a p h = Some h'" "fields h' = (fields h)(a \<mapsto> (e, s, p, l))"
    "\<And>c j. get_level h' c j = get_level h c j"
proof -
  obtain n where n: "h a = Some n" "length (z_level n) = l" "z_ele n = e" "z_score n = s"
    using assms(1) by (auto simp: fields_def)
  have "set_backward a p h = Some (h(a \<mapsto> n\<lparr>z_backward := p\<rparr>))"
    using n by (simp add: set_backward_def)
  moreover have "fields (h(a \<mapsto> n\<lparr>z_backward := p\<rparr>)) = (fields h)(a \<mapsto> (e, s, p, l))"
    using n by (auto simp: fields_def)
  moreover have "get_level (h(a \<mapsto> n\<lparr>z_backward := p\<rparr>)) c j = get_level h c j" for c j
    using n by (auto simp: get_level_def)
  ultimately show ?thesis using that by blast
qed

lemma get_level_fields: "get_level h a i \<noteq> None \<longleftrightarrow> (\<exists>e s b l. fields h a = Some (e, s, b, l) \<and> i < l)"
  by (cases "h a") (auto simp: get_level_def fields_def)

text \<open>A loop whose body for \<open>i\<close> only writes entries of level \<open>i\<close>.\<close>

lemma foldm_levels:
  assumes "\<And>i h. \<lbrakk>i \<in> set is; fields h = fields h0; \<And>a. get_level h a i = get_level h0 a i\<rbrakk> \<Longrightarrow>
      \<exists>h'. f i h = Some h' \<and> fields h' = fields h0 \<and> (\<forall>a j. get_level h' a j = (if j = i then G a i else get_level h a j))"
    and "distinct is"
  shows "\<exists>h'. foldm f is h0 = Some h' \<and> fields h' = fields h0 \<and>
    (\<forall>a j. get_level h' a j = (if j \<in> set is then G a j else get_level h0 a j))"
  using assms
proof (induction "is" arbitrary: h0)
  case (Cons i "is")
  from Cons.prems(1) [of i h0] obtain h1 where h1: "f i h0 = Some h1" "fields h1 = fields h0"
    "\<forall>a j. get_level h1 a j = (if j = i then G a i else get_level h0 a j)" by auto
  have "\<exists>h'. foldm f is h1 = Some h' \<and> fields h' = fields h1 \<and>
    (\<forall>a j. get_level h' a j = (if j \<in> set is then G a j else get_level h1 a j))"
  proof (rule Cons.IH)
    fix k h assume k: "k \<in> set is" "fields h = fields h1" "\<And>a. get_level h a k = get_level h1 a k"
    with Cons.prems(2) have "k \<noteq> i" by auto
    with k h1 show "\<exists>h'. f k h = Some h' \<and> fields h' = fields h1 \<and>
        (\<forall>a j. get_level h' a j = (if j = k then G a k else get_level h a j))"
      using Cons.prems(1) [of k h] by auto
  qed (use Cons.prems(2) in auto)
  with h1 show ?case by fastforce
qed auto

lemma zdata_append: "zdata F prev (A @ B) \<longleftrightarrow> zdata F prev A \<and> zdata F (lastptr prev A) B"
  by (induction A arbitrary: prev) (auto simp: lastptr_def)

lemma zdata_cong: "(\<And>n. n \<in> set ns \<Longrightarrow> F (fst n) = F' (fst n)) \<Longrightarrow> zdata F prev ns = zdata F' prev ns"
  by (induction ns arbitrary: prev) auto

lemma zdata_nth: "zdata F prev ns \<Longrightarrow> q < length ns \<Longrightarrow>
  F (fst (ns ! q)) = Some (Some (snd (key (ns ! q))), fst (key (ns ! q)), lastptr prev (take q ns), height (ns ! q))"
proof (induction ns arbitrary: prev q)
  case (Cons n ns)
  then show ?case by (cases q) (auto simp: lastptr_def)
qed simp

section \<open>Search\<close>

lemma zsl_walk_lastpos:
  assumes "zlevels h ps k" "i < k" "m < length ps" "p \<le> m" "i < snd (ps ! p)" "i < snd (ps ! 0)"
    "\<And>q. \<lbrakk>0 < q; q < length ps\<rbrakk> \<Longrightarrow> \<exists>n. h (fst (ps ! q)) = Some n \<and> (cond n q \<longleftrightarrow> q \<le> m)" "m - p < fuel"
  shows "zsl_walk fuel h cond i (fst (ps ! p)) p =
    Some (fst (ps ! lastpos (take (Suc m) ps) i), lastpos (take (Suc m) ps) i)"
  using assms(4,5,8)
proof (induction fuel arbitrary: p)
  case (Suc fuel)
  have gl: "get_level h (fst (ps ! p)) i = Some (lev ps i p)" using assms(1,2,3) Suc.prems by (simp add: zlevels_def)
  have ne: "take (Suc m) ps \<noteq> []" "i < snd (take (Suc m) ps ! 0)" using assms(3,6) by auto
  have stop: "lastpos (take (Suc m) ps) i = p" if "\<And>r. p < r \<Longrightarrow> r \<le> m \<Longrightarrow> \<not> i < snd (ps ! r)"
    using that Suc.prems assms(3) by (intro lastpos_unique ne) auto
  show ?case
  proof (cases "nxt ps i p")
    case None
    then have "lastpos (take (Suc m) ps) i = p" using assms(3) by (intro stop) (auto simp: nxt_None)
    with None gl show ?thesis by (simp add: lev_def)
  next
    case (Some q)
    then have q: "p < q" "q < length ps" "i < snd (ps ! q)" "\<And>r. p < r \<Longrightarrow> r < q \<Longrightarrow> \<not> i < snd (ps ! r)"
      by (auto simp: nxt_Some)
    obtain n where n: "h (fst (ps ! q)) = Some n" "cond n q \<longleftrightarrow> q \<le> m" using assms(7) [of q] q by auto
    show ?thesis
    proof (cases "q \<le> m")
      case True
      with Suc.prems q have "zsl_walk fuel h cond i (fst (ps ! q)) q =
          Some (fst (ps ! lastpos (take (Suc m) ps) i), lastpos (take (Suc m) ps) i)"
        by (intro Suc.IH) auto
      with True n gl Some q show ?thesis by (simp add: lev_def)
    next
      case False
      then have "lastpos (take (Suc m) ps) i = p" using q(4) by (intro stop) auto
      with False n gl Some q show ?thesis by (simp add: lev_def)
    qed
  qed
qed simp

lemma zsl_descend_lastpos:
  assumes "zlevels h ps k" "m < length ps" "k \<le> snd (ps ! 0)"
    "\<And>q. \<lbrakk>0 < q; q < length ps\<rbrakk> \<Longrightarrow> \<exists>n. h (fst (ps ! q)) = Some n \<and> (cond n q \<longleftrightarrow> q \<le> m)" "m < fuel"
    "j \<le> k" "p \<le> m" "j \<le> snd (ps ! p)"
  shows "zsl_descend fuel h cond j (fst (ps ! p)) p =
    Some (map (\<lambda>i. (fst (ps ! lastpos (take (Suc m) ps) i), lastpos (take (Suc m) ps) i)) [0..<j])"
  using assms(6-8)
proof (induction j arbitrary: p)
  case (Suc i)
  let ?u = "lastpos (take (Suc m) ps) i"
  have ne: "take (Suc m) ps \<noteq> []" "i < snd (take (Suc m) ps ! 0)" using assms(2,3) Suc.prems by auto
  note lp = lastpos [OF ne]
  have "zsl_walk fuel h cond i (fst (ps ! p)) p = Some (fst (ps ! ?u), ?u)"
    using assms(1-5) Suc.prems by (intro zsl_walk_lastpos) auto
  moreover have "zsl_descend fuel h cond i (fst (ps ! ?u)) ?u =
    Some (map (\<lambda>i. (fst (ps ! lastpos (take (Suc m) ps) i), lastpos (take (Suc m) ps) i)) [0..<i])"
    using Suc.prems lp(1,2) assms(2) by (intro Suc.IH) auto
  ultimately show ?case by simp
qed simp

end
