(* ===== verification/Skiplist_Ops.thy ===== *)
theory Skiplist_Ops
  imports Skiplist
begin

text \<open>
  What the operations on skip lists do to the sequence of elements a skip list stands for.
\<close>

section \<open>Searching a represented list\<close>

lemma shape_simps [simp]:
  "length (shape hdr ns) = Suc (length ns)" "shape hdr ns ! 0 = (hdr, ZSKIPLIST_MAXLEVEL)"
  "q < length ns \<Longrightarrow> shape hdr ns ! Suc q = (fst (ns ! q), height (ns ! q))" "shape hdr ns \<noteq> []"
  "map fst (shape hdr ns) = hdr # map fst ns" "fst ` set (shape hdr ns) = insert hdr (fst ` set ns)"
  by (auto simp: shape_def comp_def image_image)

lemma shape_append: "shape hdr (A @ B) = shape hdr A @ map (\<lambda>n. (fst n, height n)) B"
  by (simp add: shape_def)

lemma shape_take: "take (Suc m) (shape hdr ns) = shape hdr (take m ns)"
  by (simp add: shape_def take_map)

definition update_of :: "nat \<Rightarrow> 's znode list \<Rightarrow> nat \<Rightarrow> nat \<times> nat" where
  "update_of hdr A i = (fst (shape hdr A ! lastpos (shape hdr A) i), lastpos (shape hdr A) i)"

lemma zrep_node:
  assumes "zrep h z ns" "q < length ns"
  obtains n where "h (fst (ns ! q)) = Some n" "z_ele n = Some (snd (key (ns ! q)))" "z_score n = fst (key (ns ! q))"
    "z_backward n = lastptr None (take q ns)" "length (z_level n) = height (ns ! q)"
proof -
  have "fields h (fst (ns ! q)) = Some (Some (snd (key (ns ! q))), fst (key (ns ! q)), lastptr None (take q ns), height (ns ! q))"
    using assms by (intro zdata_nth) (auto simp: zrep_def)
  then show ?thesis using that by (auto simp: fields_def)
qed

lemma zrep_search:
  assumes "zrep h z ns" "m \<le> length ns"
    "\<And>q n. \<lbrakk>q < length ns; z_ele n = Some (snd (key (ns ! q))); z_score n = fst (key (ns ! q))\<rbrakk> \<Longrightarrow> cond n (Suc q) \<longleftrightarrow> q < m"
  shows "zsl_search h z cond = Some (map (update_of (zsl_header z) (take m ns)) [0..<zsl_level z])"
proof -
  let ?ps = "shape (zsl_header z) ns"
  have lv: "zlevels h ?ps (zsl_level z)" "zsl_level z \<le> ZSKIPLIST_MAXLEVEL" "zsl_length z = length ns"
    using assms(1) by (auto simp: zrep_def)
  have "zsl_descend (length ns + 1) h cond (zsl_level z) (fst (?ps ! 0)) 0 =
    Some (map (\<lambda>i. (fst (?ps ! lastpos (take (Suc m) ?ps) i), lastpos (take (Suc m) ?ps) i)) [0..<zsl_level z])"
  proof (rule zsl_descend_lastpos [OF lv(1)])
    fix q assume q: "0 < q" "q < length ?ps"
    then obtain q' where q': "q = Suc q'" "q' < length ns" by (cases q) auto
    obtain n where "h (fst (ns ! q')) = Some n" "z_ele n = Some (snd (key (ns ! q')))" "z_score n = fst (key (ns ! q'))"
      by (rule zrep_node [OF assms(1) q'(2)])
    with q' assms(3) [OF q'(2)] show "\<exists>n. h (fst (?ps ! q)) = Some n \<and> cond n q = (q \<le> m)" by auto
  qed (use assms(2) lv in auto)
  moreover have "fst (?ps ! lastpos (take (Suc m) ?ps) i) = fst (take (Suc m) ?ps ! lastpos (take (Suc m) ?ps) i)"
    if "i < zsl_level z" for i
  proof -
    have "lastpos (take (Suc m) ?ps) i < length (take (Suc m) ?ps)"
      using that lv(2) by (intro lastpos) (simp_all only: shape_take, auto)
    then show ?thesis by (simp del: shape_simps)
  qed
  ultimately show ?thesis using lv(3) by (auto simp: zsl_search_def update_of_def shape_take)
qed

text \<open>Antitone conditions on a sorted list hold on a prefix.\<close>

lemma prefix_pos:
  assumes "sorted_wrt (<) (map key (ns :: 's::linorder znode list))" "\<And>a b. a < b \<Longrightarrow> P b \<Longrightarrow> P a" "q < length ns"
  shows "P (key (ns ! q)) \<longleftrightarrow> q < length (takeWhile (\<lambda>n. P (key n)) ns)"
proof
  let ?m = "length (takeWhile (\<lambda>n. P (key n)) ns)"
  assume P: "P (key (ns ! q))"
  show "q < ?m"
  proof (rule ccontr)
    assume "\<not> q < ?m"
    then have m: "?m \<le> q" "?m < length ns" using assms(3) by auto
    then have np: "\<not> P (key (ns ! ?m))" by (rule_tac nth_length_takeWhile)
    then have "?m < q" using m(1) P by (cases "?m = q") auto
    then have "key (ns ! ?m) < key (ns ! q)" using assms(1,3) by (simp add: sorted_wrt_iff_nth_less)
    with assms(2) P np show False by blast
  qed
next
  assume "q < length (takeWhile (\<lambda>n. P (key n)) ns)"
  then show "P (key (ns ! q))" by (metis nth_mem set_takeWhileD takeWhile_nth)
qed

lemma node_before_key:
  "\<lbrakk>z_ele n = Some (snd k); z_score n = fst k\<rbrakk> \<Longrightarrow> node_before score ele n t \<longleftrightarrow> k < (score, ele)"
  by (cases k) (auto simp: node_before_def sdscmp_order less_prod_def' split: if_splits)

abbreviation before :: "'s::linorder \<times> byte list \<Rightarrow> 's znode list \<Rightarrow> 's znode list" where
  "before k ns \<equiv> takeWhile (\<lambda>n. key n < k) ns"

lemma zrep_sorted: "zrep h z ns \<Longrightarrow> sorted_wrt (<) (map key ns)"
  by (simp add: zrep_def)

lemma zrep_search_key:
  assumes "zrep h z ns"
  shows "zsl_search h z (node_before score ele) = Some (map (update_of (zsl_header z) (before (score, ele) ns)) [0..<zsl_level z])"
proof -
  let ?m = "length (before (score, ele) ns)"
  have "zsl_search h z (node_before score ele) = Some (map (update_of (zsl_header z) (take ?m ns)) [0..<zsl_level z])"
  proof (rule zrep_search [OF assms])
    fix q and n :: "'a zskiplistNode" assume a: "q < length ns" "z_ele n = Some (snd (key (ns ! q)))" "z_score n = fst (key (ns ! q))"
    have "key (ns ! q) < (score, ele) \<longleftrightarrow> q < ?m"
      by (rule prefix_pos [OF zrep_sorted [OF assms] _ a(1)]) (rule less_trans)
    with a show "node_before score ele n (Suc q) \<longleftrightarrow> q < ?m" by (simp add: node_before_key)
  qed (rule length_takeWhile_le)
  then show ?thesis by (simp add: takeWhile_eq_take [symmetric])
qed

section \<open>Levels after an insertion and after a deletion\<close>

lemma tower_cases:
  assumes "p < length (A @ (x, L) # B)"
  obtains "p < length A" | "p = length A" | q where "p = Suc q" "length A \<le> q" "q < length (A @ B)"
  using assms by (cases "p < length A"; cases "p = length A"; cases p) auto

lemma lastpos_ge: "\<lbrakk>A \<noteq> []; i < snd (A ! 0); p < length A; i < snd (A ! p)\<rbrakk> \<Longrightarrow> p \<le> lastpos A i"
  using lastpos(3) [of A i p] by (meson not_le)

lemma fst_nth_inj: "\<lbrakk>distinct (map fst ps); p < length ps; q < length ps; fst (ps ! p) = fst (ps ! q)\<rbrakk> \<Longrightarrow> p = q"
  by (metis length_map nth_eq_iff_index_eq nth_map)

lemma zlevelsD:
  "\<lbrakk>zlevels h ps k; p < length ps; i < snd (ps ! p); i < k\<rbrakk> \<Longrightarrow> get_level h (fst (ps ! p)) i = Some (lev ps i p)"
  by (simp add: zlevels_def)

lemma zlevels_lastpos:
  assumes "zlevels h (A @ B) K" "A \<noteq> []" "i < K" "K \<le> snd (A ! 0)"
  shows "get_level h (fst (A ! lastpos A i)) i = Some (lev (A @ B) i (lastpos A i))"
proof -
  note lp = lastpos(1,2) [OF assms(2) order.strict_trans2 [OF assms(3,4)]]
  then have "(A @ B) ! lastpos A i = A ! lastpos A i" "lastpos A i < length (A @ B)" by (simp_all add: nth_append)
  with assms(1,3) lp(2) show ?thesis unfolding zlevels_def by metis
qed

lemma zlevels_ins:
  assumes "zlevels h (A @ B) K" "A \<noteq> []" "K \<le> snd (A ! 0)" "distinct (map fst (A @ B))" "x \<notin> fst ` set (A @ B)"
    and gl: "\<And>a j. j < K \<Longrightarrow> get_level h' a j =
      (let u = lastpos A j; l = lev (A @ B) j u in
       if a = x then (if j < L then Some (fst l, snd l - (length A - 1 - u)) else None)
       else if a = fst (A ! u) then Some (if j < L then (Some x, length A - u) else (fst l, snd l + 1))
       else get_level h a j)"
  shows "zlevels h' (A @ (x, L) # B) K"
  unfolding zlevels_def
proof (intro allI impI)
  fix p i assume p: "p < length (A @ (x, L) # B)" "i < snd ((A @ (x, L) # B) ! p)" "i < K"
  note A = assms(2) order.strict_trans2 [OF p(3) assms(3)]
  note lp = lastpos [OF A]
  have nx: "fst ((A @ B) ! q) \<noteq> x" if "q < length (A @ B)" for q
    using assms(5) that by (metis image_eqI nth_mem)
  have au: "fst (A ! lastpos A i) = fst ((A @ B) ! lastpos A i)" using lp(1) by (simp add: nth_append)
  have ua: "fst ((A @ B) ! q) = fst (A ! lastpos A i) \<longleftrightarrow> q = lastpos A i" if "q < length (A @ B)" for q
    using fst_nth_inj [OF assms(4) that] lp(1) au by auto
  have old: "get_level h (fst ((A @ B) ! q)) i = Some (lev (A @ B) i q)" if "q < length (A @ B)" "i < snd ((A @ B) ! q)" for q
    using assms(1) that p(3) by (simp add: zlevels_def)
  show "get_level h' (fst ((A @ (x, L) # B) ! p)) i = Some (lev (A @ (x, L) # B) i p)"
    using p(1)
  proof (cases rule: tower_cases)
    case 1
    then have q: "p < length (A @ B)" "(A @ (x, L) # B) ! p = (A @ B) ! p" by (simp_all add: nth_append)
    show ?thesis
    proof (cases "p = lastpos A i")
      case True
      then show ?thesis using q nx [OF q(1)] ua [OF q(1)] gl [OF p(3)] by (simp add: Let_def lev_cross [OF A])
    next
      case False
      with lastpos_ge [OF A 1] p(2) 1 have "p < lastpos A i" by (simp add: nth_append)
      with False show ?thesis using q p(2) old [OF q(1)] nx [OF q(1)] ua [OF q(1)] gl [OF p(3)]
        by (simp add: Let_def lev_ins_left [OF _ A])
    qed
  next
    case 2
    then show ?thesis using p(2) gl [OF p(3)] by (simp add: Let_def lev_new [OF A])
  next
    case (3 q)
    then have "q \<noteq> lastpos A i" using lp(1) by simp
    with 3 p(2) show ?thesis
      using old [OF 3(3)] nx [OF 3(3)] ua [OF 3(3)] gl [OF p(3)]
      by (simp add: Let_def nth_ins_right lev_ins_right del: append.simps)
  qed
qed

lemma zlevels_del:
  assumes "zlevels h (A @ (x, L) # B) K" "A \<noteq> []" "K \<le> snd (A ! 0)" "distinct (map fst (A @ B))"
    and gl: "\<And>a j. j < K \<Longrightarrow> get_level h' a j =
      (if a = fst (A ! lastpos A j) then Some (lev (A @ B) j (lastpos A j)) else get_level h a j)"
  shows "zlevels h' (A @ B) K"
  unfolding zlevels_def
proof (intro allI impI)
  fix p i assume p: "p < length (A @ B)" "i < snd ((A @ B) ! p)" "i < K"
  note A = assms(2) order.strict_trans2 [OF p(3) assms(3)]
  note lp = lastpos [OF A]
  have au: "fst (A ! lastpos A i) = fst ((A @ B) ! lastpos A i)" using lp(1) by (simp add: nth_append)
  have ua: "fst ((A @ B) ! p) = fst (A ! lastpos A i) \<longleftrightarrow> p = lastpos A i"
    using fst_nth_inj [OF assms(4) p(1)] lp(1) au by auto
  have old: "get_level h (fst ((A @ (x, L) # B) ! q)) i = Some (lev (A @ (x, L) # B) i q)"
    if "q < length (A @ (x, L) # B)" "i < snd ((A @ (x, L) # B) ! q)" for q
    using assms(1) that p(3) by (simp add: zlevels_def)
  show "get_level h' (fst ((A @ B) ! p)) i = Some (lev (A @ B) i p)"
  proof (cases "p = lastpos A i")
    case True
    then show ?thesis using gl [OF p(3)] ua by simp
  next
    case False
    then have g: "get_level h' (fst ((A @ B) ! p)) i = get_level h (fst ((A @ B) ! p)) i" using gl [OF p(3)] ua by simp
    show ?thesis
    proof (cases "p < length A")
      case True
      with False lastpos_ge [OF A True] p(2) have "p < lastpos A i" by (simp add: nth_append)
      with True g old [of p] p(2) show ?thesis by (simp add: nth_append lev_ins_left [OF _ A])
    next
      case False
      with g old [of "Suc p"] p show ?thesis by (simp add: nth_ins_right lev_ins_right not_less del: append.simps)
    qed
  qed
qed

section \<open>The loops of the insertion\<close>

lemma set_level_ex:
  assumes "get_level h a i \<noteq> None"
  shows "\<exists>h'. set_level a i v h = Some h' \<and> fields h' = fields h \<and>
    (\<forall>c j. get_level h' c j = (if c = a \<and> j = i then Some v else get_level h c j))"
proof -
  obtain e s b l where "fields h a = Some (e, s, b, l)" "i < l" using assms unfolding get_level_fields by blast
  then show ?thesis by (rule fields_set_level) blast
qed

lemma modify_loop:
  assumes "\<And>i. i \<in> set is \<Longrightarrow> get_level h0 (U i) i = Some (l i)" "distinct is"
  shows "\<exists>h'. foldm (\<lambda>i h. do { (f, s) \<leftarrow> get_level h (U i) i; set_level (U i) i (f, g s) h }) is h0 = Some h' \<and>
    fields h' = fields h0 \<and>
    (\<forall>a j. get_level h' a j = (if j \<in> set is then (if a = U j then Some (fst (l j), g (snd (l j))) else get_level h0 a j)
                             else get_level h0 a j))"
proof (rule foldm_levels [OF _ assms(2)])
  fix i h assume i: "i \<in> set is" "fields h = fields h0" "\<And>a. get_level h a i = get_level h0 a i"
  then have "get_level h (U i) i = Some (l i)" using assms(1) by simp
  moreover then obtain h' where "set_level (U i) i (fst (l i), g (snd (l i))) h = Some h'" "fields h' = fields h"
    "\<forall>c j. get_level h' c j = (if c = U i \<and> j = i then Some (fst (l i), g (snd (l i))) else get_level h c j)"
    using set_level_ex [of h "U i" i "(fst (l i), g (snd (l i)))"] by auto
  ultimately show "\<exists>h'. (do { (f, s) \<leftarrow> get_level h (U i) i; set_level (U i) i (f, g s) h }) = Some h' \<and> fields h' = fields h0 \<and>
      (\<forall>a j. get_level h' a j =
        (if j = i then (if a = U i then Some (fst (l i), g (snd (l i))) else get_level h0 a i) else get_level h a j))"
    using i(2,3) by (auto simp: case_prod_beta)
qed

lemma link_loop:
  assumes "\<And>i. i < L \<Longrightarrow> get_level h0 (fst (upd ! i)) i = Some (l i)" "\<And>i. i < L \<Longrightarrow> fst (upd ! i) \<noteq> x"
    "fields h0 x = Some (e, sc, b, L)"
  shows "\<exists>h'. foldm (\<lambda>i h.
        do {
          let (u, r) = upd ! i;
          (f, s) \<leftarrow> get_level h u i;
          h \<leftarrow> set_level x i (f, s - (rank0 - r)) h;
          set_level u i (Some x, (rank0 - r) + 1) h
        }) [0..<L] h0 = Some h' \<and>
    fields h' = fields h0 \<and>
    (\<forall>a j. get_level h' a j =
      (if j \<in> set [0..<L] then
         (if a = x then Some (fst (l j), snd (l j) - (rank0 - snd (upd ! j)))
          else if a = fst (upd ! j) then Some (Some x, (rank0 - snd (upd ! j)) + 1) else get_level h0 a j)
       else get_level h0 a j))"
proof (rule foldm_levels)
  fix i h assume i: "i \<in> set [0..<L]" "fields h = fields h0" "\<And>a. get_level h a i = get_level h0 a i"
  let ?u = "fst (upd ! i)" and ?r = "snd (upd ! i)"
  have gu: "get_level h ?u i = Some (l i)" "?u \<noteq> x" using assms(1,2) i by simp_all
  have "get_level h x i \<noteq> None" using assms(3) i unfolding get_level_fields by auto
  then obtain h1 where h1: "set_level x i (fst (l i), snd (l i) - (rank0 - ?r)) h = Some h1" "fields h1 = fields h"
    "\<forall>c j. get_level h1 c j = (if c = x \<and> j = i then Some (fst (l i), snd (l i) - (rank0 - ?r)) else get_level h c j)"
    using set_level_ex by blast
  then have "get_level h1 ?u i \<noteq> None" using gu by simp
  then obtain h2 where "set_level ?u i (Some x, (rank0 - ?r) + 1) h1 = Some h2" "fields h2 = fields h1"
    "\<forall>c j. get_level h2 c j = (if c = ?u \<and> j = i then Some (Some x, (rank0 - ?r) + 1) else get_level h1 c j)"
    using set_level_ex by blast
  with h1 gu i(2,3) show "\<exists>h'. (do {
          let (u, r) = upd ! i;
          (f, s) \<leftarrow> get_level h u i;
          h \<leftarrow> set_level x i (f, s - (rank0 - r)) h;
          set_level u i (Some x, (rank0 - r) + 1) h
        }) = Some h' \<and> fields h' = fields h0 \<and>
      (\<forall>a j. get_level h' a j = (if j = i then
         (if a = x then Some (fst (l i), snd (l i) - (rank0 - snd (upd ! i)))
          else if a = fst (upd ! i) then Some (Some x, (rank0 - snd (upd ! i)) + 1) else get_level h0 a i)
       else get_level h a j))"
    by (auto simp: case_prod_beta)
qed simp

lemma fields_create: "fields (zslCreateNode junk x L score ele h) = (fields h)(x \<mapsto> (ele, score, fst junk, L))"
  by (auto simp: zslCreateNode_def fields_def)

lemma get_level_create:
  "get_level (zslCreateNode junk x L score ele h) a j =
    (if a = x then (if j < L then Some junk else None) else get_level h a j)"
  by (auto simp: zslCreateNode_def get_level_def)

text \<open>Above the level of the list only the header has pointers.\<close>

lemma lev_high:
  assumes "\<And>n. n \<in> set ns \<Longrightarrow> height n \<le> j"
  shows "lev (shape hdr ns) j 0 = (None, length ns)"
proof -
  have "nxt (shape hdr ns) j 0 = None"
    unfolding nxt_None
  proof (intro allI impI)
    fix r assume "0 < r \<and> r < length (shape hdr ns)"
    then obtain q where "r = Suc q" "q < length ns" by (cases r) auto
    then show "\<not> j < snd (shape hdr ns ! r)" using assms [OF nth_mem] by (simp add: not_less)
  qed
  then show ?thesis by (simp add: lev_def)
qed

lemma lastpos_high:
  assumes "\<And>n. n \<in> set ns \<Longrightarrow> height n \<le> j" "j < ZSKIPLIST_MAXLEVEL"
  shows "lastpos (shape hdr ns) j = 0"
proof (rule lastpos_unique)
  fix r assume "0 < r" "r < length (shape hdr ns)"
  then obtain q where "r = Suc q" "q < length ns" by (cases r) auto
  then show "\<not> j < snd (shape hdr ns ! r)" using assms(1) [OF nth_mem] by (simp add: not_less)
qed (use assms(2) in auto)

lemma lastpos_0:
  assumes "\<And>n. n \<in> set ns \<Longrightarrow> 1 \<le> height n"
  shows "lastpos (shape hdr ns) 0 = length ns"
proof (rule lastpos_unique)
  show "0 < snd (shape hdr ns ! length ns)"
    using assms [OF nth_mem] by (cases "length ns") (auto simp: ZSKIPLIST_MAXLEVEL_def Suc_le_eq)
qed (auto simp: ZSKIPLIST_MAXLEVEL_def)

section \<open>Insertion\<close>

lemma zlevels_raise:
  assumes "zlevels h (shape hdr ns) k" "\<And>n. n \<in> set ns \<Longrightarrow> height n \<le> k" "hdr \<notin> fst ` set ns"
    and gl: "\<And>a j. get_level h' a j = (if k \<le> j \<and> j < L \<and> a = hdr then Some (None, length ns) else get_level h a j)"
  shows "zlevels h' (shape hdr ns) (max k L)"
  unfolding zlevels_def
proof (intro allI impI)
  fix p j assume p: "p < length (shape hdr ns)" "j < snd (shape hdr ns ! p)" "j < max k L"
  show "get_level h' (fst (shape hdr ns ! p)) j = Some (lev (shape hdr ns) j p)"
  proof (cases "j < k")
    case True
    then show ?thesis using assms(1) p by (simp add: zlevels_def gl)
  next
    case False
    have "p = 0"
    proof (cases p)
      case (Suc q)
      with p have "q < length ns" "j < height (ns ! q)" by auto
      with assms(2) [OF nth_mem] False show ?thesis by fastforce
    qed
    moreover have "lev (shape hdr ns) j 0 = (None, length ns)" using assms(2) False by (intro lev_high) fastforce
    ultimately show ?thesis using False p(3) by (auto simp: gl)
  qed
qed

lemma insert_links:
  fixes A B :: "'s::linorder znode list"
  assumes "zrep h z (A @ B)" "h x = None" "1 \<le> L" "L \<le> ZSKIPLIST_MAXLEVEL"
    and upd: "upd = map (update_of (zsl_header z) A) [0..<max (zsl_level z) L]"
  shows "\<exists>h1 h3 h4.
    foldm (\<lambda>i h. do { (f, s) \<leftarrow> get_level h (zsl_header z) i; set_level (zsl_header z) i (f, zsl_length z) h })
      [zsl_level z..<L] h = Some h1 \<and>
    foldm (\<lambda>i h.
        do {
          let (u, r) = upd ! i;
          (f, s) \<leftarrow> get_level h u i;
          h \<leftarrow> set_level x i (f, s - (length A - r)) h;
          set_level u i (Some x, (length A - r) + 1) h
        }) [0..<L] (zslCreateNode junk x L score (Some ele) h1) = Some h3 \<and>
    foldm (\<lambda>i h. do { (f, s) \<leftarrow> get_level h (fst (upd ! i)) i; set_level (fst (upd ! i)) i (f, s + 1) h })
      [L..<max (zsl_level z) L] h3 = Some h4 \<and>
    fields h4 = (fields h)(x \<mapsto> (Some ele, score, fst junk, L)) \<and>
    zlevels h4 (shape (zsl_header z) (A @ (x, L, score, ele) # B)) (max (zsl_level z) L) \<and>
    (\<forall>j. max (zsl_level z) L \<le> j \<longrightarrow> get_level h4 (zsl_header z) j = get_level h (zsl_header z) j)"
proof -
  let ?hdr = "zsl_header z" and ?k = "zsl_level z" and ?len = "zsl_length z" and ?ps = "shape (zsl_header z) (A @ B)"
  let ?K = "max ?k L" and ?A = "shape (zsl_header z) A" and ?B = "map (\<lambda>n. (fst n, height n)) B"
  have r: "?k \<le> ZSKIPLIST_MAXLEVEL" "\<And>n. n \<in> set (A @ B) \<Longrightarrow> height n \<le> ?k" "zlevels h ?ps ?k" "?len = length (A @ B)"
    "\<And>i. ?k \<le> i \<Longrightarrow> i < ZSKIPLIST_MAXLEVEL \<Longrightarrow> \<exists>s. get_level h ?hdr i = Some (None, s)" "zdata (fields h) None (A @ B)"
    "distinct (map fst ?ps)" "?hdr \<notin> fst ` set (A @ B)" "fields h ?hdr \<noteq> None"
    using assms(1) by (auto simp: zrep_def)
  have ps: "?ps = ?A @ ?B" by (rule shape_append)
  have nn: "fields h (fst n) \<noteq> None" if "n \<in> set (A @ B)" for n
    using zdata_nth [OF r(6)] that by (metis in_set_conv_nth option.distinct(1))
  have fx: "fields h x = None" using assms(2) by (simp add: fields_def)
  have "x \<notin> fst ` set (A @ B)"
  proof
    assume "x \<in> fst ` set (A @ B)"
    then obtain n where "x = fst n" "n \<in> set (A @ B)" by (rule imageE)
    with nn [of n] fx show False by simp
  qed
  moreover have "x \<noteq> ?hdr" using fx r(9) by auto
  ultimately have xn: "x \<notin> fst ` set ?ps" by simp
  obtain h1 where h1: "foldm (\<lambda>i h. do { (f, s) \<leftarrow> get_level h ?hdr i; set_level ?hdr i (f, ?len) h }) [?k..<L] h = Some h1"
      "fields h1 = fields h"
      "\<And>a j. get_level h1 a j = (if ?k \<le> j \<and> j < L \<and> a = ?hdr then Some (None, length (A @ B)) else get_level h a j)"
  proof -
    have "get_level h ?hdr i = Some (None, snd (the (get_level h ?hdr i)))" if "i \<in> set [?k..<L]" for i
      using r(5) [of i] that assms(4) by fastforce
    from modify_loop [of "[?k..<L]" h "\<lambda>_. ?hdr", OF this distinct_upt, where g = "\<lambda>_. ?len"] obtain h1 where h1:
      "foldm (\<lambda>i h. do { (f, s) \<leftarrow> get_level h ?hdr i; set_level ?hdr i (f, ?len) h }) [?k..<L] h = Some h1"
      "fields h1 = fields h" "\<forall>a j. get_level h1 a j = (if j \<in> set [?k..<L] then
        (if a = ?hdr then Some (fst (None, snd (the (get_level h ?hdr j))), ?len) else get_level h a j) else get_level h a j)" by blast
    have "get_level h1 a j = (if ?k \<le> j \<and> j < L \<and> a = ?hdr then Some (None, length (A @ B)) else get_level h a j)" for a j
      using h1(3) r(4) by simp
    then show ?thesis by (rule that [OF h1(1,2)])
  qed
  have z1: "zlevels h1 (?A @ ?B) ?K" using zlevels_raise [OF r(3,2,8) h1(3)] ps by simp
  have A: "?A \<noteq> []" "?K \<le> snd (?A ! 0)" using r(1) assms(4) by auto
  let ?u = "\<lambda>i. lastpos ?A i" and ?l = "\<lambda>i. lev (?A @ ?B) i (lastpos ?A i)"
  have up: "upd ! i = (fst (?A ! ?u i), ?u i)" if "i < ?K" for i using that upd by (simp add: update_of_def)
  have lp: "?u i < length ?A" "i < snd (?A ! ?u i)" if "i < ?K" for i using lastpos(1,2) [OF A(1) order.strict_trans2 [OF that A(2)]] by simp_all
  have gl1: "get_level h1 (fst (?A ! ?u i)) i = Some (?l i)" if "i < ?K" for i
    by (rule zlevels_lastpos [OF z1 A(1) that A(2)])
  have ux: "fst (?A ! ?u i) \<noteq> x" if "i < ?K" for i
  proof -
    have "fst (?A ! ?u i) \<in> fst ` set ?A" by (intro imageI nth_mem lp that)
    with xn show ?thesis by auto
  qed
  let ?h2 = "zslCreateNode junk x L score (Some ele) h1"
  obtain h3 where h3: "foldm (\<lambda>i h.
        do {
          let (u, r) = upd ! i;
          (f, s) \<leftarrow> get_level h u i;
          h \<leftarrow> set_level x i (f, s - (length A - r)) h;
          set_level u i (Some x, (length A - r) + 1) h
        }) [0..<L] ?h2 = Some h3" "fields h3 = fields ?h2"
    "\<And>a j. get_level h3 a j =
      (if j < L then
         (if a = x then Some (fst (?l j), snd (?l j) - (length A - ?u j))
          else if a = fst (?A ! ?u j) then Some (Some x, length A - ?u j + 1) else get_level ?h2 a j)
       else get_level ?h2 a j)"
    using link_loop [of L ?h2 upd ?l x "Some ele" score "fst junk" "length A"] up gl1 ux
    by (auto simp: get_level_create fields_create)
  have "get_level h3 (fst (upd ! i)) i = Some (?l i)" if "i \<in> set [L..<?K]" for i
    using that h3(3) up [of i] gl1 [of i] ux [of i] by (simp add: get_level_create)
  from modify_loop [of "[L..<?K]", OF this distinct_upt, where g = "\<lambda>s. s + 1"] obtain h4 where h4:
    "foldm (\<lambda>i h. do { (f, s) \<leftarrow> get_level h (fst (upd ! i)) i; set_level (fst (upd ! i)) i (f, s + 1) h }) [L..<?K] h3 = Some h4"
    "fields h4 = fields h3" "\<And>a j. get_level h4 a j = (if j \<in> set [L..<?K] then
      (if a = fst (upd ! j) then Some (fst (?l j), snd (?l j) + 1) else get_level h3 a j) else get_level h3 a j)"
    by blast
  have "zlevels h4 (?A @ (x, L) # ?B) ?K"
    using A(1,2) r(7) xn unfolding ps
  proof (intro zlevels_ins [OF z1])
    fix a j assume j: "j < ?K"
    show "get_level h4 a j =
      (let u = lastpos ?A j; l = lev (?A @ ?B) j u in
       if a = x then (if j < L then Some (fst l, snd l - (length ?A - 1 - u)) else None)
       else if a = fst (?A ! u) then Some (if j < L then (Some x, length ?A - u) else (fst l, snd l + 1))
       else get_level h1 a j)"
      using j lp(1) [OF j] up [OF j] ux [OF j] by (auto simp: h4(3) h3(3) get_level_create Let_def Suc_diff_le)
  qed auto
  moreover have "get_level h4 ?hdr j = get_level h ?hdr j" if "?K \<le> j" for j
    using that xn by (auto simp: h4(3) h3(3) get_level_create h1(3))
  moreover have "fields h4 = (fields h)(x \<mapsto> (Some ele, score, fst junk, L))"
    using h4(2) h3(2) h1(2) by (simp add: fields_create)
  moreover have "shape ?hdr (A @ (x, L, score, ele) # B) = ?A @ (x, L) # ?B" by (simp add: shape_append)
  ultimately show ?thesis using h1(1) h3(1) h4(1) by auto
qed

lemma lev_0:
  assumes "\<And>n. n \<in> set ns \<Longrightarrow> 1 \<le> height n" "p \<le> length ns"
  shows "fst (lev (shape hdr ns) 0 p) = (if p < length ns then Some (fst (ns ! p)) else None)"
proof (cases "p < length ns")
  case True
  then have "0 < height (ns ! p)" using assms(1) [OF nth_mem] by fastforce
  with True have "nxt (shape hdr ns) 0 p = Some (Suc p)" by (auto simp: nxt_Some)
  with True show ?thesis by (simp add: lev_def)
next
  case False
  with assms(2) have "nxt (shape hdr ns) 0 p = None" by (auto simp: nxt_None)
  with False show ?thesis by (simp add: lev_def)
qed

lemma update_of_0:
  assumes "\<And>n. n \<in> set A \<Longrightarrow> 1 \<le> height n"
  shows "update_of hdr A 0 = (if A = [] then hdr else fst (last A), length A)"
proof -
  have "fst (shape hdr A ! length A) = (if A = [] then hdr else fst (last A))"
    by (cases A rule: rev_cases) (auto simp: shape_append)
  then show ?thesis using lastpos_0 [OF assms] by (simp add: update_of_def)
qed

lemma update_of_high:
  "\<lbrakk>\<And>n. n \<in> set A \<Longrightarrow> height n \<le> j; j < ZSKIPLIST_MAXLEVEL\<rbrakk> \<Longrightarrow> update_of hdr A j = (hdr, 0)"
  by (simp add: update_of_def lastpos_high)

lemma update_extend:
  assumes "\<And>n. n \<in> set A \<Longrightarrow> height n \<le> k" "L \<le> ZSKIPLIST_MAXLEVEL"
  shows "map (update_of hdr A) [0..<k] @ replicate (L - k) (hdr, 0) = map (update_of hdr A) [0..<max k L]"
proof (rule nth_equalityI)
  fix i assume "i < length (map (update_of hdr A) [0..<k] @ replicate (L - k) (hdr, 0))"
  then have i: "i < max k L" by auto
  show "(map (update_of hdr A) [0..<k] @ replicate (L - k) (hdr, 0)) ! i = map (update_of hdr A) [0..<max k L] ! i"
  proof (cases "i < k")
    case False
    with i assms have "update_of hdr A i = (hdr, 0)" by (intro update_of_high) fastforce+
    with False i show ?thesis by (auto simp: nth_append)
  qed (simp add: nth_append)
qed auto

text \<open>Relinking the backward pointers around a new element.\<close>

lemma zdata_ins:
  assumes "zdata F None (A @ B)" "x \<notin> fst ` set (A @ B)" "distinct (map fst (A @ B))"
    "F' = (case B of [] \<Rightarrow> F(x \<mapsto> (Some ele, score, lastptr None A, L))
           | b # _ \<Rightarrow> F(x \<mapsto> (Some ele, score, lastptr None A, L), fst b \<mapsto> (Some (snd (key b)), fst (key b), Some x, height b)))"
  shows "zdata F' None (A @ (x, L, score, ele) # B)"
proof (cases B)
  case Nil
  then have "zdata F' None A = zdata F None A" using assms(2,4) by (intro zdata_cong) auto
  with Nil assms show ?thesis by (auto simp: zdata_append)
next
  case (Cons b B')
  then have nb: "fst b \<notin> fst ` set A" "fst b \<notin> fst ` set B'" "x \<notin> fst ` set A" "x \<notin> fst ` set B'"
    using assms(2,3) by auto
  have F': "F' a = F a" if "a \<noteq> fst b" "a \<noteq> x" for a using that assms(4) Cons by simp
  have "zdata F' None A = zdata F None A" using nb by (intro zdata_cong F') (metis imageI)+
  moreover have "zdata F' (Some (fst b)) B' = zdata F (Some (fst b)) B'" using nb by (intro zdata_cong F') (metis imageI)+
  ultimately show ?thesis using assms Cons by (auto simp: zdata_append)
qed

lemma before_split: "ns = before k ns @ drop (length (before k ns)) ns"
  by (metis append_take_drop_id takeWhile_eq_take)

lemma zrep_x_fresh:
  assumes "zrep h z ns" "h x = None"
  shows "x \<notin> fst ` set ns" "x \<noteq> zsl_header z"
proof -
  have "x \<noteq> fst n" if "n \<in> set ns" for n
  proof -
    obtain q where q: "q < length ns" "ns ! q = n" using \<open>n \<in> set ns\<close> by (auto simp: in_set_conv_nth)
    show ?thesis by (rule zrep_node [OF assms(1) q(1)]) (use assms(2) q(2) in auto)
  qed
  then show "x \<notin> fst ` set ns" by auto
  show "x \<noteq> zsl_header z" using assms by (auto simp: zrep_def fields_def)
qed

text \<open>The keys of the new list are sorted.\<close>

lemma before_insort:
  assumes "sorted_wrt (<) (map key ns)" "(score, ele) \<notin> key ` set ns"
  shows "map key (before (score, ele) ns @ (x, L, score, ele) # drop (length (before (score, ele) ns)) ns) =
      insort (score, ele) (map key ns)"
    "sorted_wrt (<) (insort (score, ele) (map key ns))"
proof -
  show "map key (before (score, ele) ns @ (x, L, score, ele) # drop (length (before (score, ele) ns)) ns) =
      insort (score, ele) (map key ns)"
    using assms
  proof (induction ns)
    case (Cons n ns)
    then show ?case
      by (cases "key n < (score, ele)") (auto simp: insort_is_Cons less_le not_le)
  qed simp
  show "sorted_wrt (<) (insort (score, ele) (map key ns))"
    using assms by (auto simp: strict_sorted_iff sorted_insort distinct_insort)
qed

lemma relink_backward:
  assumes "B \<noteq> [] \<Longrightarrow> \<exists>p. fields h (fst (hd B)) = Some (Some (snd (key (hd B))), fst (key (hd B)), p, height (hd B))"
  shows "\<exists>h'. (case (if B = [] then None else Some (fst (hd B))) of
           Some y \<Rightarrow> map_option (\<lambda>h. (h, t)) (set_backward y q h)
         | None \<Rightarrow> Some (h, t')) = Some (h', if B = [] then t' else t) \<and>
      (\<forall>c j. get_level h' c j = get_level h c j) \<and>
      fields h' = (case B of [] \<Rightarrow> fields h
         | b # _ \<Rightarrow> (fields h)(fst b \<mapsto> (Some (snd (key b)), fst (key b), q, height b)))"
proof (cases B)
  case (Cons b B')
  then obtain p where "fields h (fst b) = Some (Some (snd (key b)), fst (key b), p, height b)" using assms by auto
  then obtain h' where "set_backward (fst b) q h = Some h'"
    "fields h' = (fields h)(fst b \<mapsto> (Some (snd (key b)), fst (key b), q, height b))"
    "\<And>c j. get_level h' c j = get_level h c j" by (rule fields_set_backward [where p = q]) blast
  with Cons show ?thesis by simp
qed simp

lemma zslRandomLevel_bounds: "zslRandomLevel rs = Some L \<Longrightarrow> 1 \<le> L \<and> L \<le> ZSKIPLIST_MAXLEVEL"
proof -
  have "random_level_loop rs k = Some l \<Longrightarrow> k \<le> l" for k l
    by (induction rs k rule: random_level_loop.induct) (auto split: if_splits)
  then show "zslRandomLevel rs = Some L \<Longrightarrow> 1 \<le> L \<and> L \<le> ZSKIPLIST_MAXLEVEL"
    by (fastforce simp: zslRandomLevel_def ZSKIPLIST_MAXLEVEL_def split: if_splits)
qed

lemma zslInsert_zrep:
  fixes score :: "'s::linorder"
  assumes "zrep h z ns" "h x = None" "zslRandomLevel rs = Some L" "(score, ele) \<notin> key ` set ns"
  obtains h' z' where "zslInsert junk rs x score ele h z = Some (h', z')"
    "zrep h' z' (before (score, ele) ns @ (x, L, score, ele) # drop (length (before (score, ele) ns)) ns)"
    "zsl_header z' = zsl_header z" "\<And>a. a \<noteq> x \<Longrightarrow> h' a = None \<longleftrightarrow> h a = None"
proof -
  define A where "A = before (score, ele) ns"
  define B where "B = drop (length A) ns"
  define k where "k = zsl_level z"
  let ?hdr = "zsl_header z" and ?K = "max k L" and ?ns' = "A @ (x, L, score, ele) # B"
  have ns: "ns = A @ B" using before_split unfolding A_def B_def .
  note L = zslRandomLevel_bounds [OF assms(3)]
  note fresh = zrep_x_fresh [OF assms(1,2)]
  have r: "1 \<le> k" "k \<le> ZSKIPLIST_MAXLEVEL" "\<And>n. n \<in> set (A @ B) \<Longrightarrow> 1 \<le> height n \<and> height n \<le> k"
    "distinct (?hdr # map fst (A @ B))" "zdata (fields h) None (A @ B)" "zsl_tail z = lastptr None (A @ B)"
    "zsl_length z = length (A @ B)" "\<exists>s. fields h ?hdr = Some (None, s, None, ZSKIPLIST_MAXLEVEL)"
    "\<And>i. k \<le> i \<Longrightarrow> i < ZSKIPLIST_MAXLEVEL \<Longrightarrow> \<exists>s. get_level h ?hdr i = Some (None, s)"
    using assms(1) by (auto simp: zrep_def ns k_def)
  define upd where "upd = map (update_of ?hdr A) [0..<?K]"
  have upd0: "map (update_of ?hdr A) [0..<k] @ replicate (L - k) (?hdr, 0) = upd"
    unfolding upd_def using r(3) L by (intro update_extend) auto
  have u0: "upd ! 0 = (if A = [] then ?hdr else fst (last A), length A)"
    using r(1,3) L by (simp add: upd_def update_of_0)
  from insert_links [OF assms(1) [unfolded ns] assms(2), of L upd junk score ele]
  obtain h1 h3 h4 where hs:
    "foldm (\<lambda>i h. do { (f, s) \<leftarrow> get_level h ?hdr i; set_level ?hdr i (f, zsl_length z) h }) [k..<L] h = Some h1"
    "foldm (\<lambda>i h.
        do {
          let (u, r) = upd ! i;
          (f, s) \<leftarrow> get_level h u i;
          h \<leftarrow> set_level x i (f, s - (length A - r)) h;
          set_level u i (Some x, (length A - r) + 1) h
        }) [0..<L] (zslCreateNode junk x L score (Some ele) h1) = Some h3"
    "foldm (\<lambda>i h. do { (f, s) \<leftarrow> get_level h (fst (upd ! i)) i; set_level (fst (upd ! i)) i (f, s + 1) h }) [L..<?K] h3 = Some h4"
    "fields h4 = (fields h)(x \<mapsto> (Some ele, score, fst junk, L))" "zlevels h4 (shape ?hdr ?ns') ?K"
    "\<And>j. ?K \<le> j \<Longrightarrow> get_level h4 ?hdr j = get_level h ?hdr j"
    using L by (auto simp: k_def upd_def)
  have bw: "(if fst (upd ! 0) = ?hdr then None else Some (fst (upd ! 0))) = lastptr None A"
    using u0 r(4) by (auto simp: lastptr_def) (metis image_eqI last_in_set)
  obtain h5 where h5: "set_backward x (lastptr None A) h4 = Some h5"
    "fields h5 = (fields h)(x \<mapsto> (Some ele, score, lastptr None A, L))" "\<And>c j. get_level h5 c j = get_level h4 c j"
    using fields_set_backward [of h4 x "Some ele" score "fst junk" L "lastptr None A"] hs(4) by auto
  have "get_level h4 (fst (shape ?hdr ?ns' ! Suc (length A))) 0 = Some (lev (shape ?hdr ?ns') 0 (Suc (length A)))"
    using L r(1) by (intro zlevelsD [OF hs(5)]) auto
  moreover have "fst (lev (shape ?hdr ?ns') 0 (Suc (length A))) = (if B = [] then None else Some (fst (hd B)))"
    using r(3) L by (subst lev_0) (auto simp: nth_append hd_conv_nth)
  ultimately obtain s where f: "get_level h5 x 0 = Some (if B = [] then None else Some (fst (hd B)), s)"
    using h5(3) by (cases "lev (shape ?hdr ?ns') 0 (Suc (length A))") simp
  have "\<exists>p. fields h5 (fst (hd B)) = Some (Some (snd (key (hd B))), fst (key (hd B)), p, height (hd B))" if "B \<noteq> []"
    using that r(5) h5(2) fresh(1) ns by (cases B) (auto simp: zdata_append)
  from relink_backward [OF this] obtain h6 where h6: "(case (if B = [] then None else Some (fst (hd B))) of
           Some y \<Rightarrow> map_option (\<lambda>h. (h, zsl_tail z)) (set_backward y (Some x) h5)
         | None \<Rightarrow> Some (h5, Some x)) = Some (h6, if B = [] then Some x else zsl_tail z)"
      "\<And>c j. get_level h6 c j = get_level h4 c j"
      "fields h6 = (case B of [] \<Rightarrow> fields h5
         | b # _ \<Rightarrow> (fields h5)(fst b \<mapsto> (Some (snd (key b)), fst (key b), Some x, height b)))"
    using h5(3) by metis
  have tail: "(if B = [] then Some x else zsl_tail z) = lastptr None ?ns'" using r(6) by (auto simp: lastptr_def)
  let ?z' = "z\<lparr>zsl_tail := if B = [] then Some x else zsl_tail z, zsl_level := ?K, zsl_length := zsl_length z + 1\<rparr>"
  have "zslInsert junk rs x score ele h z = Some (h6, ?z')"
  proof -
    have K: "(if L > k then L else k) = ?K" and r0: "snd (upd ! 0) = length A" using u0 by (auto simp: max_def)
    show ?thesis
      unfolding zslInsert_def zrep_search_key [OF assms(1)] A_def [symmetric] assms(3) Let_def k_def [symmetric]
      by (simp only: Option.bind.simps upd0 K r0 hs(1) hs(2) [unfolded Let_def] hs(3) bw h5(1) f h6(1) prod.case)
  qed
  moreover have "zrep h6 ?z' ?ns'"
    unfolding zrep_def
  proof (intro conjI)
    show "sorted_wrt (<) (map key ?ns')"
      using before_insort [OF zrep_sorted [OF assms(1)] assms(4)] unfolding A_def B_def by simp
    show "zdata (fields h6) None ?ns'" using r(4,5) fresh ns h6(3) h5(2) by (intro zdata_ins) (auto split: list.splits)
    show "zlevels h6 (shape (zsl_header ?z') ?ns') (zsl_level ?z')" using hs(5) h6(2) by (simp add: zlevels_def)
    show "distinct (zsl_header ?z' # map fst ?ns')" using r(4) fresh ns by auto
    show "\<exists>s. fields h6 (zsl_header ?z') = Some (None, s, None, ZSKIPLIST_MAXLEVEL)"
      using r(4,8) h6(3) h5(2) fresh(2) by (cases B) auto
    show "\<forall>i. zsl_level ?z' \<le> i \<and> i < ZSKIPLIST_MAXLEVEL \<longrightarrow> (\<exists>s. get_level h6 (zsl_header ?z') i = Some (None, s))"
      using hs(6) h6(2) r(9) by simp
    show "\<forall>n \<in> set ?ns'. 1 \<le> height n \<and> height n \<le> zsl_level ?z'" using r(3) L by (fastforce simp: max_def)
  qed (use r(1,2,7) L tail in \<open>auto simp: max_def\<close>)
  moreover have "h6 a = None \<longleftrightarrow> h a = None" if "a \<noteq> x" for a
  proof -
    have "fields h6 a = None \<longleftrightarrow> fields h a = None"
      using that h6(3) h5(2) r(5) by (cases B) (auto simp: zdata_append)
    then show ?thesis by (simp add: fields_def)
  qed
  ultimately show ?thesis using that unfolding A_def B_def by simp
qed

section \<open>Deletion\<close>

lemma lower_level_ok:
  assumes "zlevels h (shape hdr ns) K" "k \<le> K" "1 \<le> k" "k \<le> ZSKIPLIST_MAXLEVEL" "\<And>n. n \<in> set ns \<Longrightarrow> height n \<le> k"
  shows "\<exists>k'. lower_level h hdr k = Some k' \<and> 1 \<le> k' \<and> k' \<le> k \<and> (\<forall>n \<in> set ns. height n \<le> k') \<and>
    (\<forall>i. k' \<le> i \<and> i < k \<longrightarrow> (\<exists>s. get_level h hdr i = Some (None, s)))"
  using assms(2-5)
proof (induction k)
  case (Suc k)
  have gl: "get_level h hdr k = Some (lev (shape hdr ns) k 0)"
    using zlevelsD [OF assms(1), of 0 k] Suc.prems by simp
  show ?case
  proof (cases "1 < Suc k \<and> fst (lev (shape hdr ns) k 0) = None")
    case True
    then have "nxt (shape hdr ns) k 0 = None" by (auto simp: lev_def split: option.splits)
    then have "height n \<le> k" if "n \<in> set ns" for n
      using that by (force simp: nxt_None in_set_conv_nth dest: spec [where x = "Suc _"])
    with Suc True obtain k' where "lower_level h hdr k = Some k'" "1 \<le> k'" "k' \<le> k" "\<forall>n \<in> set ns. height n \<le> k'"
      "\<forall>i. k' \<le> i \<and> i < k \<longrightarrow> (\<exists>s. get_level h hdr i = Some (None, s))" by auto
    moreover have "\<exists>s. get_level h hdr k = Some (None, s)" using True gl by (cases "lev (shape hdr ns) k 0") auto
    ultimately show ?thesis using True gl by (auto simp: case_prod_beta less_Suc_eq)
  next
    case False
    then have "lower_level h hdr (Suc k) = Some (Suc k)" using gl by (auto simp: case_prod_beta)
    with Suc.prems show ?thesis by auto
  qed
qed simp

lemma unlink_loop:
  assumes "zlevels h0 (A @ (x, L) # B) K" "A \<noteq> []" "K \<le> snd (A ! 0)" "distinct (map fst (A @ (x, L) # B))" "L \<le> K"
    "\<And>i. i < K \<Longrightarrow> fst (upd ! i) = fst (A ! lastpos A i)"
  shows "\<exists>h'. foldm (\<lambda>i h.
      do {
        let u = fst (upd ! i);
        (f, s) \<leftarrow> get_level h u i;
        if f = Some x then do { (xf, xs) \<leftarrow> get_level h x i; set_level u i (xf, s + xs - 1) h }
        else set_level u i (f, s - 1) h
      }) [0..<K] h0 = Some h' \<and> fields h' = fields h0 \<and>
    (\<forall>a j. get_level h' a j = (if j \<in> set [0..<K] then
      (if a = fst (A ! lastpos A j) then Some (lev (A @ B) j (lastpos A j)) else get_level h0 a j) else get_level h0 a j))"
proof (rule foldm_levels)
  fix i h assume i: "i \<in> set [0..<K]" "fields h = fields h0" "\<And>a. get_level h a i = get_level h0 a i"
  then have iK: "i < K" by simp
  note A = assms(2) order.strict_trans2 [OF iK assms(3)]
  let ?u = "fst (A ! lastpos A i)" and ?l = "lev (A @ B) i (lastpos A i)"
  note lp = lastpos(1) [OF A]
  have gu: "get_level h ?u i = Some (lev (A @ (x, L) # B) i (lastpos A i))"
    using zlevels_lastpos [OF assms(1,2) iK assms(3)] i(3) by simp
  have gx: "get_level h x i = Some (lev (A @ (x, L) # B) i (length A))" if "i < L"
    using zlevelsD [OF assms(1), of "length A" i] that iK i(3) by simp
  have "fst ?l \<noteq> Some x"
  proof (cases "nxt (A @ B) i (lastpos A i)")
    case (Some q)
    then have "q < length (A @ B)" by (simp add: nxt_Some)
    then have "fst ((A @ B) ! q) \<in> fst ` set (A @ B)" by (intro imageI nth_mem)
    moreover have "x \<notin> fst ` set (A @ B)" using assms(4) by auto
    ultimately show ?thesis using Some by (auto simp: lev_def)
  qed (simp add: lev_def)
  moreover have "length A - lastpos A i + snd ?l - Suc (length A - Suc (lastpos A i)) = snd ?l"
    "length A - lastpos A i + (snd ?l - (length A - Suc (lastpos A i))) - Suc 0 = snd ?l"
    using lev_span_ge [OF A, of B] lp by linarith+
  ultimately have body: "(do {
        let u = fst (upd ! i);
        (f, s) \<leftarrow> get_level h u i;
        if f = Some x then do { (xf, xs) \<leftarrow> get_level h x i; set_level u i (xf, s + xs - 1) h }
        else set_level u i (f, s - 1) h
      }) = set_level ?u i ?l h"
    using gu gx assms(6) [OF iK] by (simp add: Let_def lev_cross [OF A] lev_new [OF A] case_prod_beta)
  have "get_level h ?u i \<noteq> None" using gu by simp
  then obtain h' where "set_level ?u i ?l h = Some h'" "fields h' = fields h"
    "\<forall>c j. get_level h' c j = (if c = ?u \<and> j = i then Some ?l else get_level h c j)" using set_level_ex by blast
  with i(2,3) show "\<exists>h'. (do {
        let u = fst (upd ! i);
        (f, s) \<leftarrow> get_level h u i;
        if f = Some x then do { (xf, xs) \<leftarrow> get_level h x i; set_level u i (xf, s + xs - 1) h }
        else set_level u i (f, s - 1) h
      }) = Some h' \<and> fields h' = fields h0 \<and> (\<forall>a j. get_level h' a j =
        (if j = i then (if a = ?u then Some ?l else get_level h0 a i) else get_level h a j))"
    unfolding body by auto
qed simp

lemma zdata_del:
  assumes "zdata F None (A @ n # B)" "distinct (map fst (A @ n # B))"
    "F' = (case B of [] \<Rightarrow> F | b # _ \<Rightarrow> F(fst b \<mapsto> (Some (snd (key b)), fst (key b), lastptr None A, height b)))"
  shows "zdata F' None (A @ B)"
proof (cases B)
  case Nil
  with assms show ?thesis by (simp add: zdata_append)
next
  case (Cons b B')
  then have nb: "fst b \<notin> fst ` set A" "fst b \<notin> fst ` set B'" using assms(2) by auto
  have F': "F' a = F a" if "a \<noteq> fst b" for a using that assms(3) Cons by simp
  have "zdata F' None A = zdata F None A" using nb by (intro zdata_cong F') (metis imageI)
  moreover have "zdata F' (Some (fst b)) B' = zdata F (Some (fst b)) B'" using nb by (intro zdata_cong F') (metis imageI)
  ultimately show ?thesis using assms Cons by (auto simp: zdata_append)
qed

lemma zslDeleteNode_zrep:
  fixes n :: "'s::linorder znode"
  assumes "zrep h z (A @ n # B)" "\<And>i. i < zsl_level z \<Longrightarrow> upd ! i = update_of (zsl_header z) A i"
  obtains h' z' where "zslDeleteNode (fst n) upd h z = Some (h', z')" "zrep h' z' (A @ B)"
    "zsl_header z' = zsl_header z" "zsl_level z' \<le> zsl_level z" "\<And>a. fields h' a = None \<longleftrightarrow> fields h a = None"
proof -
  let ?hdr = "zsl_header z" and ?k = "zsl_level z" and ?x = "fst n"
  let ?A = "shape ?hdr A" and ?B = "map (\<lambda>n. (fst n, height n)) B"
  have r: "1 \<le> ?k" "?k \<le> ZSKIPLIST_MAXLEVEL" "\<And>m. m \<in> set (A @ n # B) \<Longrightarrow> 1 \<le> height m \<and> height m \<le> ?k"
    "distinct (?hdr # map fst (A @ n # B))" "zdata (fields h) None (A @ n # B)" "zsl_tail z = lastptr None (A @ n # B)"
    "zsl_length z = length (A @ n # B)" "\<exists>s. fields h ?hdr = Some (None, s, None, ZSKIPLIST_MAXLEVEL)"
    "\<And>i. ?k \<le> i \<Longrightarrow> i < ZSKIPLIST_MAXLEVEL \<Longrightarrow> \<exists>s. get_level h ?hdr i = Some (None, s)"
    "zlevels h (shape ?hdr (A @ n # B)) ?k" "sorted_wrt (<) (map key (A @ n # B))"
    using assms(1) by (auto simp: zrep_def)
  have ps: "shape ?hdr (A @ n # B) = ?A @ (?x, height n) # ?B" "shape ?hdr (A @ B) = ?A @ ?B" by (simp_all add: shape_append)
  have up: "fst (upd ! i) = fst (?A ! lastpos ?A i)" if "i < ?k" for i using assms(2) [OF that] by (simp add: update_of_def)
  have pre: "?A \<noteq> []" "?k \<le> snd (?A ! 0)" "distinct (map fst (?A @ (?x, height n) # ?B))" "height n \<le> ?k"
    using r(2-4) by (simp_all add: comp_def)
  obtain h1 where h1: "foldm (\<lambda>i h.
      do {
        let u = fst (upd ! i);
        (f, s) \<leftarrow> get_level h u i;
        if f = Some ?x then do { (xf, xs) \<leftarrow> get_level h ?x i; set_level u i (xf, s + xs - 1) h }
        else set_level u i (f, s - 1) h
      }) [0..<?k] h = Some h1" "fields h1 = fields h" "\<And>a j. get_level h1 a j = (if j \<in> set [0..<?k] then
      (if a = fst (?A ! lastpos ?A j) then Some (lev (?A @ ?B) j (lastpos ?A j)) else get_level h a j) else get_level h a j)"
    using unlink_loop [OF r(10) [unfolded ps] pre up] by blast
  have z1: "zlevels h1 (shape ?hdr (A @ B)) ?k"
    using zlevels_del [OF r(10) [unfolded ps(1)], of h1] r(2,4) h1(3) unfolding ps by (simp add: comp_def)
  have "fields h1 ?x = Some (Some (snd (key n)), fst (key n), lastptr None A, height n)"
    using r(5) h1(2) by (simp add: zdata_append)
  then obtain nx where nx: "h1 ?x = Some nx" "z_backward nx = lastptr None A" by (auto simp: fields_def)
  have "fst (?A ! lastpos ?A 0) \<in> fst ` set ?A"
    by (intro imageI nth_mem lastpos) (auto simp: ZSKIPLIST_MAXLEVEL_def)
  moreover have "?x \<notin> fst ` set ?A" using r(4) by simp
  ultimately have "?x \<noteq> fst (?A ! lastpos ?A 0)" by metis
  then have "get_level h1 ?x 0 = get_level h ?x 0" using h1(3) by simp
  moreover have "get_level h (fst (shape ?hdr (A @ n # B) ! Suc (length A))) 0 = Some (lev (shape ?hdr (A @ n # B)) 0 (Suc (length A)))"
    using r(1,3) by (intro zlevelsD [OF r(10)]) (auto simp: Suc_le_eq)
  moreover have "fst (lev (shape ?hdr (A @ n # B)) 0 (Suc (length A))) = (if B = [] then None else Some (fst (hd B)))"
    using r(3) by (subst lev_0) (auto simp: nth_append hd_conv_nth)
  ultimately obtain s where f: "get_level h1 ?x 0 = Some (if B = [] then None else Some (fst (hd B)), s)"
    by (cases "lev (shape ?hdr (A @ n # B)) 0 (Suc (length A))") simp
  have "\<exists>p. fields h1 (fst (hd B)) = Some (Some (snd (key (hd B))), fst (key (hd B)), p, height (hd B))" if "B \<noteq> []"
    using that r(5) h1(2) by (cases B) (auto simp: zdata_append)
  from relink_backward [OF this] obtain h2 where h2: "(case (if B = [] then None else Some (fst (hd B))) of
           Some y \<Rightarrow> map_option (\<lambda>h. (h, zsl_tail z)) (set_backward y (lastptr None A) h1)
         | None \<Rightarrow> Some (h1, lastptr None A)) = Some (h2, if B = [] then lastptr None A else zsl_tail z)"
      "\<And>c j. get_level h2 c j = get_level h1 c j"
      "fields h2 = (case B of [] \<Rightarrow> fields h1
         | b # _ \<Rightarrow> (fields h1)(fst b \<mapsto> (Some (snd (key b)), fst (key b), lastptr None A, height b)))"
    by metis
  have z2: "zlevels h2 (shape ?hdr (A @ B)) ?k" using z1 h2(2) by (simp add: zlevels_def)
  have "height m \<le> ?k" if "m \<in> set (A @ B)" for m using r(3) [of m] that by auto
  from lower_level_ok [OF z2 order_refl r(1,2) this] obtain k' where k': "lower_level h2 ?hdr ?k = Some k'"
    "1 \<le> k'" "k' \<le> ?k" "\<forall>m \<in> set (A @ B). height m \<le> k'"
    "\<forall>i. k' \<le> i \<and> i < ?k \<longrightarrow> (\<exists>s. get_level h2 ?hdr i = Some (None, s))" by blast
  let ?z' = "z\<lparr>zsl_tail := if B = [] then lastptr None A else zsl_tail z, zsl_level := k', zsl_length := zsl_length z - 1\<rparr>"
  have "zslDeleteNode ?x upd h z = Some (h2, ?z')"
    unfolding zslDeleteNode_def by (simp only: Option.bind.simps h1(1) nx f h2(1) prod.case k'(1))
  moreover have "zrep h2 ?z' (A @ B)"
    unfolding zrep_def
  proof (intro conjI)
    show "zdata (fields h2) None (A @ B)" using r(4) by (intro zdata_del [OF r(5) _ h2(3) [unfolded h1(2)]]) simp
    show "zlevels h2 (shape (zsl_header ?z') (A @ B)) (zsl_level ?z')" using z2 k'(3) by (auto simp: zlevels_def)
    show "\<exists>s. fields h2 (zsl_header ?z') = Some (None, s, None, ZSKIPLIST_MAXLEVEL)"
      using r(4,8) h2(3) h1(2) by (cases B) auto
    show "\<forall>i. zsl_level ?z' \<le> i \<and> i < ZSKIPLIST_MAXLEVEL \<longrightarrow> (\<exists>s. get_level h2 (zsl_header ?z') i = Some (None, s))"
    proof (intro allI impI)
      fix i assume i: "zsl_level ?z' \<le> i \<and> i < ZSKIPLIST_MAXLEVEL"
      show "\<exists>s. get_level h2 (zsl_header ?z') i = Some (None, s)"
      proof (cases "i < ?k")
        case True
        then show ?thesis using i k'(5) by simp
      next
        case False
        then show ?thesis using i r(9) [of i] h2(2) h1(3) [of ?hdr i] by simp
      qed
    qed
    show "\<forall>m \<in> set (A @ B). 1 \<le> height m \<and> height m \<le> zsl_level ?z'" using k'(4) r(3) by auto
    show "zsl_tail ?z' = lastptr None (A @ B)" using r(6) by (auto simp: lastptr_def)
    show "sorted_wrt (<) (map key (A @ B))" using r(11) by (auto simp: sorted_wrt_append)
    show "distinct (zsl_header ?z' # map fst (A @ B))" using r(4) by auto
  qed (use k'(2,3) r(2,7) in simp_all)
  moreover have "fields h2 a = None \<longleftrightarrow> fields h a = None" for a
    using h2(3) h1(2) r(5) by (cases B) (auto simp: zdata_append)
  ultimately show ?thesis using that k'(3) by simp
qed

end
