(* ===== verification/Skiplist_Spec.thy ===== *)
theory Skiplist_Spec
  imports Skiplist_Ops
begin

text \<open>
  Creation, deletion, update of scores and ranks in terms of the sorted sequence of pairs of score
  and string a skip list stands for.
\<close>

section \<open>Framing\<close>

lemma zrep_cong:
  assumes "zrep h z ns" "\<And>a. a \<in> insert (zsl_header z) (fst ` set ns) \<Longrightarrow> h' a = h a"
  shows "zrep h' z ns"
proof -
  let ?ps = "shape (zsl_header z) ns"
  have gl: "get_level h' a i = get_level h a i" and fl: "fields h' a = fields h a"
    if "a \<in> insert (zsl_header z) (fst ` set ns)" for a i
    using assms(2) [OF that] by (simp_all add: get_level_def fields_def)
  have "zlevels h' ?ps (zsl_level z)"
    unfolding zlevels_def
  proof (intro allI impI)
    fix p i assume p: "p < length ?ps" "i < snd (?ps ! p)" "i < zsl_level z"
    have "fst (?ps ! p) \<in> fst ` set ?ps" using p(1) by (intro imageI nth_mem)
    then have "get_level h' (fst (?ps ! p)) i = get_level h (fst (?ps ! p)) i" by (intro gl) (simp only: shape_simps)
    moreover have "zlevels h ?ps (zsl_level z)" using assms(1) by (simp add: zrep_def)
    ultimately show "get_level h' (fst (?ps ! p)) i = Some (lev ?ps i p)" using zlevelsD [OF _ p, of h] by simp
  qed
  moreover have "zdata (fields h') None ns = zdata (fields h) None ns" by (intro zdata_cong fl) auto
  ultimately show ?thesis using assms(1) gl fl by (simp add: zrep_def)
qed

text \<open>Where the pointer behind the last node visited on the lowest level leads.\<close>

lemma zrep_next:
  assumes "zrep h z ns" "p \<le> length ns"
  obtains s where "get_level h (fst (shape (zsl_header z) ns ! p)) 0 = Some (if p < length ns then Some (fst (ns ! p)) else None, s)"
proof -
  have r: "\<And>n. n \<in> set ns \<Longrightarrow> 1 \<le> height n" "1 \<le> zsl_level z" "zlevels h (shape (zsl_header z) ns) (zsl_level z)"
    using assms(1) by (auto simp: zrep_def)
  have "0 < snd (shape (zsl_header z) ns ! p)"
    using assms(2) r(1) [OF nth_mem, of "p - 1"] by (cases p) (auto simp: ZSKIPLIST_MAXLEVEL_def Suc_le_eq)
  then have "get_level h (fst (shape (zsl_header z) ns ! p)) 0 = Some (lev (shape (zsl_header z) ns) 0 p)"
    using assms(2) r(2) by (intro zlevelsD [OF r(3)]) auto
  moreover have "fst (lev (shape (zsl_header z) ns) 0 p) = (if p < length ns then Some (fst (ns ! p)) else None)"
    by (rule lev_0 [OF r(1) assms(2)])
  ultimately show ?thesis by (intro that [of "snd (lev (shape (zsl_header z) ns) 0 p)"]) (simp add: prod_eq_iff)
qed

lemma shape_nth_take:
  assumes "m \<le> length ns"
  shows "shape hdr (take m ns) ! m = shape hdr ns ! m"
proof -
  have "shape hdr (take m ns) ! m = take (Suc m) (shape hdr ns) ! m" by (simp only: shape_take)
  then show ?thesis by simp
qed

lemma zrep_search_next:
  assumes "zrep h z ns" "m \<le> length ns"
  obtains s where "get_level h (fst (map (update_of (zsl_header z) (take m ns)) [0..<zsl_level z] ! 0)) 0 =
    Some (if m < length ns then Some (fst (ns ! m)) else None, s)"
proof -
  have "1 \<le> zsl_level z" "\<And>n. n \<in> set ns \<Longrightarrow> 1 \<le> height n" using assms(1) by (auto simp: zrep_def)
  moreover then have "lastpos (shape (zsl_header z) (take m ns)) 0 = length (take m ns)"
    by (intro lastpos_0) (auto dest: in_set_takeD)
  ultimately have eq: "fst (map (update_of (zsl_header z) (take m ns)) [0..<zsl_level z] ! 0) = fst (shape (zsl_header z) ns ! m)"
    using assms(2) by (simp add: update_of_def shape_nth_take)
  obtain s where "get_level h (fst (shape (zsl_header z) ns ! m)) 0 = Some (if m < length ns then Some (fst (ns ! m)) else None, s)"
    by (rule zrep_next [OF assms])
  then show ?thesis unfolding eq [symmetric] by (rule that)
qed

section \<open>Creation\<close>

lemma zslCreate_zrep:
  fixes zero :: "'s::linorder"
  obtains h' z where "zslCreate junk hdr zero h = Some (h', z)" "zrep h' z []" "zsl_header z = hdr"
    "\<And>a. a \<noteq> hdr \<Longrightarrow> h' a = None \<longleftrightarrow> h a = None"
proof -
  let ?h1 = "zslCreateNode junk hdr ZSKIPLIST_MAXLEVEL zero None h"
  have "\<exists>h2. foldm (\<lambda>j. set_level hdr j (None, 0)) [0..<ZSKIPLIST_MAXLEVEL] ?h1 = Some h2 \<and> fields h2 = fields ?h1 \<and>
    (\<forall>a j. get_level h2 a j = (if j \<in> set [0..<ZSKIPLIST_MAXLEVEL] then (if a = hdr then Some (None, 0) else get_level ?h1 a j)
                              else get_level ?h1 a j))"
  proof (rule foldm_levels)
    fix i h assume i: "i \<in> set [0..<ZSKIPLIST_MAXLEVEL]" "fields h = fields ?h1" "\<And>a. get_level h a i = get_level ?h1 a i"
    then have "get_level h hdr i \<noteq> None" by (simp add: get_level_create)
    from set_level_ex [OF this, of "(None, 0)"] i show "\<exists>h'. set_level hdr i (None, 0) h = Some h' \<and> fields h' = fields ?h1 \<and>
      (\<forall>a j. get_level h' a j = (if j = i then (if a = hdr then Some (None, 0) else get_level ?h1 a i) else get_level h a j))"
      by auto
  qed simp
  then obtain h2 where h2: "foldm (\<lambda>j. set_level hdr j (None, 0)) [0..<ZSKIPLIST_MAXLEVEL] ?h1 = Some h2" "fields h2 = fields ?h1"
    "\<And>j. j < ZSKIPLIST_MAXLEVEL \<Longrightarrow> get_level h2 hdr j = Some (None, 0)" by auto
  have "fields h2 hdr = Some (None, zero, fst junk, ZSKIPLIST_MAXLEVEL)" using h2(2) by (simp add: fields_create)
  then obtain h3 where h3: "set_backward hdr None h2 = Some h3" "fields h3 = (fields h2)(hdr \<mapsto> (None, zero, None, ZSKIPLIST_MAXLEVEL))"
    "\<And>c j. get_level h3 c j = get_level h2 c j" by (rule fields_set_backward [where p = None]) auto
  let ?z = "\<lparr>zsl_header = hdr, zsl_tail = None, zsl_length = 0, zsl_level = 1\<rparr>"
  have "zrep h3 ?z []"
    using h2(3) h3(2,3) by (auto simp: zrep_def zlevels_def shape_def lev_def nxt_def lastptr_def ZSKIPLIST_MAXLEVEL_def)
  moreover have "zslCreate junk hdr zero h = Some (h3, ?z)" by (simp add: zslCreate_def h2(1) h3(1))
  moreover have "h3 a = None \<longleftrightarrow> h a = None" if "a \<noteq> hdr" for a
  proof -
    have "fields h3 a = fields h a" using that h3(2) h2(2) by (simp add: fields_create)
    then show ?thesis unfolding fields_def by (cases "h3 a"; cases "h a") simp_all
  qed
  ultimately show ?thesis using that by simp
qed

section \<open>Deletion\<close>

lemma before_nth:
  assumes "sorted_wrt (<) (map key ns)" "(s, e) \<in> key ` set ns"
  shows "length (before (s, e) ns) < length ns" "key (ns ! length (before (s, e) ns)) = (s, e)"
proof -
  let ?m = "length (before (s, e) ns)"
  obtain n where n: "(s, e) = key n" "n \<in> set ns" using assms(2) by (rule imageE)
  then obtain q where q: "q < length ns" "key (ns ! q) = (s, e)" unfolding in_set_conv_nth by auto
  have "\<not> q < ?m" using prefix_pos [OF assms(1) _ q(1), of "\<lambda>k. k < (s, e)"] q(2) by auto
  then have le: "?m \<le> q" by simp
  then show m: "?m < length ns" using q(1) by simp
  have "\<not> key (ns ! ?m) < (s, e)" using nth_length_takeWhile [OF m] by simp
  moreover have "?m = q \<or> key (ns ! ?m) < key (ns ! q)" using le q(1) assms(1) by (auto simp: sorted_wrt_iff_nth_less le_less)
  ultimately show "key (ns ! ?m) = (s, e)" using q(2) by auto
qed

lemma before_remove1:
  fixes ns :: "'s::linorder znode list"
  assumes "sorted_wrt (<) (map key ns)" "ns = A @ n # B"
  shows "map key (A @ B) = remove1 (key n) (map key ns)" "set (A @ B) = {m \<in> set ns. key m \<noteq> key n}"
proof -
  have "distinct (map key ns)" using assms(1) by (simp add: strict_sorted_iff)
  then have k: "key n \<notin> key ` set A" "key n \<notin> key ` set B" by (simp_all add: assms(2))
  then show "map key (A @ B) = remove1 (key n) (map key ns)" by (simp add: assms(2) remove1_append)
  have "key m \<noteq> key n" if "m \<in> set A \<or> m \<in> set B" for m using k that by (metis imageI)
  then show "set (A @ B) = {m \<in> set ns. key m \<noteq> key n}" unfolding assms(2) by auto
qed

lemma zslDelete_zrep:
  fixes score :: "'s::linorder"
  assumes "zrep h z ns"
  obtains h' z' ns' where "zslDelete score ele h z = Some (h', z', (score, ele) \<in> key ` set ns)" "zrep h' z' ns'"
    "map key ns' = remove1 (score, ele) (map key ns)" "set ns' = {n \<in> set ns. key n \<noteq> (score, ele)}"
    "zsl_header z' = zsl_header z"
proof -
  let ?m = "length (before (score, ele) ns)"
  let ?upd = "map (update_of (zsl_header z) (before (score, ele) ns)) [0..<zsl_level z]"
  note srt = zrep_sorted [OF assms]
  have bt: "before (score, ele) ns = take ?m ns" by (simp add: takeWhile_eq_take [symmetric])
  have search: "zsl_search h z (node_before score ele) = Some ?upd" by (rule zrep_search_key [OF assms])
  obtain s where nx: "get_level h (fst (?upd ! 0)) 0 = Some (if ?m < length ns then Some (fst (ns ! ?m)) else None, s)"
    by (rule zrep_search_next [OF assms length_takeWhile_le [of "\<lambda>n. key n < (score, ele)"]]) (simp only: bt [symmetric])
  show ?thesis
  proof (cases "(score, ele) \<in> key ` set ns")
    case True
    note m = before_nth [OF srt True]
    let ?n = "ns ! ?m" and ?B = "drop (Suc ?m) ns"
    have ns: "ns = before (score, ele) ns @ ?n # ?B" using m(1) bt by (metis id_take_nth_drop)
    obtain n where n: "h (fst ?n) = Some n" "z_ele n = Some ele" "z_score n = score" by (rule zrep_node [OF assms m(1)]) (use m(2) in auto)
    obtain h1 z1 where d: "zslDeleteNode (fst ?n) ?upd h z = Some (h1, z1)" "zrep h1 z1 (before (score, ele) ns @ ?B)" "zsl_header z1 = zsl_header z"
      by (rule zslDeleteNode_zrep [of h z "before (score, ele) ns" ?n ?B ?upd]) (use assms ns in simp_all)
    have "distinct (zsl_header z # map fst ns)" using assms by (simp add: zrep_def)
    then have nx': "fst ?n \<notin> insert (zsl_header z1) (fst ` set (before (score, ele) ns @ ?B))"
      using d(3) by (subst (asm) ns) auto
    have z: "zrep (h1(fst ?n := None)) z1 (before (score, ele) ns @ ?B)"
      by (rule zrep_cong [OF d(2)]) (use nx' in auto)
    have mk: "map key (before (score, ele) ns @ ?B) = remove1 (score, ele) (map key ns)"
      using before_remove1(1) [OF srt ns] m(2) by simp
    have st: "set (before (score, ele) ns @ ?B) = {n \<in> set ns. key n \<noteq> (score, ele)}"
      using before_remove1(2) [OF srt ns] m(2) by simp
    have "zslDelete score ele h z = Some (h1(fst ?n := None), z1, True)"
      unfolding zslDelete_def search using nx m(1) n d(1) by (simp add: sdscmp_order)
    then show ?thesis by (intro that [OF _ z mk st d(3)]) (simp only: True)
  next
    case False
    have "zslDelete score ele h z = Some (h, z, False)"
    proof (cases "?m < length ns")
      case True
      obtain n where n: "h (fst (ns ! ?m)) = Some n" "z_ele n = Some (snd (key (ns ! ?m)))" "z_score n = fst (key (ns ! ?m))"
        by (rule zrep_node [OF assms True])
      have "key (ns ! ?m) \<in> key ` set ns" by (intro imageI nth_mem True)
      with False have "key (ns ! ?m) \<noteq> (score, ele)" by (intro notI) simp
      then have "\<not> (score = z_score n \<and> sdscmp (the (z_ele n)) ele = 0)" using n by (auto simp: sdscmp_order prod_eq_iff)
      then show ?thesis unfolding zslDelete_def search using nx True n by auto
    next
      case F: False
      then show ?thesis unfolding zslDelete_def search using nx by simp
    qed
    then have del: "zslDelete score ele h z = Some (h, z, (score, ele) \<in> key ` set ns)" by (simp only: False)
    have mk: "map key ns = remove1 (score, ele) (map key ns)" using False by (simp add: remove1_idem)
    have st: "set ns = {n \<in> set ns. key n \<noteq> (score, ele)}" using False by force
    show ?thesis by (rule that [OF del assms mk st refl])
  qed
qed

section \<open>Update of a score\<close>

lemma insort_mid: "\<lbrakk>\<And>a. a \<in> set A \<Longrightarrow> a < k; \<And>b. b \<in> set B \<Longrightarrow> k < b\<rbrakk> \<Longrightarrow> insort k (A @ B) = A @ k # B"
proof (induction A)
  case Nil
  then show ?case by (simp add: insort_is_Cons less_imp_le)
next
  case (Cons a A)
  then have "insort k (A @ B) = A @ k # B" "a < k" by simp_all
  moreover then have "\<not> k \<le> a" by simp
  ultimately show ?case by simp
qed

lemma fst_less: "fst a < fst b \<Longrightarrow> a < (b :: 'a::linorder \<times> 'b::linorder)"
  by (cases a; cases b) (simp add: less_prod_def')

lemma fst_mono: "a < (b :: 'a::linorder \<times> 'b::linorder) \<Longrightarrow> fst a \<le> fst b"
  by (cases a; cases b) (auto simp: less_prod_def')

lemma zrep_set_score:
  fixes h :: "'s::linorder zheap"
  assumes "zrep h z (A @ (x, l, cur, ele) # B)" "h x = Some n"
    "\<And>m. m \<in> set A \<Longrightarrow> key m < (newscore, ele)" "\<And>m. m \<in> set B \<Longrightarrow> (newscore, ele) < key m"
  shows "zrep (h(x \<mapsto> n\<lparr>z_score := newscore\<rparr>)) z (A @ (x, l, newscore, ele) # B)"
proof -
  let ?h = "h(x \<mapsto> n\<lparr>z_score := newscore\<rparr>)"
  have r: "distinct (zsl_header z # map fst (A @ (x, l, cur, ele) # B))" "zdata (fields h) None (A @ (x, l, cur, ele) # B)"
    "sorted_wrt (<) (map key (A @ (x, l, cur, ele) # B))" using assms(1) by (simp_all add: zrep_def)
  have gl: "get_level ?h a i = get_level h a i" for a i using assms(2) by (simp add: get_level_def)
  have fl: "fields ?h a = fields h a" if "a \<noteq> x" for a using that by (simp add: fields_def)
  have fx: "fields ?h x = Some (Some ele, newscore, lastptr None A, l)"
    using r(2) assms(2) by (simp add: zdata_append fields_def)
  have nx: "x \<notin> fst ` set A" "x \<notin> fst ` set B" using r(1) by auto
  have "zdata (fields ?h) None A = zdata (fields h) None A" using nx by (intro zdata_cong fl) (metis imageI)
  moreover have "zdata (fields ?h) (Some x) B = zdata (fields h) (Some x) B" using nx by (intro zdata_cong fl) (metis imageI)
  ultimately have "zdata (fields ?h) None (A @ (x, l, newscore, ele) # B)" using r(2) fx by (simp add: zdata_append)
  moreover have "shape hdr (A @ (x, l, newscore, ele) # B) = shape hdr (A @ (x, l, cur, ele) # B)" for hdr
    by (simp add: shape_def)
  moreover have "sorted_wrt (<) (map key (A @ (x, l, newscore, ele) # B))"
    using r(3) assms(3,4) by (simp add: sorted_wrt_append)
  ultimately show ?thesis using assms(1) fl [of "zsl_header z"] r(1)
    by (simp add: zrep_def gl zlevels_def lastptr_def)
qed

lemma zrep_node_in:
  assumes "zrep h z ns" "n \<in> set ns"
  obtains nd where "h (fst n) = Some nd" "z_ele nd = Some (snd (key n))" "z_score nd = fst (key n)"
proof -
  obtain q where "q < length ns" "ns ! q = n" using assms(2) unfolding in_set_conv_nth by blast
  then show ?thesis using zrep_node [OF assms(1), of q] that by metis
qed

text \<open>The tests of \<open>zslUpdateScore\<close> that the node may stay where it is.\<close>

lemma score_fits_before:
  assumes "zrep h z (A @ B)"
  shows "(case lastptr None A of None \<Rightarrow> Some True | Some b \<Rightarrow> do { nb \<leftarrow> h b; Some (z_score nb < newscore) }) =
    Some (\<forall>m \<in> set A. fst (key m) < newscore)"
proof (cases A rule: rev_cases)
  case (snoc A' a)
  have "sorted_wrt (<) (map key A)" using zrep_sorted [OF assms] by (simp add: sorted_wrt_append)
  then have "fst (key m) \<le> fst (key a)" if "m \<in> set A" for m
    using that snoc by (auto simp: sorted_wrt_append dest: fst_mono)
  then have "(\<forall>m \<in> set A. fst (key m) < newscore) \<longleftrightarrow> fst (key a) < newscore" using snoc by force
  moreover obtain nd where "h (fst a) = Some nd" "z_score nd = fst (key a)" by (rule zrep_node_in [OF assms, of a]) (use snoc in auto)
  ultimately show ?thesis using snoc by (simp add: lastptr_def)
qed (simp add: lastptr_def)

lemma score_fits_after:
  assumes "zrep h z (A @ B)"
  shows "(case (if B = [] then None else Some (fst (hd B))) of None \<Rightarrow> Some True | Some b \<Rightarrow> do { nb \<leftarrow> h b; Some (z_score nb > newscore) }) =
    Some (\<forall>m \<in> set B. newscore < fst (key m))"
proof (cases B)
  case (Cons b B')
  have "sorted_wrt (<) (map key B)" using zrep_sorted [OF assms] by (simp add: sorted_wrt_append)
  then have "fst (key b) \<le> fst (key m)" if "m \<in> set B" for m
    using that Cons by (auto dest: fst_mono)
  then have "(\<forall>m \<in> set B. newscore < fst (key m)) \<longleftrightarrow> newscore < fst (key b)" using Cons by force
  moreover obtain nd where "h (fst b) = Some nd" "z_score nd = fst (key b)" by (rule zrep_node_in [OF assms, of b]) (use Cons in auto)
  ultimately show ?thesis using Cons by simp
qed simp

lemma set_before_ins:
  "set (before k ns @ n # drop (length (before k ns)) ns) = insert n (set ns)"
proof -
  have "set ns = set (before k ns @ drop (length (before k ns)) ns)" by (rule arg_cong [OF before_split])
  then show ?thesis by (simp only: set_append list.set Un_insert_right)
qed

lemma zslUpdateScore_zrep:
  fixes curscore :: "'s::linorder"
  assumes rep: "zrep h z ns" and new: "h new = None" "zslRandomLevel rs = Some L"
    and mem: "(curscore, ele) \<in> key ` set ns" and uniq: "(newscore, ele) \<notin> key ` set ns - {(curscore, ele)}"
  obtains h' z' ns' a l where "zslUpdateScore junk rs new curscore ele newscore h z = Some (h', z', a)" "zrep h' z' ns'"
    "map key ns' = insort (newscore, ele) (remove1 (curscore, ele) (map key ns))"
    "set ns' = insert (a, l, newscore, ele) {n \<in> set ns. key n \<noteq> (curscore, ele)}" "zsl_header z' = zsl_header z"
proof -
  define A where "A = before (curscore, ele) ns"
  let ?upd = "map (update_of (zsl_header z) A) [0..<zsl_level z]"
  note srt = zrep_sorted [OF rep] and m = before_nth [OF zrep_sorted [OF rep] mem, folded A_def]
  define B where "B = drop (Suc (length A)) ns"
  obtain x l where n: "ns ! length A = (x, l, curscore, ele)" using m(2) by (metis prod.collapse)
  have bt: "A = take (length A) ns" unfolding A_def by (simp add: takeWhile_eq_take [symmetric])
  have ns: "ns = A @ (x, l, curscore, ele) # B" unfolding B_def using m(1) bt n by (metis id_take_nth_drop)
  have mk: "map key (A @ B) = remove1 (curscore, ele) (map key ns)" "set (A @ B) = {n \<in> set ns. key n \<noteq> (curscore, ele)}"
    using before_remove1 [OF srt ns] by simp_all
  have search: "zsl_search h z (node_before curscore ele) = Some ?upd" unfolding A_def by (rule zrep_search_key [OF rep])
  obtain s where nx: "get_level h (fst (?upd ! 0)) 0 = Some (Some x, s)"
    by (rule zrep_search_next [OF rep less_imp_le [OF m(1)]]) (use m(1) n in \<open>simp add: bt [symmetric]\<close>)
  obtain nd where nd: "h x = Some nd" "z_ele nd = Some ele" "z_score nd = curscore" "z_backward nd = lastptr None A"
    by (rule zrep_node [OF rep m(1)]) (use n in \<open>simp add: bt [symmetric]\<close>)
  have "\<exists>s'. get_level h x 0 = Some (if B = [] then None else Some (fst (hd B)), s')"
  proof -
    have "Suc (length A) \<le> length ns" using m(1) by simp
    from zrep_next [OF rep this] obtain s' where "get_level h x 0 =
        Some (if Suc (length A) < length ns then Some (fst (ns ! Suc (length A))) else None, s')" using m(1) n by auto
    moreover have "(if Suc (length A) < length ns then Some (fst (ns ! Suc (length A))) else None) = (if B = [] then None else Some (fst (hd B)))"
      unfolding B_def by (auto simp: hd_drop_conv_nth)
    ultimately show ?thesis by auto
  qed
  then obtain s' where fwd: "get_level h x 0 = Some (if B = [] then None else Some (fst (hd B)), s')" by blast
  note before_ok = score_fits_before [OF rep [unfolded ns], of newscore]
  have "ns = (A @ [(x, l, curscore, ele)]) @ B" using ns by simp
  note after_ok = score_fits_after [OF rep [unfolded this], of newscore]
  define fits where "fits \<longleftrightarrow> (\<forall>m \<in> set A. fst (key m) < newscore) \<and> (\<forall>m \<in> set B. newscore < fst (key m))"
  have upd: "zslUpdateScore junk rs new curscore ele newscore h z =
    (if fits then Some (h(x \<mapsto> nd\<lparr>z_score := newscore\<rparr>), z, x)
     else do { (h1, zsl1) \<leftarrow> zslDeleteNode x ?upd h z;
               (h2, zsl2) \<leftarrow> zslInsert junk rs new newscore ele h1 zsl1;
               Some (h2(x := None), zsl2, new) })"
    unfolding zslUpdateScore_def search fits_def
    by (simp only: Option.bind.simps prod.case nx nd fwd before_ok after_ok sdscmp_order option.sel simp_thms if_True if_False)
  show ?thesis
  proof (cases fits)
    case True
    then have f: "\<And>m. m \<in> set A \<Longrightarrow> key m < (newscore, ele)" "\<And>m. m \<in> set B \<Longrightarrow> (newscore, ele) < key m"
      by (auto simp: fits_def intro: fst_less)
    have "insort (newscore, ele) (map key (A @ B)) = map key A @ (newscore, ele) # map key B"
      unfolding map_append using f by (intro insort_mid) auto
    then show ?thesis using True upd zrep_set_score [OF rep [unfolded ns] nd(1) f] mk
      by (intro that [of _ z x "A @ (x, l, newscore, ele) # B"]) auto
  next
    case False
    obtain h1 z1 where d: "zslDeleteNode x ?upd h z = Some (h1, z1)" "zrep h1 z1 (A @ B)" "zsl_header z1 = zsl_header z"
        "\<And>a. fields h1 a = None \<longleftrightarrow> fields h a = None"
      by (rule zslDeleteNode_zrep [OF rep [unfolded ns], of ?upd]) simp_all
    have new1: "h1 new = None" using d(4) [of new] new(1) by (simp add: fields_def)
    have "(newscore, ele) \<notin> key ` set (A @ B)" using uniq unfolding mk(2) by auto
    from zslInsert_zrep [OF d(2) new1 new(2) this, of junk] obtain h2 z2 where i:
      "zslInsert junk rs new newscore ele h1 z1 = Some (h2, z2)" "zsl_header z2 = zsl_header z1"
      "zrep h2 z2 (before (newscore, ele) (A @ B) @ (new, L, newscore, ele) # drop (length (before (newscore, ele) (A @ B))) (A @ B))"
      (is "zrep h2 z2 ?ns'") by blast
    have sns: "set ?ns' = insert (new, L, newscore, ele) (set (A @ B))"
      by (rule set_before_ins)
    have "distinct (zsl_header z # map fst ns)" using rep by (simp add: zrep_def)
    then have "x \<notin> fst ` set (A @ B)" "x \<noteq> zsl_header z" unfolding ns by auto
    moreover have "x \<noteq> new" using nd(1) new(1) by auto
    ultimately have "zrep (h2(x := None)) z2 ?ns'"
      using d(3) i(2) sns by (intro zrep_cong [OF i(3)]) auto
    moreover have "map key ?ns' = insort (newscore, ele) (map key (A @ B))"
      using before_insort(1) [OF zrep_sorted [OF d(2)] \<open>(newscore, ele) \<notin> key ` set (A @ B)\<close>] by simp
    ultimately show ?thesis using False upd d(1,3) i(1,2) mk sns by (intro that [of "h2(x := None)" z2 new ?ns' L]) auto
  qed
qed

section \<open>Ranks\<close>

lemma zrep_walk:
  assumes "zrep h z ns" "m \<le> length ns" "i < zsl_level z" "p \<le> m" "i < snd (shape (zsl_header z) ns ! p)"
    "\<And>q n. \<lbrakk>q < length ns; z_ele n = Some (snd (key (ns ! q))); z_score n = fst (key (ns ! q))\<rbrakk> \<Longrightarrow> cond n (Suc q) \<longleftrightarrow> q < m"
  shows "\<exists>u. zsl_walk (zsl_length z + 1) h cond i (fst (shape (zsl_header z) ns ! p)) p = Some (fst (shape (zsl_header z) ns ! u), u) \<and>
    u \<le> m \<and> i < snd (shape (zsl_header z) ns ! u) \<and> (i = 0 \<longrightarrow> u = m)"
proof -
  let ?ps = "shape (zsl_header z) ns" and ?u = "lastpos (shape (zsl_header z) (take m ns)) i"
  have r: "zlevels h ?ps (zsl_level z)" "zsl_level z \<le> ZSKIPLIST_MAXLEVEL" "zsl_length z = length ns" "\<And>n. n \<in> set ns \<Longrightarrow> 1 \<le> height n"
    using assms(1) by (auto simp: zrep_def)
  have "zsl_walk (zsl_length z + 1) h cond i (fst (?ps ! p)) p = Some (fst (?ps ! lastpos (take (Suc m) ?ps) i), lastpos (take (Suc m) ?ps) i)"
  proof (rule zsl_walk_lastpos [OF r(1) assms(3)])
    fix q assume q: "0 < q" "q < length ?ps"
    then obtain q' where q': "q = Suc q'" "q' < length ns" by (cases q) auto
    obtain n where "h (fst (ns ! q')) = Some n" "z_ele n = Some (snd (key (ns ! q')))" "z_score n = fst (key (ns ! q'))"
      by (rule zrep_node [OF assms(1) q'(2)])
    with q' assms(6) [OF q'(2)] show "\<exists>n. h (fst (?ps ! q)) = Some n \<and> cond n q = (q \<le> m)" by auto
  qed (use assms r(2,3) in auto)
  moreover have "?u \<le> m" "i < snd (?ps ! ?u)"
  proof -
    have A: "take (Suc m) ?ps \<noteq> []" "i < snd (take (Suc m) ?ps ! 0)" using r(2) assms(3) by auto
    from lastpos(1,2) [OF A] show "?u \<le> m" "i < snd (?ps ! ?u)" by (simp_all add: shape_take [symmetric])
  qed
  moreover have "?u = m" if "i = 0"
  proof -
    have "?u = length (take m ns)" unfolding that by (intro lastpos_0 r(4)) (auto dest: in_set_takeD)
    then show ?thesis using assms(2) by simp
  qed
  ultimately show ?thesis by (auto simp: shape_take)
qed

text \<open>The elements up to a key: the key is the last of them when it is in the list.\<close>

lemma upto_pos:
  assumes "sorted_wrt (<) (map key (ns :: 's::linorder znode list))" "q < length ns"
  shows "key (ns ! q) \<le> k \<longleftrightarrow> q < length (takeWhile (\<lambda>n. key n \<le> k) ns)"
  by (rule prefix_pos [OF assms(1) _ assms(2)]) (auto intro: less_imp_le order.trans)

lemma upto_last:
  assumes srt: "sorted_wrt (<) (map key (ns :: 's::linorder znode list))" and q: "q < length ns" "key (ns ! q) = k"
  shows "length (takeWhile (\<lambda>n. key n \<le> k) ns) = Suc q" (is "?m = _")
proof -
  have "q < ?m" using upto_pos [OF srt q(1), of k] q(2) by simp
  moreover have "\<not> Suc q < ?m"
  proof
    assume lt: "Suc q < ?m"
    then have len: "Suc q < length ns" using length_takeWhile_le [of "\<lambda>n. key n \<le> k" ns] by linarith
    then have "key (ns ! q) < key (ns ! Suc q)" using srt by (simp add: sorted_wrt_iff_nth_less)
    moreover have "key (ns ! Suc q) \<le> k" using upto_pos [OF srt len, of k] lt by simp
    ultimately show False using q(2) by simp
  qed
  ultimately show ?thesis by simp
qed

lemma key_index:
  assumes "k \<in> key ` set ns"
  obtains q where "q < length ns" "key (ns ! q) = k"
proof -
  obtain n where n: "k = key n" "n \<in> set ns" using assms by (rule imageE)
  then show ?thesis using that unfolding in_set_conv_nth by auto
qed

lemma rank_loop_zrep:
  fixes score :: "'s::linorder"
  assumes rep: "zrep h z ns" and uniq: "\<And>n. \<lbrakk>n \<in> set ns; snd (key n) = ele\<rbrakk> \<Longrightarrow> fst (key n) = score"
    and m: "m = length (takeWhile (\<lambda>n. key n \<le> (score, ele)) ns)"
    and j: "j \<le> zsl_level z" "p \<le> m" "j \<le> snd (shape (zsl_header z) ns ! p)"
  shows "rank_loop (zsl_length z + 1) h score ele j (fst (shape (zsl_header z) ns ! p)) p =
    Some (if (score, ele) \<in> key ` set ns \<and> 0 < j then m else 0)"
  using j
proof (induction j arbitrary: p)
  case (Suc i)
  let ?cond = "\<lambda>n t. z_score n < score \<or> z_score n = score \<and> sdscmp (the (z_ele n)) ele \<le> 0" and ?k = "(score, ele)"
  note srt = zrep_sorted [OF rep]
  have le: "sdscmp e ele \<le> 0 \<longleftrightarrow> e \<le> ele" for e
    using sdscmp_order(3) [of e ele] by (simp add: not_less [symmetric])
  have mle: "m \<le> length ns" unfolding m by (rule length_takeWhile_le)
  have cond: "?cond n (Suc q) \<longleftrightarrow> q < m"
    if "q < length ns" "z_ele n = Some (snd (key (ns ! q)))" "z_score n = fst (key (ns ! q))" for q and n :: "'s zskiplistNode"
    using upto_pos [OF srt that(1), of ?k] that(2,3) unfolding m by (cases "key (ns ! q)") (auto simp: le)
  have lv: "i < zsl_level z" "i < snd (shape (zsl_header z) ns ! p)" using Suc.prems by simp_all
  obtain u where u: "zsl_walk (zsl_length z + 1) h ?cond i (fst (shape (zsl_header z) ns ! p)) p = Some (fst (shape (zsl_header z) ns ! u), u)"
    "u \<le> m" "i < snd (shape (zsl_header z) ns ! u)" "i = 0 \<Longrightarrow> u = m"
    using zrep_walk [where cond = ?cond and i = i, OF rep mle lv(1) Suc.prems(2) lv(2) cond] by blast
  have IH: "rank_loop (zsl_length z + 1) h score ele i (fst (shape (zsl_header z) ns ! u)) u = Some (if ?k \<in> key ` set ns \<and> 0 < i then m else 0)"
    using Suc.prems u by (intro Suc.IH) auto
  show ?case
  proof (cases u)
    case 0
    obtain hn where "h (zsl_header z) = Some hn" "z_ele hn = None" using rep by (auto simp: zrep_def fields_def)
    then show ?thesis using u(1,4) IH 0 by auto
  next
    case (Suc q)
    with u(2) mle have q: "q < length ns" by simp
    obtain nd where nd: "h (fst (ns ! q)) = Some nd" "z_ele nd = Some (snd (key (ns ! q)))" by (rule zrep_node [OF rep q])
    show ?thesis
    proof (cases "snd (key (ns ! q)) = ele")
      case True
      then have k: "key (ns ! q) = ?k" using uniq [OF nth_mem [OF q]] by (simp add: prod_eq_iff)
      then have "m = u" using upto_last [OF srt q k] Suc m by simp
      moreover have "?k \<in> key ` set ns" unfolding k [symmetric] by (intro imageI nth_mem q)
      ultimately show ?thesis using u(1) nd True Suc q by (simp add: sdscmp_order)
    next
      case False
      have "\<not> (?k \<in> key ` set ns \<and> i = 0)"
      proof
        assume a: "?k \<in> key ` set ns \<and> i = 0"
        then obtain q' where q': "q' < length ns" "key (ns ! q') = ?k" using key_index by blast
        then have "q' = q" using upto_last [OF srt q'] u(4) a Suc m by simp
        with q'(2) False show False by simp
      qed
      then show ?thesis using u(1) nd False Suc q IH by (auto simp: sdscmp_order)
    qed
  qed
qed simp

lemma zslGetRank_zrep:
  fixes score :: "'s::linorder"
  assumes "zrep h z ns" "\<And>n. \<lbrakk>n \<in> set ns; snd (key n) = ele\<rbrakk> \<Longrightarrow> fst (key n) = score"
  shows "(score, ele) \<notin> key ` set ns \<Longrightarrow> zslGetRank score ele h z = Some 0"
    "\<lbrakk>q < length ns; key (ns ! q) = (score, ele)\<rbrakk> \<Longrightarrow> zslGetRank score ele h z = Some (Suc q)"
proof -
  have r: "1 \<le> zsl_level z" "zsl_level z \<le> ZSKIPLIST_MAXLEVEL" using assms(1) by (auto simp: zrep_def)
  then have e: "zslGetRank score ele h z = Some (if (score, ele) \<in> key ` set ns then length (takeWhile (\<lambda>n. key n \<le> (score, ele)) ns) else 0)"
    using rank_loop_zrep [where p = 0, OF assms refl order_refl] by (simp add: zslGetRank_def)
  show "(score, ele) \<notin> key ` set ns \<Longrightarrow> zslGetRank score ele h z = Some 0" by (simp add: e)
  assume q: "q < length ns" "key (ns ! q) = (score, ele)"
  have "(score, ele) \<in> key ` set ns" unfolding q(2) [symmetric] by (intro imageI nth_mem q(1))
  then show "zslGetRank score ele h z = Some (Suc q)" using e upto_last [OF zrep_sorted [OF assms(1)] q] by simp
qed

lemma by_rank_loop_zrep:
  assumes rep: "zrep h z ns" and m: "m = min rank (length ns)"
    and j: "j \<le> zsl_level z" "p \<le> m" "j \<le> snd (shape (zsl_header z) ns ! p)"
  shows "by_rank_loop (zsl_length z + 1) h rank j (fst (shape (zsl_header z) ns ! p)) p =
    Some (if rank \<le> length ns \<and> 0 < j then Some (fst (shape (zsl_header z) ns ! rank)) else None)"
  using j
proof (induction j arbitrary: p)
  case (Suc i)
  have mle: "m \<le> length ns" using m by simp
  have lv: "i < zsl_level z" "i < snd (shape (zsl_header z) ns ! p)" using Suc.prems by simp_all
  have walk: "\<exists>u. zsl_walk (zsl_length z + 1) h (\<lambda>n t. t \<le> rank) i (fst (shape (zsl_header z) ns ! p)) p =
      Some (fst (shape (zsl_header z) ns ! u), u) \<and> u \<le> m \<and> i < snd (shape (zsl_header z) ns ! u) \<and> (i = 0 \<longrightarrow> u = m)"
    by (rule zrep_walk [OF rep mle lv(1) Suc.prems(2) lv(2)]) (use m in auto)
  obtain u where u: "zsl_walk (zsl_length z + 1) h (\<lambda>n t. t \<le> rank) i (fst (shape (zsl_header z) ns ! p)) p = Some (fst (shape (zsl_header z) ns ! u), u)"
    "u \<le> m" "i < snd (shape (zsl_header z) ns ! u)" "i = 0 \<Longrightarrow> u = m"
    using walk by blast
  have "by_rank_loop (zsl_length z + 1) h rank i (fst (shape (zsl_header z) ns ! u)) u =
    Some (if rank \<le> length ns \<and> 0 < i then Some (fst (shape (zsl_header z) ns ! rank)) else None)"
    using Suc.prems u by (intro Suc.IH) auto
  then show ?case using u(1,2,4) m by auto
qed simp

lemma zslGetElementByRank_zrep:
  assumes "zrep h z ns"
  shows "zslGetElementByRank rank h z =
    Some (if rank = 0 then Some (zsl_header z) else if rank \<le> length ns then Some (fst (ns ! (rank - 1))) else None)"
proof -
  have r: "1 \<le> zsl_level z" "zsl_level z \<le> ZSKIPLIST_MAXLEVEL" using assms(1) by (auto simp: zrep_def)
  then show ?thesis
    using by_rank_loop_zrep [where p = 0 and rank = rank, OF assms refl order_refl] by (cases rank) (auto simp: zslGetElementByRank_def)
qed

end
