(* ===== verification/Skiplist_Range.thy ===== *)
theory Skiplist_Range
  imports Skiplist_Spec Dict
begin

text \<open>
  Ranges of sorted sets: lexicographic ranges, the parsing of the bounds, the first and the last
  element of a range, and the deletion of all elements of a range from a skip list and from the
  hash table that goes with it.
\<close>

section \<open>Bounds of a range\<close>

text \<open>A string object: \<open>OBJ_ENCODING_INT\<close>, or the bytes of an sds.\<close>

datatype string_obj = Int_Obj int | Sds_Obj "byte list"

text \<open>Reading a byte of an sds; the byte behind the last one is the terminating zero.\<close>

definition char_at :: "byte list \<Rightarrow> nat \<Rightarrow> byte" where
  "char_at s i = (if i < length s then s ! i else 0)"

text \<open>
  \<open>zslParseRange\<close>.  \<open>strtod\<close> of the C library is an argument: the number, \<open>None\<close> for NaN, and the
  characters that are left; \<open>of_long\<close> is the conversion of a \<open>long\<close> to a \<open>double\<close>.
\<close>

definition parse_bound ::
  "(byte list \<Rightarrow> 's option \<times> byte list) \<Rightarrow> (int \<Rightarrow> 's) \<Rightarrow> string_obj \<Rightarrow> ('s \<times> bool) option" where
  "parse_bound strtod of_long obj =
    (case obj of
       Int_Obj n \<Rightarrow> Some (of_long n, False)
     | Sds_Obj s \<Rightarrow>
         (if char_at s 0 = 0x28 then
            (let (d, eptr) = strtod (drop 1 s) in
             if char_at eptr 0 \<noteq> 0 \<or> d = None then None else Some (the d, True))
          else
            (let (d, eptr) = strtod s in
             if char_at eptr 0 \<noteq> 0 \<or> d = None then None else Some (the d, False))))"

definition zslParseRange ::
  "(byte list \<Rightarrow> 's option \<times> byte list) \<Rightarrow> (int \<Rightarrow> 's) \<Rightarrow> string_obj \<Rightarrow> string_obj \<Rightarrow> 's zrangespec option" where
  "zslParseRange strtod of_long omin omax =
    do {
      (mn, minex) \<leftarrow> parse_bound strtod of_long omin;
      (mx, maxex) \<leftarrow> parse_bound strtod of_long omax;
      Some \<lparr>zr_min = mn, zr_max = mx, zr_minex = minex, zr_maxex = maxex\<rparr>
    }"

text \<open>The bounds of a lexicographic range: \<open>shared.minstring\<close>, \<open>shared.maxstring\<close> or a string.\<close>

datatype lexstring = Minstring | Maxstring | Lex "byte list"

record zlexrangespec =
  lr_min :: lexstring
  lr_max :: lexstring
  lr_minex :: bool
  lr_maxex :: bool

definition zslParseLexRangeItem :: "byte list \<Rightarrow> (lexstring \<times> bool) option" where
  "zslParseLexRangeItem c =
    (if char_at c 0 = 0x2B then (if char_at c 1 \<noteq> 0 then None else Some (Maxstring, True))
     else if char_at c 0 = 0x2D then (if char_at c 1 \<noteq> 0 then None else Some (Minstring, True))
     else if char_at c 0 = 0x28 then Some (Lex (drop 1 c), True)
     else if char_at c 0 = 0x5B then Some (Lex (drop 1 c), False)
     else None)"

definition zslParseLexRange :: "string_obj \<Rightarrow> string_obj \<Rightarrow> zlexrangespec option" where
  "zslParseLexRange omin omax =
    (case (omin, omax) of
       (Sds_Obj mn, Sds_Obj mx) \<Rightarrow>
         do {
           (lmin, minex) \<leftarrow> zslParseLexRangeItem mn;
           (lmax, maxex) \<leftarrow> zslParseLexRangeItem mx;
           Some \<lparr>lr_min = lmin, lr_max = lmax, lr_minex = minex, lr_maxex = maxex\<rparr>
         }
     | _ \<Rightarrow> None)"

text \<open>
  \<open>sdscmplex\<close>.  The code first compares pointers: equal pointers are the same shared string or the
  same bytes, for which the comparison of the bytes gives 0 as well.
\<close>

fun sdscmplex :: "lexstring \<Rightarrow> lexstring \<Rightarrow> int" where
  "sdscmplex a b =
    (if a = b then 0
     else if a = Minstring \<or> b = Maxstring then - 1
     else if a = Maxstring \<or> b = Minstring then 1
     else (case (a, b) of (Lex s, Lex t) \<Rightarrow> sdscmp s t | _ \<Rightarrow> 0))"

definition zslLexValueGteMin :: "byte list \<Rightarrow> zlexrangespec \<Rightarrow> bool" where
  "zslLexValueGteMin v spec =
    (if lr_minex spec then sdscmplex (Lex v) (lr_min spec) > 0 else sdscmplex (Lex v) (lr_min spec) \<ge> 0)"

definition zslLexValueLteMax :: "byte list \<Rightarrow> zlexrangespec \<Rightarrow> bool" where
  "zslLexValueLteMax v spec =
    (if lr_maxex spec then sdscmplex (Lex v) (lr_max spec) < 0 else sdscmplex (Lex v) (lr_max spec) \<le> 0)"

section \<open>The first and the last element of a lexicographic range\<close>

definition zslIsInLexRange :: "'s zheap \<Rightarrow> zskiplist \<Rightarrow> zlexrangespec \<Rightarrow> bool option" where
  "zslIsInLexRange h zsl rng =
    (let cmp = sdscmplex (lr_min rng) (lr_max rng) in
     if cmp > 0 \<or> (cmp = 0 \<and> (lr_minex rng \<or> lr_maxex rng)) then Some False
     else
       (case zsl_tail zsl of
          None \<Rightarrow> Some False
        | Some x \<Rightarrow>
            do {
              n \<leftarrow> h x;
              e \<leftarrow> z_ele n;
              if \<not> zslLexValueGteMin e rng then Some False
              else
                do {
                  (f, _) \<leftarrow> get_level h (zsl_header zsl) 0;
                  (case f of
                     None \<Rightarrow> Some False
                   | Some y \<Rightarrow> do { m \<leftarrow> h y; e \<leftarrow> z_ele m; Some (zslLexValueLteMax e rng) })
                }
            }))"

definition zslFirstInLexRange :: "'s zheap \<Rightarrow> zskiplist \<Rightarrow> zlexrangespec \<Rightarrow> zptr option" where
  "zslFirstInLexRange h zsl rng =
    do {
      inside \<leftarrow> zslIsInLexRange h zsl rng;
      if \<not> inside then Some None
      else
        do {
          upd \<leftarrow> zsl_search h zsl (\<lambda>n t. \<not> zslLexValueGteMin (the (z_ele n)) rng);
          (f, _) \<leftarrow> get_level h (fst (upd ! 0)) 0;
          x \<leftarrow> f;
          n \<leftarrow> h x;
          e \<leftarrow> z_ele n;
          Some (if \<not> zslLexValueLteMax e rng then None else Some x)
        }
    }"

definition zslLastInLexRange :: "'s zheap \<Rightarrow> zskiplist \<Rightarrow> zlexrangespec \<Rightarrow> zptr option" where
  "zslLastInLexRange h zsl rng =
    do {
      inside \<leftarrow> zslIsInLexRange h zsl rng;
      if \<not> inside then Some None
      else
        do {
          upd \<leftarrow> zsl_search h zsl (\<lambda>n t. zslLexValueLteMax (the (z_ele n)) rng);
          let x = fst (upd ! 0);
          n \<leftarrow> h x;
          e \<leftarrow> z_ele n;
          Some (if \<not> zslLexValueGteMin e rng then None else Some x)
        }
    }"

section \<open>Deletion of a range\<close>

text \<open>
  The loop that deletes nodes while a condition on the node and its position holds.  The hash table
  maps the string of an element to the address of its node, where the score is.
\<close>

fun delete_range_loop ::
  "nat \<Rightarrow> ('s zskiplistNode \<Rightarrow> nat \<Rightarrow> bool) \<Rightarrow> (nat \<times> nat) list \<Rightarrow> zptr \<Rightarrow> nat \<Rightarrow>
   's zheap \<Rightarrow> zskiplist \<Rightarrow> (byte list, nat) dict \<Rightarrow> nat \<Rightarrow>
   ('s zheap \<times> zskiplist \<times> (byte list, nat) dict \<times> nat) option" where
  "delete_range_loop 0 cond upd x traversed h zsl d removed = None"
| "delete_range_loop (Suc fuel) cond upd x traversed h zsl d removed =
    (case x of
       None \<Rightarrow> Some (h, zsl, d, removed)
     | Some a \<Rightarrow>
         do {
           n \<leftarrow> h a;
           if \<not> cond n traversed then Some (h, zsl, d, removed)
           else
             do {
               (nxt, _) \<leftarrow> get_level h a 0;
               (h1, zsl1) \<leftarrow> zslDeleteNode a upd h zsl;
               e \<leftarrow> z_ele n;
               (d1, _) \<leftarrow> dictDelete d e;
               delete_range_loop fuel cond upd nxt (traversed + 1) (h1(a := None)) zsl1 d1 (removed + 1)
             }
         })"

definition zslDeleteRangeByScore ::
  "'s::linorder zrangespec \<Rightarrow> 's zheap \<Rightarrow> zskiplist \<Rightarrow> (byte list, nat) dict \<Rightarrow>
   ('s zheap \<times> zskiplist \<times> (byte list, nat) dict \<times> nat) option" where
  "zslDeleteRangeByScore rng h zsl d =
    do {
      upd \<leftarrow> zsl_search h zsl (\<lambda>n t. if zr_minex rng then z_score n \<le> zr_min rng else z_score n < zr_min rng);
      (x, _) \<leftarrow> get_level h (fst (upd ! 0)) 0;
      delete_range_loop (zsl_length zsl + 1)
        (\<lambda>n t. if zr_maxex rng then z_score n < zr_max rng else z_score n \<le> zr_max rng) upd x 0 h zsl d 0
    }"

definition zslDeleteRangeByLex ::
  "zlexrangespec \<Rightarrow> 's zheap \<Rightarrow> zskiplist \<Rightarrow> (byte list, nat) dict \<Rightarrow>
   ('s zheap \<times> zskiplist \<times> (byte list, nat) dict \<times> nat) option" where
  "zslDeleteRangeByLex rng h zsl d =
    do {
      upd \<leftarrow> zsl_search h zsl (\<lambda>n t. \<not> zslLexValueGteMin (the (z_ele n)) rng);
      (x, _) \<leftarrow> get_level h (fst (upd ! 0)) 0;
      delete_range_loop (zsl_length zsl + 1) (\<lambda>n t. zslLexValueLteMax (the (z_ele n)) rng) upd x 0 h zsl d 0
    }"

text \<open>\<open>start\<close> and \<open>end\<close> count from 1; \<open>traversed\<close> is the rank of the last node the search visits.\<close>

definition zslDeleteRangeByRank ::
  "nat \<Rightarrow> nat \<Rightarrow> 's zheap \<Rightarrow> zskiplist \<Rightarrow> (byte list, nat) dict \<Rightarrow>
   ('s zheap \<times> zskiplist \<times> (byte list, nat) dict \<times> nat) option" where
  "zslDeleteRangeByRank start last_rank h zsl d =
    do {
      upd \<leftarrow> zsl_search h zsl (\<lambda>n t. t < start);
      (x, _) \<leftarrow> get_level h (fst (upd ! 0)) 0;
      delete_range_loop (zsl_length zsl + 1) (\<lambda>n t. t \<le> last_rank) upd x (snd (upd ! 0) + 1) h zsl d 0
    }"

section \<open>Ranges of keys\<close>

lemma takeWhile_pos:
  assumes "\<And>p q. \<lbrakk>p < q; q < length xs; P (xs ! q)\<rbrakk> \<Longrightarrow> P (xs ! p)" "q < length xs"
  shows "P (xs ! q) \<longleftrightarrow> q < length (takeWhile P xs)"
proof
  let ?m = "length (takeWhile P xs)"
  assume P: "P (xs ! q)"
  show "q < ?m"
  proof (rule ccontr)
    assume "\<not> q < ?m"
    then have m: "?m \<le> q" "?m < length xs" using assms(2) by auto
    then have "\<not> P (xs ! ?m)" by (intro nth_length_takeWhile)
    with m(1) P assms(1) [of ?m q] assms(2) show False by (cases "?m = q") auto
  qed
next
  assume "q < length (takeWhile P xs)"
  then show "P (xs ! q)" by (metis nth_mem set_takeWhileD takeWhile_nth)
qed

lemma filter_split:
  assumes "\<And>q. q < length xs \<Longrightarrow> P (xs ! q) \<longleftrightarrow> m \<le> q"
  shows "take m xs = filter (\<lambda>x. \<not> P x) xs" "drop m xs = filter P xs"
proof -
  have t: "\<not> P x" if "x \<in> set (take m xs)" for x using that assms by (auto simp: in_set_conv_nth)
  have d: "P x" if "x \<in> set (drop m xs)" for x using that assms by (auto simp: in_set_conv_nth)
  have "filter (\<lambda>x. \<not> P x) (take m xs @ drop m xs) = take m xs" "filter P (take m xs @ drop m xs) = drop m xs"
    unfolding filter_append using t d by (auto simp: filter_id_conv filter_empty_conv)
  then show "take m xs = filter (\<lambda>x. \<not> P x) xs" "drop m xs = filter P xs" by simp_all
qed

text \<open>
  What the searches need of the two bounds of a range: along the keys of a list the lower bound,
  once passed, stays passed, and the upper bound, once exceeded, stays exceeded.
\<close>

locale key_range =
  fixes keys :: "('s::linorder \<times> byte list) set"
    and gte lte :: "'s \<times> byte list \<Rightarrow> bool"
  assumes gte_up: "\<lbrakk>a \<in> keys; b \<in> keys; a < b; gte a\<rbrakk> \<Longrightarrow> gte b"
    and lte_down: "\<lbrakk>a \<in> keys; b \<in> keys; a < b; lte b\<rbrakk> \<Longrightarrow> lte a"
begin

definition low :: "'s znode list \<Rightarrow> nat" where
  "low ns = length (takeWhile (\<lambda>n. \<not> gte (key n)) ns)"

definition high :: "'s znode list \<Rightarrow> nat" where
  "high ns = length (takeWhile (\<lambda>n. lte (key n)) ns)"

lemma sorted_nth:
  assumes "sorted_wrt (<) (map key ns)" "key ` set ns \<subseteq> keys" "p < q" "q < length ns"
  shows "key (ns ! p) < key (ns ! q)" "key (ns ! p) \<in> keys" "key (ns ! q) \<in> keys"
  using assms by (auto simp: sorted_wrt_iff_nth_less intro!: subsetD [OF assms(2)] imageI nth_mem)

lemma low_pos:
  assumes "sorted_wrt (<) (map key ns)" "key ` set ns \<subseteq> keys" "q < length ns"
  shows "gte (key (ns ! q)) \<longleftrightarrow> low ns \<le> q"
proof -
  have "\<not> gte (key (ns ! q)) \<longleftrightarrow> q < low ns"
    unfolding low_def using sorted_nth [OF assms(1,2)] gte_up
    by (intro takeWhile_pos [where P = "\<lambda>n. \<not> gte (key n)"]) (use assms(3) in blast)+
  then show ?thesis by auto
qed

lemma high_pos:
  assumes "sorted_wrt (<) (map key ns)" "key ` set ns \<subseteq> keys" "q < length ns"
  shows "lte (key (ns ! q)) \<longleftrightarrow> q < high ns"
  unfolding high_def using sorted_nth [OF assms(1,2)] lte_down
  by (intro takeWhile_pos [where P = "\<lambda>n. lte (key n)"]) (use assms(3) in blast)+

lemma low_le: "low ns \<le> length ns" and high_le: "high ns \<le> length ns"
  by (simp_all add: low_def high_def length_takeWhile_le)

lemma find_nth:
  assumes "q < length xs" "P (xs ! q)" "\<And>p. p < q \<Longrightarrow> \<not> P (xs ! p)"
  shows "find P xs = Some (xs ! q)"
  using assms by (auto simp: find_Some_iff)

lemma find_none:
  assumes "\<And>q. q < length xs \<Longrightarrow> \<not> P (xs ! q)"
  shows "find P xs = None" "find P (rev xs) = None"
  using assms by (auto simp: find_None_iff in_set_conv_nth)

lemma first_found:
  assumes "sorted_wrt (<) (map key ns)" "key ` set ns \<subseteq> keys"
  shows "find (\<lambda>n. gte (key n) \<and> lte (key n)) ns =
    (if low ns < length ns \<and> lte (key (ns ! low ns)) then Some (ns ! low ns) else None)"
proof (cases "low ns < length ns \<and> lte (key (ns ! low ns))")
  case True
  then have "find (\<lambda>n. gte (key n) \<and> lte (key n)) ns = Some (ns ! low ns)"
    using low_pos [OF assms] by (intro find_nth) auto
  with True show ?thesis by simp
next
  case False
  have "\<not> (gte (key (ns ! q)) \<and> lte (key (ns ! q)))" if "q < length ns" for q
    using False that low_pos [OF assms, of q] high_pos [OF assms, of q] high_pos [OF assms, of "low ns"] by auto
  with False show ?thesis by (simp add: find_none(1))
qed

lemma last_found:
  assumes "sorted_wrt (<) (map key ns)" "key ` set ns \<subseteq> keys"
  shows "find (\<lambda>n. gte (key n) \<and> lte (key n)) (rev ns) =
    (if 0 < high ns \<and> gte (key (ns ! (high ns - 1))) then Some (ns ! (high ns - 1)) else None)"
proof (cases "0 < high ns \<and> gte (key (ns ! (high ns - 1)))")
  case True
  let ?q = "length ns - high ns"
  have q: "?q < length (rev ns)" "rev ns ! ?q = ns ! (high ns - 1)" using True high_le [of ns] by (auto simp: rev_nth)
  have "\<not> lte (key (rev ns ! p))" if "p < ?q" for p
    using that high_pos [OF assms, of "length ns - Suc p"] by (simp add: rev_nth)
  moreover have "lte (key (ns ! (high ns - 1)))" using True high_pos [OF assms, of "high ns - 1"] high_le [of ns] by auto
  ultimately have "find (\<lambda>n. gte (key n) \<and> lte (key n)) (rev ns) = Some (rev ns ! ?q)"
    using True q by (intro find_nth) auto
  with True q show ?thesis by simp
next
  case False
  have "\<not> (gte (key (ns ! q)) \<and> lte (key (ns ! q)))" if "q < length ns" for q
    using False that low_pos [OF assms, of q] low_pos [OF assms, of "high ns - 1"] high_pos [OF assms, of q] high_le [of ns] by auto
  with False show ?thesis by (simp add: find_none(2))
qed

text \<open>Nothing is in the range when the last key is below it or the first one above it.\<close>

lemma outside:
  assumes "sorted_wrt (<) (map key ns)" "key ` set ns \<subseteq> keys" "ns = [] \<or> \<not> gte (key (last ns)) \<or> \<not> lte (key (ns ! 0))"
  shows "find (\<lambda>n. gte (key n) \<and> lte (key n)) ns = None" "find (\<lambda>n. gte (key n) \<and> lte (key n)) (rev ns) = None"
proof -
  have "\<not> (gte (key (ns ! q)) \<and> lte (key (ns ! q)))" if q: "q < length ns" for q
  proof -
    have ne: "ns \<noteq> []" and l: "length ns - 1 < length ns" "0 < length ns" using q by auto
    have "gte (key (last ns))" if "low ns \<le> q"
      using that q low_pos [OF assms(1,2) l(1)] by (simp add: last_conv_nth [OF ne])
    moreover have "lte (key (ns ! 0))" if "q < high ns" using that high_pos [OF assms(1,2) l(2)] by simp
    ultimately show ?thesis using assms(3) ne low_pos [OF assms(1,2) q] high_pos [OF assms(1,2) q] by blast
  qed
  then show "find (\<lambda>n. gte (key n) \<and> lte (key n)) ns = None" "find (\<lambda>n. gte (key n) \<and> lte (key n)) (rev ns) = None"
    by (simp_all add: find_none)
qed

lemma delete_found:
  assumes "sorted_wrt (<) (map key ns)" "key ` set ns \<subseteq> keys"
  shows "take (low ns) ns @ drop (high (drop (low ns) ns)) (drop (low ns) ns) = filter (\<lambda>n. \<not> (gte (key n) \<and> lte (key n))) ns"
proof -
  let ?B = "drop (low ns) ns" and ?Q = "\<lambda>n. \<not> (gte (key n) \<and> lte (key n))"
  have lo: "take (low ns) ns = filter (\<lambda>n. \<not> gte (key n)) ns" "drop (low ns) ns = filter (\<lambda>n. gte (key n)) ns"
    using filter_split [of ns "\<lambda>n. gte (key n)" "low ns"] low_pos [OF assms] by simp_all
  have B: "sorted_wrt (<) (map key ?B)" "key ` set ?B \<subseteq> keys"
    using assms set_drop_subset [of "low ns" ns] by (auto simp: drop_map [symmetric] sorted_wrt_drop)
  have hi: "drop (high ?B) ?B = filter (\<lambda>n. \<not> lte (key n)) ?B"
    by (rule filter_split(2)) (use high_pos [OF B] in auto)
  have "filter ?Q ns = filter ?Q (take (low ns) ns) @ filter ?Q ?B" by (metis append_take_drop_id filter_append)
  also have "filter ?Q (take (low ns) ns) = take (low ns) ns" unfolding lo(1) filter_filter by (rule filter_cong) auto
  also have "filter ?Q ?B = filter (\<lambda>n. \<not> lte (key n)) ?B" unfolding lo(2) filter_filter by (rule filter_cong) auto
  finally show ?thesis by (simp only: hi)
qed

end

section \<open>Score ranges and lexicographic ranges are ranges of keys\<close>

interpretation score_range: key_range UNIV "\<lambda>k. zslValueGteMin (fst k) rng" "\<lambda>k. zslValueLteMax (fst k) rng"
  for rng :: "'s::linorder zrangespec"
  by unfold_locales (auto simp: zslValueGteMin_def zslValueLteMax_def dest: fst_mono split: if_splits)

lemma sdscmp_le: "sdscmp a b \<le> 0 \<longleftrightarrow> a \<le> b" "sdscmp a b \<ge> 0 \<longleftrightarrow> b \<le> a"
  using sdscmp_order [of a b] by (auto simp: not_less [symmetric])

lemma lex_gte: "zslLexValueGteMin v rng \<longleftrightarrow>
  (case lr_min rng of Minstring \<Rightarrow> True | Maxstring \<Rightarrow> False | Lex m \<Rightarrow> if lr_minex rng then m < v else m \<le> v)"
  by (auto simp: zslLexValueGteMin_def sdscmp_order sdscmp_le split: lexstring.splits)

lemma lex_lte: "zslLexValueLteMax v rng \<longleftrightarrow>
  (case lr_max rng of Minstring \<Rightarrow> False | Maxstring \<Rightarrow> True | Lex m \<Rightarrow> if lr_maxex rng then v < m else v \<le> m)"
  by (auto simp: zslLexValueLteMax_def sdscmp_order sdscmp_le split: lexstring.splits)

lemma same_fst_less: "fst a = fst b \<Longrightarrow> a < b \<longleftrightarrow> snd a < snd (b :: 's::linorder \<times> byte list)"
  by (cases a; cases b) (simp add: less_prod_def')

interpretation lex_range: key_range "{k. fst k = s}" "\<lambda>k. zslLexValueGteMin (snd k) rng" "\<lambda>k. zslLexValueLteMax (snd k) rng"
  for s :: "'s::linorder" and rng
  by unfold_locales (auto simp: lex_gte lex_lte same_fst_less split: lexstring.splits if_splits)

text \<open>Ranges whose bounds cross are empty.\<close>

lemma score_degenerate:
  "zr_min rng > zr_max rng \<or> (zr_min rng = zr_max rng \<and> (zr_minex rng \<or> zr_maxex rng)) \<Longrightarrow>
    \<not> (zslValueGteMin v rng \<and> zslValueLteMax v rng)"
  by (auto simp: zslValueGteMin_def zslValueLteMax_def split: if_splits)

lemma lex_degenerate:
  "sdscmplex (lr_min rng) (lr_max rng) > 0 \<or> (sdscmplex (lr_min rng) (lr_max rng) = 0 \<and> (lr_minex rng \<or> lr_maxex rng)) \<Longrightarrow>
    \<not> (zslLexValueGteMin v rng \<and> zslLexValueLteMax v rng)"
  by (auto simp: lex_gte lex_lte sdscmp_order split: lexstring.splits if_splits)

section \<open>First and last element\<close>

lemma zrep_last:
  assumes "zrep h z ns" "ns \<noteq> []"
  obtains nd where "zsl_tail z = Some (fst (last ns))" "h (fst (last ns)) = Some nd" "z_ele nd = Some (snd (key (last ns)))"
    "z_score nd = fst (key (last ns))"
proof (rule zrep_node_in [OF assms(1) last_in_set [OF assms(2)]])
  fix nd assume "h (fst (last ns)) = Some nd" "z_ele nd = Some (snd (key (last ns)))" "z_score nd = fst (key (last ns))"
  moreover have "zsl_tail z = Some (fst (last ns))" using assms by (simp add: zrep_def lastptr_def)
  ultimately show ?thesis using that by blast
qed

lemma zrep_first:
  assumes "zrep h z ns" "ns \<noteq> []"
  obtains s nd where "get_level h (zsl_header z) 0 = Some (Some (fst (ns ! 0)), s)" "h (fst (ns ! 0)) = Some nd"
    "z_ele nd = Some (snd (key (ns ! 0)))" "z_score nd = fst (key (ns ! 0))"
proof -
  have "0 < length ns" using assms(2) by simp
  then obtain nd where "h (fst (ns ! 0)) = Some nd" "z_ele nd = Some (snd (key (ns ! 0)))" "z_score nd = fst (key (ns ! 0))"
    by (rule zrep_node [OF assms(1)])
  moreover obtain s where "get_level h (fst (shape (zsl_header z) ns ! 0)) 0 = Some (if 0 < length ns then Some (fst (ns ! 0)) else None, s)"
    by (rule zrep_next [OF assms(1), of 0]) simp
  ultimately show ?thesis using that \<open>0 < length ns\<close> by simp
qed

lemma zslIsInRange_zrep:
  assumes "zrep h z ns"
  shows "zslIsInRange h z rng = Some (\<not> (zr_min rng > zr_max rng \<or> (zr_min rng = zr_max rng \<and> (zr_minex rng \<or> zr_maxex rng))) \<and>
    ns \<noteq> [] \<and> zslValueGteMin (fst (key (last ns))) rng \<and> zslValueLteMax (fst (key (ns ! 0))) rng)"
proof (cases "ns = []")
  case True
  then have "zsl_tail z = None" using assms by (simp add: zrep_def lastptr_def)
  with True show ?thesis by (simp add: zslIsInRange_def)
next
  case False
  show ?thesis
    by (rule zrep_last [OF assms False], rule zrep_first [OF assms False]) (simp add: zslIsInRange_def False)
qed

lemma zslIsInLexRange_zrep:
  assumes "zrep h z ns"
  shows "zslIsInLexRange h z rng = Some (\<not> (sdscmplex (lr_min rng) (lr_max rng) > 0 \<or>
      (sdscmplex (lr_min rng) (lr_max rng) = 0 \<and> (lr_minex rng \<or> lr_maxex rng))) \<and>
    ns \<noteq> [] \<and> zslLexValueGteMin (snd (key (last ns))) rng \<and> zslLexValueLteMax (snd (key (ns ! 0))) rng)"
proof (cases "ns = []")
  case True
  then have "zsl_tail z = None" using assms by (simp add: zrep_def lastptr_def)
  with True show ?thesis by (simp add: zslIsInLexRange_def Let_def)
next
  case False
  show ?thesis
    by (rule zrep_last [OF assms False], rule zrep_first [OF assms False]) (simp add: zslIsInLexRange_def Let_def False)
qed

context key_range
begin

lemma search_low:
  assumes "zrep h z ns" "key ` set ns \<subseteq> keys"
    "\<And>n t k. \<lbrakk>z_ele n = Some (snd k); z_score n = fst k\<rbrakk> \<Longrightarrow> cond n t \<longleftrightarrow> \<not> gte k"
  obtains upd s where "zsl_search h z cond = Some upd" "upd = map (update_of (zsl_header z) (take (low ns) ns)) [0..<zsl_level z]"
    "get_level h (fst (upd ! 0)) 0 = Some (if low ns < length ns then Some (fst (ns ! low ns)) else None, s)"
proof -
  have "zsl_search h z cond = Some (map (update_of (zsl_header z) (take (low ns) ns)) [0..<zsl_level z])"
    using assms(3) low_pos [OF zrep_sorted [OF assms(1)] assms(2)] by (intro zrep_search [OF assms(1) low_le]) fastforce
  moreover obtain s where "get_level h (fst (map (update_of (zsl_header z) (take (low ns) ns)) [0..<zsl_level z] ! 0)) 0 =
      Some (if low ns < length ns then Some (fst (ns ! low ns)) else None, s)"
    by (rule zrep_search_next [OF assms(1) low_le])
  ultimately show ?thesis using that by blast
qed

lemma search_high:
  assumes "zrep h z ns" "key ` set ns \<subseteq> keys" "0 < high ns"
    "\<And>n t k. \<lbrakk>z_ele n = Some (snd k); z_score n = fst k\<rbrakk> \<Longrightarrow> cond n t \<longleftrightarrow> lte k"
  obtains upd nd where "zsl_search h z cond = Some upd" "fst (upd ! 0) = fst (ns ! (high ns - 1))"
    "h (fst (ns ! (high ns - 1))) = Some nd" "z_ele nd = Some (snd (key (ns ! (high ns - 1))))" "z_score nd = fst (key (ns ! (high ns - 1)))"
proof -
  have s: "zsl_search h z cond = Some (map (update_of (zsl_header z) (take (high ns) ns)) [0..<zsl_level z])"
    using assms(4) high_pos [OF zrep_sorted [OF assms(1)] assms(2)] by (intro zrep_search [OF assms(1) high_le]) fastforce
  have r: "1 \<le> zsl_level z" "\<And>n. n \<in> set ns \<Longrightarrow> 1 \<le> height n" using assms(1) by (auto simp: zrep_def)
  have "update_of (zsl_header z) (take (high ns) ns) 0 = (fst (last (take (high ns) ns)), length (take (high ns) ns))"
    using assms(3) high_le [of ns] by (subst update_of_0 [OF r(2) [OF in_set_takeD]]) auto
  moreover have "last (take (high ns) ns) = ns ! (high ns - 1)"
    using assms(3) high_le [of ns] by (subst last_conv_nth) auto
  ultimately have u: "fst (map (update_of (zsl_header z) (take (high ns) ns)) [0..<zsl_level z] ! 0) = fst (ns ! (high ns - 1))"
    using r(1) by simp
  have "high ns - 1 < length ns" using assms(3) high_le [of ns] by simp
  then show ?thesis by (rule zrep_node [OF assms(1)]) (rule that [OF s u])
qed

end

lemma zslFirstInRange_zrep:
  assumes "zrep h z ns"
  shows "zslFirstInRange h z rng =
    Some (map_option fst (find (\<lambda>n. zslValueGteMin (fst (key n)) rng \<and> zslValueLteMax (fst (key n)) rng) ns))"
proof (cases "zslIsInRange h z rng = Some True")
  case True
  let ?m = "score_range.low rng ns"
  note srt = zrep_sorted [OF assms] and sub = subset_UNIV [of "key ` set ns"]
  have inside: "ns \<noteq> []" "zslValueGteMin (fst (key (last ns))) rng" using True by (auto simp: zslIsInRange_zrep [OF assms])
  then have m: "?m < length ns"
    using score_range.low_pos [OF srt sub, of "length ns - 1" rng] by (cases ns rule: rev_cases) auto
  obtain upd s where u: "zsl_search h z (\<lambda>n t. \<not> zslValueGteMin (z_score n) rng) = Some upd"
    "get_level h (fst (upd ! 0)) 0 = Some (Some (fst (ns ! ?m)), s)"
    by (rule score_range.search_low [OF assms sub, where cond = "\<lambda>n t. \<not> zslValueGteMin (z_score n) rng" and rng = rng])
      (use m in auto)
  obtain nd where "h (fst (ns ! ?m)) = Some nd" "z_score nd = fst (key (ns ! ?m))" by (rule zrep_node [OF assms m])
  then show ?thesis unfolding zslFirstInRange_def True score_range.first_found [OF srt sub] using u m by simp
next
  case False
  then have "zslFirstInRange h z rng = Some None" by (simp add: zslFirstInRange_def zslIsInRange_zrep [OF assms])
  moreover have "find (\<lambda>n. zslValueGteMin (fst (key n)) rng \<and> zslValueLteMax (fst (key n)) rng) ns = None"
    using False score_range.outside(1) [OF zrep_sorted [OF assms] subset_UNIV, of rng] score_degenerate [of rng]
    by (auto simp: zslIsInRange_zrep [OF assms] find_None_iff)
  ultimately show ?thesis by simp
qed

lemma zslLastInRange_zrep:
  assumes "zrep h z ns"
  shows "zslLastInRange h z rng =
    Some (map_option fst (find (\<lambda>n. zslValueGteMin (fst (key n)) rng \<and> zslValueLteMax (fst (key n)) rng) (rev ns)))"
proof (cases "zslIsInRange h z rng = Some True")
  case True
  let ?m = "score_range.high rng ns"
  note srt = zrep_sorted [OF assms] and sub = subset_UNIV [of "key ` set ns"]
  have inside: "ns \<noteq> []" "zslValueLteMax (fst (key (ns ! 0))) rng" using True by (auto simp: zslIsInRange_zrep [OF assms])
  then have m: "0 < ?m" using score_range.high_pos [OF srt sub, of 0 rng] by simp
  obtain upd nd where "zsl_search h z (\<lambda>n t. zslValueLteMax (z_score n) rng) = Some upd"
    "fst (upd ! 0) = fst (ns ! (?m - 1))" "h (fst (ns ! (?m - 1))) = Some nd" "z_score nd = fst (key (ns ! (?m - 1)))"
    by (rule score_range.search_high [OF assms sub m, where cond = "\<lambda>n t. zslValueLteMax (z_score n) rng"]) auto
  then show ?thesis unfolding zslLastInRange_def True score_range.last_found [OF srt sub] using m by simp
next
  case False
  then have "zslLastInRange h z rng = Some None" by (simp add: zslLastInRange_def zslIsInRange_zrep [OF assms])
  moreover have "find (\<lambda>n. zslValueGteMin (fst (key n)) rng \<and> zslValueLteMax (fst (key n)) rng) (rev ns) = None"
    using False score_range.outside(2) [OF zrep_sorted [OF assms] subset_UNIV, of rng] score_degenerate [of rng]
    by (auto simp: zslIsInRange_zrep [OF assms] find_None_iff)
  ultimately show ?thesis by simp
qed

text \<open>Lexicographic ranges are meant for lists in which all scores are equal.\<close>

lemma zslFirstInLexRange_zrep:
  assumes "zrep h z ns" "key ` set ns \<subseteq> {k. fst k = s}"
  shows "zslFirstInLexRange h z rng =
    Some (map_option fst (find (\<lambda>n. zslLexValueGteMin (snd (key n)) rng \<and> zslLexValueLteMax (snd (key n)) rng) ns))"
proof (cases "zslIsInLexRange h z rng = Some True")
  case True
  let ?m = "lex_range.low rng ns"
  note srt = zrep_sorted [OF assms(1)]
  have inside: "ns \<noteq> []" "zslLexValueGteMin (snd (key (last ns))) rng" using True by (auto simp: zslIsInLexRange_zrep [OF assms(1)])
  then have m: "?m < length ns"
    using lex_range.low_pos [OF srt assms(2), of "length ns - 1" rng] by (cases ns rule: rev_cases) auto
  obtain upd s where u: "zsl_search h z (\<lambda>n t. \<not> zslLexValueGteMin (the (z_ele n)) rng) = Some upd"
    "get_level h (fst (upd ! 0)) 0 = Some (Some (fst (ns ! ?m)), s)"
    by (rule lex_range.search_low [OF assms, where cond = "\<lambda>n t. \<not> zslLexValueGteMin (the (z_ele n)) rng" and rng = rng])
      (use m in auto)
  obtain nd where "h (fst (ns ! ?m)) = Some nd" "z_ele nd = Some (snd (key (ns ! ?m)))" by (rule zrep_node [OF assms(1) m])
  then show ?thesis unfolding zslFirstInLexRange_def True lex_range.first_found [OF srt assms(2)] using u m by simp
next
  case False
  then have "zslFirstInLexRange h z rng = Some None" by (simp add: zslFirstInLexRange_def zslIsInLexRange_zrep [OF assms(1)])
  moreover have "find (\<lambda>n. zslLexValueGteMin (snd (key n)) rng \<and> zslLexValueLteMax (snd (key n)) rng) ns = None"
    using False lex_range.outside(1) [OF zrep_sorted [OF assms(1)] assms(2), of rng] lex_degenerate [of rng]
    by (auto simp: zslIsInLexRange_zrep [OF assms(1)] find_None_iff)
  ultimately show ?thesis by simp
qed

lemma zslLastInLexRange_zrep:
  assumes "zrep h z ns" "key ` set ns \<subseteq> {k. fst k = s}"
  shows "zslLastInLexRange h z rng =
    Some (map_option fst (find (\<lambda>n. zslLexValueGteMin (snd (key n)) rng \<and> zslLexValueLteMax (snd (key n)) rng) (rev ns)))"
proof (cases "zslIsInLexRange h z rng = Some True")
  case True
  let ?m = "lex_range.high rng ns"
  note srt = zrep_sorted [OF assms(1)]
  have inside: "ns \<noteq> []" "zslLexValueLteMax (snd (key (ns ! 0))) rng" using True by (auto simp: zslIsInLexRange_zrep [OF assms(1)])
  then have m: "0 < ?m" using lex_range.high_pos [OF srt assms(2), of 0 rng] by simp
  obtain upd nd where "zsl_search h z (\<lambda>n t. zslLexValueLteMax (the (z_ele n)) rng) = Some upd"
    "fst (upd ! 0) = fst (ns ! (?m - 1))" "h (fst (ns ! (?m - 1))) = Some nd" "z_ele nd = Some (snd (key (ns ! (?m - 1))))"
    by (rule lex_range.search_high [OF assms m, where cond = "\<lambda>n t. zslLexValueLteMax (the (z_ele n)) rng"]) auto
  then show ?thesis unfolding zslLastInLexRange_def True lex_range.last_found [OF srt assms(2)] using m by simp
next
  case False
  then have "zslLastInLexRange h z rng = Some None" by (simp add: zslLastInLexRange_def zslIsInLexRange_zrep [OF assms(1)])
  moreover have "find (\<lambda>n. zslLexValueGteMin (snd (key n)) rng \<and> zslLexValueLteMax (snd (key n)) rng) (rev ns) = None"
    using False lex_range.outside(2) [OF zrep_sorted [OF assms(1)] assms(2), of rng] lex_degenerate [of rng]
    by (auto simp: zslIsInLexRange_zrep [OF assms(1)] find_None_iff)
  ultimately show ?thesis by simp
qed

section \<open>The hash table beside a skip list\<close>

text \<open>The hash table has an entry for each element, the address of its node; elements are distinct.\<close>

definition zdict :: "(byte list, nat) dict \<Rightarrow> 's znode list \<Rightarrow> bool" where
  "zdict d ns \<longleftrightarrow> dict_ok d \<and> (\<forall>e. cls (dtype d) e = {e}) \<and> distinct (map (\<lambda>n. snd (key n)) ns) \<and>
    (\<forall>e a. dict_map d {e} = Some a \<longleftrightarrow> (\<exists>n \<in> set ns. snd (key n) = e \<and> fst n = a))"

lemma zdict_del:
  assumes "zdict d (A @ n # B)"
  obtains d' where "dictDelete d (snd (key n)) = Some (d', True)" "zdict d' (A @ B)" "dtype d' = dtype d" "dictSize d' < dictSize d"
proof -
  let ?e = "snd (key n)"
  have z: "dict_ok d" "\<And>e. cls (dtype d) e = {e}" "distinct (map (\<lambda>n. snd (key n)) (A @ n # B))"
    "\<And>e a. dict_map d {e} = Some a \<longleftrightarrow> (\<exists>m \<in> set (A @ n # B). snd (key m) = e \<and> fst m = a)"
    using assms unfolding zdict_def by blast+
  obtain d' e where d': "dictGenericDelete d ?e = Some (d', e)" "dict_ok d'" "dtype d' = dtype d"
    "map_option snd e = dict_map d {?e}" "dict_map d' = (dict_map d)({?e} := None)" "dictSize d' = dictSize d - of_bool (e \<noteq> None)"
    by (rule dictGenericDelete_spec [OF z(1), of ?e]) (simp add: z(2))
  have "dict_map d {?e} = Some (fst n)" unfolding z(4) by auto
  then have e: "e \<noteq> None" using d'(4) by auto
  have "dictSize d \<noteq> 0"
    using \<open>dict_map d {?e} = Some (fst n)\<close> by (auto simp: dict_map_def dictSize_entries [OF z(1)])
  have nt: "snd (key m) \<noteq> ?e" if "m \<in> set A \<or> m \<in> set B" for m
    using z(3) that by (auto simp: rev_image_eqI)
  have "zdict d' (A @ B)"
    unfolding zdict_def
  proof (intro conjI allI)
    fix c a
    show "dict_map d' {c} = Some a \<longleftrightarrow> (\<exists>m \<in> set (A @ B). snd (key m) = c \<and> fst m = a)"
    proof (cases "c = ?e")
      case True
      then show ?thesis using nt unfolding d'(5) by auto
    next
      case False
      then have "dict_map d' {c} = dict_map d {c}" unfolding d'(5) by simp
      then show ?thesis using z(4) [of c a] False by auto
    qed
  qed (use z d' in auto)
  then show ?thesis using that [of d'] d' e \<open>dictSize d \<noteq> 0\<close> by (simp add: dictDelete_def)
qed

section \<open>Deleting ranges\<close>

lemma delete_range_loop_zrep:
  fixes B :: "'s::linorder znode list"
  assumes "zrep h z (A @ B)" "zdict d (A @ B)" "\<And>i. i < zsl_level z \<Longrightarrow> upd ! i = update_of (zsl_header z) A i"
    "\<And>q n. \<lbrakk>q < length B; z_ele n = Some (snd (key (B ! q))); z_score n = fst (key (B ! q))\<rbrakk> \<Longrightarrow> cond n (t + q) \<longleftrightarrow> q < c"
    "c \<le> length B" "length B < fuel"
  shows "\<exists>h' z' d'. delete_range_loop fuel cond upd (if B = [] then None else Some (fst (hd B))) t h z d removed =
      Some (h', z', d', removed + c) \<and> zrep h' z' (A @ drop c B) \<and> zdict d' (A @ drop c B) \<and>
      zsl_header z' = zsl_header z \<and> dtype d' = dtype d"
  using assms
proof (induction B arbitrary: fuel t h z d c removed)
  case Nil
  then show ?case by (cases fuel) auto
next
  case (Cons n B)
  obtain f where f: "fuel = Suc f" "length B < f" using Cons.prems(6) by (cases fuel) auto
  have la: "length A < length (A @ n # B)" "(A @ n # B) ! length A = n" by simp_all
  obtain nd where nd: "h (fst n) = Some nd" "z_ele nd = Some (snd (key n))" "z_score nd = fst (key n)"
    by (rule zrep_node [OF Cons.prems(1) la(1)]) (simp add: la(2))
  have cnd: "cond nd t \<longleftrightarrow> 0 < c" using Cons.prems(4) [of 0 nd] nd by simp
  show ?case
  proof (cases "0 < c")
    case False
    then show ?thesis using f nd cnd Cons.prems(1,2) by auto
  next
    case True
    then obtain c' where c': "c = Suc c'" by (cases c) auto
    have "Suc (length A) \<le> length (A @ n # B)" by simp
    from zrep_next [OF Cons.prems(1) this] obtain s where
      "get_level h (fst n) 0 = Some (if Suc (length A) < length (A @ n # B) then Some (fst ((A @ n # B) ! Suc (length A))) else None, s)"
      by (auto simp: nth_append)
    then have nx: "get_level h (fst n) 0 = Some (if B = [] then None else Some (fst (hd B)), s)"
      by (cases B) (simp_all add: nth_append)
    obtain h1 z1 where d1: "zslDeleteNode (fst n) upd h z = Some (h1, z1)" "zrep h1 z1 (A @ B)" "zsl_header z1 = zsl_header z"
      "zsl_level z1 \<le> zsl_level z" by (rule zslDeleteNode_zrep [OF Cons.prems(1,3)]) auto
    obtain d' where d': "dictDelete d (snd (key n)) = Some (d', True)" "zdict d' (A @ B)" "dtype d' = dtype d"
      by (rule zdict_del [OF Cons.prems(2)])
    have "distinct (zsl_header z # map fst (A @ n # B))" using Cons.prems(1) by (simp add: zrep_def)
    then have "fst n \<notin> insert (zsl_header z1) (fst ` set (A @ B))" using d1(3) by auto
    then have z1: "zrep (h1(fst n := None)) z1 (A @ B)" by (intro zrep_cong [OF d1(2)]) auto
    have cond': "cond m (t + 1 + q) \<longleftrightarrow> q < c'"
      if "q < length B" "z_ele m = Some (snd (key (B ! q)))" "z_score m = fst (key (B ! q))" for q m
      using Cons.prems(4) [of "Suc q" m] that c' by simp
    have "\<exists>h' z' d''. delete_range_loop f cond upd (if B = [] then None else Some (fst (hd B))) (t + 1) (h1(fst n := None)) z1 d' (removed + 1) =
      Some (h', z', d'', removed + 1 + c') \<and> zrep h' z' (A @ drop c' B) \<and> zdict d'' (A @ drop c' B) \<and>
      zsl_header z' = zsl_header z1 \<and> dtype d'' = dtype d'"
      using Cons.prems(3,5) c' f(2) d1(3,4) by (intro Cons.IH [OF z1 d'(2) _ cond']) auto
    moreover have "delete_range_loop fuel cond upd (Some (fst n)) t h z d removed =
        delete_range_loop f cond upd (if B = [] then None else Some (fst (hd B))) (t + 1) (h1(fst n := None)) z1 d' (removed + 1)"
      unfolding f(1) using nd cnd True nx d1(1) d'(1) by simp
    ultimately show ?thesis using c' d1(3) d'(3) by auto
  qed
qed

lemma zsl_delete_range:
  fixes ns :: "'s::linorder znode list"
  assumes "zrep h z ns" "zdict d ns" "m \<le> length ns" "c \<le> length ns - m"
    "\<And>q n. \<lbrakk>q < length ns; z_ele n = Some (snd (key (ns ! q))); z_score n = fst (key (ns ! q))\<rbrakk> \<Longrightarrow> below n (Suc q) \<longleftrightarrow> q < m"
    "\<And>q n. \<lbrakk>q < length ns - m; z_ele n = Some (snd (key (ns ! (m + q)))); z_score n = fst (key (ns ! (m + q)))\<rbrakk> \<Longrightarrow>
      cond n (t m + q) \<longleftrightarrow> q < c"
  shows "\<exists>h' z' d'. (do {
      upd \<leftarrow> zsl_search h z below;
      (x, _) \<leftarrow> get_level h (fst (upd ! 0)) 0;
      delete_range_loop (zsl_length z + 1) cond upd x (t (snd (upd ! 0))) h z d 0
    }) = Some (h', z', d', c) \<and> zrep h' z' (take m ns @ drop (m + c) ns) \<and> zdict d' (take m ns @ drop (m + c) ns) \<and>
    zsl_header z' = zsl_header z \<and> dtype d' = dtype d"
proof -
  let ?upd = "map (update_of (zsl_header z) (take m ns)) [0..<zsl_level z]" and ?B = "drop m ns"
  have s: "zsl_search h z below = Some ?upd" by (rule zrep_search [OF assms(1,3,5)])
  obtain l where nx: "get_level h (fst (?upd ! 0)) 0 = Some (if m < length ns then Some (fst (ns ! m)) else None, l)"
    by (rule zrep_search_next [OF assms(1,3)])
  have r: "1 \<le> zsl_level z" "\<And>n. n \<in> set ns \<Longrightarrow> 1 \<le> height n" "zsl_length z = length ns" using assms(1) by (auto simp: zrep_def)
  have t: "snd (?upd ! 0) = m"
    using r(1) assms(3) by (simp add: update_of_0 [OF r(2) [OF in_set_takeD]] split: if_splits)
  have hd_eq: "(if m < length ns then Some (fst (ns ! m)) else None) = (if ?B = [] then None else Some (fst (hd ?B)))"
    by (auto simp: hd_drop_conv_nth)
  have "\<exists>h' z' d'. delete_range_loop (length ns + 1) cond ?upd (if ?B = [] then None else Some (fst (hd ?B))) (t m) h z d 0 =
      Some (h', z', d', 0 + c) \<and> zrep h' z' (take m ns @ drop c ?B) \<and> zdict d' (take m ns @ drop c ?B) \<and>
      zsl_header z' = zsl_header z \<and> dtype d' = dtype d"
    using assms(1,2,4,6) by (intro delete_range_loop_zrep) auto
  moreover have "drop c ?B = drop (m + c) ns" by (simp add: add.commute)
  ultimately show ?thesis by (simp only: s nx t r(3) hd_eq Option.bind.simps prod.case add_0)
qed

lemma zslDeleteRangeByRank_zrep:
  fixes ns :: "'s::linorder znode list"
  assumes "zrep h z ns" "zdict d ns"
    and ns'_def: "ns' = take (start - 1) ns @ drop (max (start - 1) last_rank) ns"
  obtains h' z' d' where "zslDeleteRangeByRank start last_rank h z d = Some (h', z', d', length ns - length ns')"
    "zrep h' z' ns'" "zdict d' ns'" "zsl_header z' = zsl_header z" "dtype d' = dtype d"
proof -
  define m where "m = min (start - 1) (length ns)"
  define c where "c = min (last_rank - m) (length ns - m)"
  have eq: "take m ns @ drop (m + c) ns = ns'" "c = length ns - length ns'"
    unfolding ns'_def m_def c_def by (auto simp: min_def max_def)
  have "\<exists>h' z' d'. (do {
      upd \<leftarrow> zsl_search h z (\<lambda>n t. t < start);
      (x, _) \<leftarrow> get_level h (fst (upd ! 0)) 0;
      delete_range_loop (zsl_length z + 1) (\<lambda>n t. t \<le> last_rank) upd x (snd (upd ! 0) + 1) h z d 0
    }) = Some (h', z', d', c) \<and> zrep h' z' (take m ns @ drop (m + c) ns) \<and> zdict d' (take m ns @ drop (m + c) ns) \<and>
    zsl_header z' = zsl_header z \<and> dtype d' = dtype d"
    by (rule zsl_delete_range [OF assms(1,2), where t = "\<lambda>m. m + 1"]) (auto simp: m_def c_def)
  then show ?thesis using that unfolding zslDeleteRangeByRank_def eq(1) eq(2) [symmetric] by blast
qed

lemma zslDeleteRangeByScore_zrep:
  fixes ns :: "'s::linorder znode list"
  assumes "zrep h z ns" "zdict d ns"
    and ns'_def: "ns' = filter (\<lambda>n. \<not> (zslValueGteMin (fst (key n)) rng \<and> zslValueLteMax (fst (key n)) rng)) ns"
  obtains h' z' d' where "zslDeleteRangeByScore rng h z d = Some (h', z', d', length ns - length ns')"
    "zrep h' z' ns'" "zdict d' ns'" "zsl_header z' = zsl_header z" "dtype d' = dtype d"
proof -
  define m where "m = score_range.low rng ns"
  define c where "c = score_range.high rng (drop m ns)"
  note srt = zrep_sorted [OF assms(1)] and sub = subset_UNIV [of "key ` set ns"]
  have srt': "sorted_wrt (<) (map key (drop m ns))" using srt by (simp add: drop_map [symmetric] sorted_wrt_drop)
  have le: "m \<le> length ns" "c \<le> length ns - m"
    unfolding m_def c_def using score_range.low_le score_range.high_le [of rng "drop m ns"] by (auto simp: m_def)
  have ns': "take m ns @ drop (m + c) ns = ns'"
    using score_range.delete_found [OF srt sub, of rng] unfolding ns'_def m_def c_def by (simp add: add.commute)
  have cnt: "c = length ns - length ns'" using le unfolding ns' [symmetric] by simp
  have "\<exists>h' z' d'. (do {
      upd \<leftarrow> zsl_search h z (\<lambda>n t. if zr_minex rng then z_score n \<le> zr_min rng else z_score n < zr_min rng);
      (x, _) \<leftarrow> get_level h (fst (upd ! 0)) 0;
      delete_range_loop (zsl_length z + 1)
        (\<lambda>n t. if zr_maxex rng then z_score n < zr_max rng else z_score n \<le> zr_max rng) upd x 0 h z d 0
    }) = Some (h', z', d', c) \<and> zrep h' z' (take m ns @ drop (m + c) ns) \<and> zdict d' (take m ns @ drop (m + c) ns) \<and>
    zsl_header z' = zsl_header z \<and> dtype d' = dtype d"
  proof (rule zsl_delete_range [OF assms(1,2) le, where t = "\<lambda>_. 0"])
    fix q and n :: "'s zskiplistNode" assume q: "q < length ns" "z_score n = fst (key (ns ! q))"
    then show "(if zr_minex rng then z_score n \<le> zr_min rng else z_score n < zr_min rng) = (q < m)"
      using score_range.low_pos [OF srt sub q(1), of rng] unfolding m_def zslValueGteMin_def by auto
  next
    fix q and n :: "'s zskiplistNode" assume q: "q < length ns - m" "z_score n = fst (key (ns ! (m + q)))"
    then show "(if zr_maxex rng then z_score n < zr_max rng else z_score n \<le> zr_max rng) = (q < c)"
      using score_range.high_pos [OF srt' subset_UNIV, of q rng] unfolding c_def zslValueLteMax_def by (auto split: if_splits)
  qed
  then show ?thesis using that unfolding zslDeleteRangeByScore_def ns' cnt [symmetric] by blast
qed

lemma zslDeleteRangeByLex_zrep:
  fixes ns :: "'s::linorder znode list"
  assumes "zrep h z ns" "zdict d ns" "key ` set ns \<subseteq> {k. fst k = s}"
    and ns'_def: "ns' = filter (\<lambda>n. \<not> (zslLexValueGteMin (snd (key n)) rng \<and> zslLexValueLteMax (snd (key n)) rng)) ns"
  obtains h' z' d' where "zslDeleteRangeByLex rng h z d = Some (h', z', d', length ns - length ns')"
    "zrep h' z' ns'" "zdict d' ns'" "zsl_header z' = zsl_header z" "dtype d' = dtype d"
proof -
  define m where "m = lex_range.low rng ns"
  define c where "c = lex_range.high rng (drop m ns)"
  note srt = zrep_sorted [OF assms(1)]
  have srt': "sorted_wrt (<) (map key (drop m ns))" "key ` set (drop m ns) \<subseteq> {k. fst k = s}"
    using srt assms(3) set_drop_subset [of m ns] by (auto simp: drop_map [symmetric] sorted_wrt_drop)
  have le: "m \<le> length ns" "c \<le> length ns - m"
    unfolding m_def c_def using lex_range.low_le lex_range.high_le [of rng "drop m ns"] by (auto simp: m_def)
  have ns': "take m ns @ drop (m + c) ns = ns'"
    using lex_range.delete_found [OF srt assms(3), of rng] unfolding ns'_def m_def c_def by (simp add: add.commute)
  have cnt: "c = length ns - length ns'" using le unfolding ns' [symmetric] by simp
  have "\<exists>h' z' d'. (do {
      upd \<leftarrow> zsl_search h z (\<lambda>n t. \<not> zslLexValueGteMin (the (z_ele n)) rng);
      (x, _) \<leftarrow> get_level h (fst (upd ! 0)) 0;
      delete_range_loop (zsl_length z + 1) (\<lambda>n t. zslLexValueLteMax (the (z_ele n)) rng) upd x 0 h z d 0
    }) = Some (h', z', d', c) \<and> zrep h' z' (take m ns @ drop (m + c) ns) \<and> zdict d' (take m ns @ drop (m + c) ns) \<and>
    zsl_header z' = zsl_header z \<and> dtype d' = dtype d"
  proof (rule zsl_delete_range [OF assms(1,2) le, where t = "\<lambda>_. 0"])
    fix q and n :: "'s zskiplistNode" assume q: "q < length ns" "z_ele n = Some (snd (key (ns ! q)))"
    then show "(\<not> zslLexValueGteMin (the (z_ele n)) rng) = (q < m)"
      using lex_range.low_pos [OF srt assms(3) q(1), of rng] unfolding m_def by auto
  next
    fix q and n :: "'s zskiplistNode" assume q: "q < length ns - m" "z_ele n = Some (snd (key (ns ! (m + q))))"
    then show "zslLexValueLteMax (the (z_ele n)) rng = (q < c)"
      using lex_range.high_pos [OF srt', of q rng] unfolding c_def by auto
  qed
  then show ?thesis using that unfolding zslDeleteRangeByLex_def ns' cnt [symmetric] by blast
qed

end
