(* ===== verification/Zset.thy ===== *)
theory Zset
  imports Skiplist_Range
begin

text \<open>
  Sorted sets in the encoding \<open>OBJ_ENCODING_SKIPLIST\<close> (the common sorted set API of \<open>t_zset.c\<close>): a
  hash table from elements to nodes and a skip list that owns the nodes.  The entry of an element
  points at the score in its node, so it is the address of the node.  Scores that are not a number
  are \<open>None\<close>; the addition of doubles is an argument.  Branches for the ziplist encoding are not
  part of this theory.
\<close>

section \<open>The API\<close>

record 's zset =
  zs_dict :: "(byte list, nat) dict"
  zs_heap :: "'s zheap"
  zs_zsl :: zskiplist

definition htNeedsResize :: "('k, 'v) dict \<Rightarrow> bool" where
  "htNeedsResize d =
    (let size = ht_size (ht0 d) + ht_size (ht1 d) in
     size > DICT_HT_INITIAL_SIZE \<and> dictSize d * 100 div size < 10)"

definition zsetLength :: "'s zset \<Rightarrow> nat" where
  "zsetLength zs = zsl_length (zs_zsl zs)"

definition zsetScore :: "'s zset \<Rightarrow> byte list \<Rightarrow> ('s zset \<times> 's option) option" where
  "zsetScore zs member =
    do {
      (d, de) \<leftarrow> dictFind (zs_dict zs) member;
      (case de of
         None \<Rightarrow> Some (zs\<lparr>zs_dict := d\<rparr>, None)
       | Some r \<Rightarrow> do { n \<leftarrow> zs_heap zs (snd (deref d r)); Some (zs\<lparr>zs_dict := d\<rparr>, Some (z_score n)) })
    }"

text \<open>The input flags of \<open>zsetAdd\<close>, and the flag it sets, if any.\<close>

record zadd_options =
  zadd_incr :: bool
  zadd_nx :: bool
  zadd_xx :: bool

datatype zadd_flag = ZADD_NOP | ZADD_NAN | ZADD_ADDED | ZADD_UPDATED

text \<open>The result: the return value, the flag and what is stored in \<open>*newscore\<close>.\<close>

type_synonym 's zadd_reply = "bool \<times> zadd_flag option \<times> 's option"

definition zsetAdd ::
  "('s::linorder \<Rightarrow> 's \<Rightarrow> 's option) \<Rightarrow> bool \<Rightarrow> zptr \<times> nat \<Rightarrow> nat list \<Rightarrow> nat \<Rightarrow>
   's option \<Rightarrow> byte list \<Rightarrow> zadd_options \<Rightarrow> 's zset \<Rightarrow> ('s zset \<times> 's zadd_reply) option" where
  "zsetAdd fadd can_resize junk rs new score0 ele flags zs =
    (case score0 of
       None \<Rightarrow> Some (zs, False, Some ZADD_NAN, None)
     | Some score \<Rightarrow>
         do {
           (d, de) \<leftarrow> dictFind (zs_dict zs) ele;
           let zs1 = zs\<lparr>zs_dict := d\<rparr>;
           (case de of
              Some r \<Rightarrow>
                if zadd_nx flags then Some (zs1, True, Some ZADD_NOP, None)
                else
                  do {
                    n \<leftarrow> zs_heap zs (snd (deref d r));
                    let curscore = z_score n;
                    (case (if zadd_incr flags then fadd score curscore else Some score) of
                       None \<Rightarrow> Some (zs1, False, Some ZADD_NAN, None)
                     | Some score1 \<Rightarrow>
                         let newscore = (if zadd_incr flags then Some score1 else None) in
                         if score1 \<noteq> curscore then
                           do {
                             (h, zsl, znode) \<leftarrow> zslUpdateScore junk rs new curscore ele score1 (zs_heap zs) (zs_zsl zs);
                             Some (\<lparr>zs_dict = dictSetVal d r znode, zs_heap = h, zs_zsl = zsl\<rparr>,
                                   True, Some ZADD_UPDATED, newscore)
                           }
                         else Some (zs1, True, None, newscore))
                  }
            | None \<Rightarrow>
                if \<not> zadd_xx flags then
                  do {
                    (h, zsl) \<leftarrow> zslInsert junk rs new score ele (zs_heap zs) (zs_zsl zs);
                    (d1, ok) \<leftarrow> dictAdd can_resize d ele 0 new;
                    if ok then Some (\<lparr>zs_dict = d1, zs_heap = h, zs_zsl = zsl\<rparr>, True, Some ZADD_ADDED, Some score)
                    else None
                  }
                else Some (zs1, True, Some ZADD_NOP, None))
         })"

definition zsetDel :: "bool \<Rightarrow> byte list \<Rightarrow> 's::linorder zset \<Rightarrow> ('s zset \<times> bool) option" where
  "zsetDel can_resize ele zs =
    do {
      (d, de) \<leftarrow> dictUnlink (zs_dict zs) ele;
      (case de of
         None \<Rightarrow> Some (zs\<lparr>zs_dict := d\<rparr>, False)
       | Some entry \<Rightarrow>
           do {
             n \<leftarrow> zs_heap zs (snd entry);
             (h, zsl, retval) \<leftarrow> zslDelete (z_score n) ele (zs_heap zs) (zs_zsl zs);
             if \<not> retval then None
             else
               (let d1 = (if htNeedsResize d then fst (dictResize can_resize d) else d)
                in Some (\<lparr>zs_dict = d1, zs_heap = h, zs_zsl = zsl\<rparr>, True))
           })
    }"

text \<open>The rank, -1 when the element does not exist; \<open>None\<close> is the failure of the assertion.\<close>

definition zsetRank :: "byte list \<Rightarrow> bool \<Rightarrow> 's::linorder zset \<Rightarrow> ('s zset \<times> int) option" where
  "zsetRank ele reverse zs =
    do {
      let llen = zsetLength zs;
      (d, de) \<leftarrow> dictFind (zs_dict zs) ele;
      (case de of
         None \<Rightarrow> Some (zs\<lparr>zs_dict := d\<rparr>, - 1)
       | Some r \<Rightarrow>
           do {
             n \<leftarrow> zs_heap zs (snd (deref d r));
             rank \<leftarrow> zslGetRank (z_score n) ele (zs_heap zs) (zs_zsl zs);
             if rank = 0 then None
             else Some (zs\<lparr>zs_dict := d\<rparr>, if reverse then int llen - int rank else int rank - 1)
           })
    }"

section \<open>Invariant and abstraction\<close>

definition zset_ok :: "'s::linorder zset \<Rightarrow> 's znode list \<Rightarrow> bool" where
  "zset_ok zs ns \<longleftrightarrow> zrep (zs_heap zs) (zs_zsl zs) ns \<and> zdict (zs_dict zs) ns"

text \<open>What a sorted set stands for: the score of each element.\<close>

definition zset_map :: "'s zset \<Rightarrow> byte list \<Rightarrow> 's option" where
  "zset_map zs e = Option.bind (dict_map (zs_dict zs) {e}) (\<lambda>a. map_option z_score (zs_heap zs a))"

lemma zdict_same:
  assumes "zdict d ns" "same_dict d d'"
  shows "zdict d' ns"
proof -
  have "dict_ok d" using assms(1) by (simp add: zdict_def)
  then have "dict_map d' = dict_map d" by (rule same_dict_map [OF _ assms(2)])
  then show ?thesis using assms by (simp add: zdict_def same_dict_def)
qed

lemma zdict_find:
  assumes "zdict d ns"
  obtains (absent) d' where "dictFind d e = Some (d', None)" "zdict d' ns" "e \<notin> (\<lambda>n. snd (key n)) ` set ns"
      "dictSize d' = dictSize d" "dict_map d' = dict_map d"
  | (present) d' r n where "dictFind d e = Some (d', Some r)" "zdict d' ns" "n \<in> set ns" "snd (key n) = e"
      "snd (deref d' r) = fst n" "valid_ref d' r" "fst (deref d' r) = e" "dictSize d' = dictSize d" "dict_map d' = dict_map d"
proof -
  have z: "dict_ok d" "\<And>e. cls (dtype d) e = {e}"
    "\<And>e a. dict_map d {e} = Some a \<longleftrightarrow> (\<exists>n \<in> set ns. snd (key n) = e \<and> fst n = a)"
    using assms unfolding zdict_def by blast+
  obtain d' r where f: "dictFind d e = Some (d', r)" "same_dict d d'" "map_option (\<lambda>r. snd (deref d' r)) r = dict_map d {e}"
    "\<And>x. r = Some x \<Longrightarrow> valid_ref d' x \<and> {fst (deref d' x)} = {e}"
    by (rule dictFind_spec [OF z(1), of e]) (auto simp: z(2))
  note same = zdict_same [OF assms f(2)] same_dict_size [OF z(1) f(2)] same_dict_map [OF z(1) f(2)]
  show ?thesis
  proof (cases r)
    case None
    then have "dict_map d {e} = None" using f(3) by simp
    then have "e \<notin> (\<lambda>n. snd (key n)) ` set ns" using z(3) [of e] by auto
    then show ?thesis using absent f(1) None same by simp
  next
    case (Some x)
    then have "dict_map d {e} = Some (snd (deref d' x))" using f(3) by simp
    then obtain n where "n \<in> set ns" "snd (key n) = e" "snd (deref d' x) = fst n" unfolding z(3) by metis
    then show ?thesis using present f(1,4) Some same by simp
  qed
qed

lemma zdict_unique:
  assumes "zdict d ns" "n \<in> set ns" "m \<in> set ns" "snd (key n) = snd (key m)"
  shows "n = m"
proof -
  have "inj_on (\<lambda>n. snd (key n)) (set ns)" using assms(1) by (simp add: zdict_def distinct_map)
  then show ?thesis using assms(2-4) unfolding inj_on_def by blast
qed

lemma zrep_distinct: "zrep h z ns \<Longrightarrow> distinct ns"
  by (simp add: zrep_def distinct_map)

lemma zdict_insert:
  assumes "zdict d ns" "dict_ok d'" "dtype d' = dtype d" "dict_map d' = (dict_map d)({e} \<mapsto> a)" "distinct ns'"
    "set ns' = insert (a, l, s, e) {n \<in> set ns. snd (key n) \<noteq> e}"
  shows "zdict d' ns'"
proof -
  have z: "\<And>e. cls (dtype d) e = {e}" "distinct (map (\<lambda>n. snd (key n)) ns)"
    "\<And>e a. dict_map d {e} = Some a \<longleftrightarrow> (\<exists>n \<in> set ns. snd (key n) = e \<and> fst n = a)"
    using assms(1) unfolding zdict_def by blast+
  have "inj_on (\<lambda>n. snd (key n)) (set ns')"
    using zdict_unique [OF assms(1)] unfolding assms(6) inj_on_def by (metis (mono_tags, lifting) insert_iff mem_Collect_eq snd_conv)
  moreover have "dict_map d' {c} = Some b \<longleftrightarrow> (\<exists>n \<in> set ns'. snd (key n) = c \<and> fst n = b)" for c b
  proof (cases "c = e")
    case True
    then show ?thesis unfolding assms(4,6) by auto
  next
    case False
    then have "(\<exists>n \<in> set ns'. snd (key n) = c \<and> fst n = b) \<longleftrightarrow> (\<exists>n \<in> set ns. snd (key n) = c \<and> fst n = b)"
      unfolding assms(6) by fastforce
    with False show ?thesis using z(3) [of c b] by (simp add: assms(4))
  qed
  ultimately show ?thesis using assms(2,3,5) z(1) by (simp add: zdict_def distinct_map)
qed

lemma zdict_remove:
  assumes "zdict d ns" "dict_ok d'" "dtype d' = dtype d" "dict_map d' = (dict_map d)({e} := None)" "distinct ns'"
    "set ns' = {n \<in> set ns. snd (key n) \<noteq> e}"
  shows "zdict d' ns'"
proof -
  have z: "\<And>e. cls (dtype d) e = {e}" "distinct (map (\<lambda>n. snd (key n)) ns)"
    "\<And>e a. dict_map d {e} = Some a \<longleftrightarrow> (\<exists>n \<in> set ns. snd (key n) = e \<and> fst n = a)"
    using assms(1) unfolding zdict_def by blast+
  have "inj_on (\<lambda>n. snd (key n)) (set ns')"
    using zdict_unique [OF assms(1)] unfolding assms(6) inj_on_def by blast
  moreover have "dict_map d' {c} = Some b \<longleftrightarrow> (\<exists>n \<in> set ns'. snd (key n) = c \<and> fst n = b)" for c b
  proof (cases "c = e")
    case True
    then show ?thesis unfolding assms(4,6) by auto
  next
    case False
    then have "(\<exists>n \<in> set ns'. snd (key n) = c \<and> fst n = b) \<longleftrightarrow> (\<exists>n \<in> set ns. snd (key n) = c \<and> fst n = b)"
      unfolding assms(6) by fastforce
    with False show ?thesis using z(3) [of c b] by (simp add: assms(4))
  qed
  ultimately show ?thesis using assms(2,3,5) z(1) by (simp add: zdict_def distinct_map)
qed

lemma zset_map_key:
  assumes "zset_ok zs ns"
  shows "zset_map zs e = Some s \<longleftrightarrow> (s, e) \<in> key ` set ns"
proof -
  have rep: "zrep (zs_heap zs) (zs_zsl zs) ns" and dict: "zdict (zs_dict zs) ns" using assms by (auto simp: zset_ok_def)
  have z: "dict_map (zs_dict zs) {e} = Some a \<longleftrightarrow> (\<exists>n \<in> set ns. snd (key n) = e \<and> fst n = a)" for a
    using dict by (simp add: zdict_def)
  show ?thesis
  proof
    assume "zset_map zs e = Some s"
    then obtain a nd where a: "dict_map (zs_dict zs) {e} = Some a" "zs_heap zs a = Some nd" "z_score nd = s"
      by (auto simp: zset_map_def Option.bind_eq_Some_conv)
    then obtain n where n: "n \<in> set ns" "snd (key n) = e" "fst n = a" using z by auto
    then have "fst (key n) = s" using zrep_node_in [OF rep n(1)] a(2,3) by (metis option.inject)
    then show "(s, e) \<in> key ` set ns" using n by (intro image_eqI [where x = n]) (auto simp: prod_eq_iff)
  next
    assume "(s, e) \<in> key ` set ns"
    then obtain n where n: "(s, e) = key n" "n \<in> set ns" by (rule imageE)
    then have "dict_map (zs_dict zs) {e} = Some (fst n)" using z by (metis snd_conv)
    moreover obtain nd where "zs_heap zs (fst n) = Some nd" "z_score nd = fst (key n)" by (rule zrep_node_in [OF rep n(2)])
    ultimately show "zset_map zs e = Some s" using n(1) by (simp add: zset_map_def) (metis fst_conv)
  qed
qed

lemma zset_map_eqI:
  assumes "zset_ok zs ns" "\<And>e s. m e = Some s \<longleftrightarrow> (s, e) \<in> key ` set ns"
  shows "zset_map zs = m"
proof
  fix e show "zset_map zs e = m e"
    using zset_map_key [OF assms(1), of e] assms(2) [of e] by (metis option.exhaust)
qed

section \<open>Refinement\<close>

definition zadd_spec ::
  "('s \<Rightarrow> 's \<Rightarrow> 's option) \<Rightarrow> 's option \<Rightarrow> byte list \<Rightarrow> zadd_options \<Rightarrow> (byte list \<Rightarrow> 's option) \<Rightarrow>
   (byte list \<Rightarrow> 's option) \<times> 's zadd_reply" where
  "zadd_spec fadd score0 ele flags m =
    (case score0 of
       None \<Rightarrow> (m, False, Some ZADD_NAN, None)
     | Some score \<Rightarrow>
         (case m ele of
            None \<Rightarrow>
              if zadd_xx flags then (m, True, Some ZADD_NOP, None)
              else (m(ele \<mapsto> score), True, Some ZADD_ADDED, Some score)
          | Some cur \<Rightarrow>
              if zadd_nx flags then (m, True, Some ZADD_NOP, None)
              else
                (case (if zadd_incr flags then fadd score cur else Some score) of
                   None \<Rightarrow> (m, False, Some ZADD_NAN, None)
                 | Some s \<Rightarrow>
                     (m(ele \<mapsto> s), True, if s \<noteq> cur then Some ZADD_UPDATED else None,
                      if zadd_incr flags then Some s else None))))"

lemma zset_ok_dict:
  assumes "zset_ok zs ns" "zdict d ns" "dict_map d = dict_map (zs_dict zs)"
  shows "zset_ok (zs\<lparr>zs_dict := d\<rparr>) ns" "zset_map (zs\<lparr>zs_dict := d\<rparr>) = zset_map zs"
  using assms by (auto simp: zset_ok_def zset_map_def)

lemma zset_map_none:
  assumes "zset_ok zs ns" "e \<notin> (\<lambda>n. snd (key n)) ` set ns"
  shows "zset_map zs e = None"
  using zset_map_key [OF assms(1), of e] assms(2) by (cases "zset_map zs e") force+

lemma zsetAdd_insert:
  fixes zs :: "'s::linorder zset"
  assumes "zset_ok zs ns" "zs_heap zs new = None" "zslRandomLevel rs = Some L"
    "e \<notin> (\<lambda>n. snd (key n)) ` set ns" "zdict d ns" "dict_map d = dict_map (zs_dict zs)" "dict_room d"
  obtains h zsl d1 ns' where "zslInsert junk rs new score e (zs_heap zs) (zs_zsl zs) = Some (h, zsl)"
    "dictAdd can_resize d e 0 new = Some (d1, True)" "zset_ok \<lparr>zs_dict = d1, zs_heap = h, zs_zsl = zsl\<rparr> ns'"
    "zset_map \<lparr>zs_dict = d1, zs_heap = h, zs_zsl = zsl\<rparr> = (zset_map zs)(e \<mapsto> score)"
proof -
  have rep: "zrep (zs_heap zs) (zs_zsl zs) ns" using assms(1) by (simp add: zset_ok_def)
  have d: "dict_ok d" "cls (dtype d) e = {e}" using assms(5) by (simp_all add: zdict_def)
  have nk: "(score, e) \<notin> key ` set ns" using assms(4) by force
  define ns' where "ns' = before (score, e) ns @ (new, L, score, e) # drop (length (before (score, e) ns)) ns"
  obtain h zsl where i: "zslInsert junk rs new score e (zs_heap zs) (zs_zsl zs) = Some (h, zsl)" "zrep h zsl ns'"
    unfolding ns'_def by (rule zslInsert_zrep [OF rep assms(2,3) nk])
  have st: "set ns' = insert (new, L, score, e) (set ns)" unfolding ns'_def by (rule set_before_ins)
  have "dict_map d {e} = None"
  proof (rule ccontr)
    assume "dict_map d {e} \<noteq> None"
    then obtain a where "dict_map d {e} = Some a" by blast
    then obtain n where "n \<in> set ns" "snd (key n) = e" using assms(5) unfolding zdict_def by blast
    then show False using assms(4) by blast
  qed
  with d obtain d1 where d1: "dictAdd can_resize d e 0 new = Some (d1, True)" "dict_ok d1" "dtype d1 = dtype d"
      "dict_map d1 = (dict_map d)({e} \<mapsto> new)"
    using dictAdd_spec [OF d(1) assms(7), of can_resize e 0 new] by auto
  have "{n \<in> set ns. snd (key n) \<noteq> e} = set ns" using assms(4) by force
  then have "zdict d1 ns'" using zdict_insert [OF assms(5) d1(2,3,4) zrep_distinct [OF i(2)]] st by simp
  then have ok: "zset_ok \<lparr>zs_dict = d1, zs_heap = h, zs_zsl = zsl\<rparr> ns'" using i(2) by (simp add: zset_ok_def)
  have "zset_map \<lparr>zs_dict = d1, zs_heap = h, zs_zsl = zsl\<rparr> = (zset_map zs)(e \<mapsto> score)"
    using assms(4) zset_map_key [OF assms(1)] by (intro zset_map_eqI [OF ok]) (force simp: st)
  then show ?thesis using that i(1) d1(1) ok by blast
qed

lemma zsetAdd_update:
  fixes zs :: "'s::linorder zset"
  assumes "zset_ok zs ns" "zs_heap zs new = None" "zslRandomLevel rs = Some L" "n \<in> set ns" "key n = (cur, e)"
    "zdict d ns" "dict_map d = dict_map (zs_dict zs)" "valid_ref d r" "fst (deref d r) = e"
  obtains h zsl a ns' where "zslUpdateScore junk rs new cur e score (zs_heap zs) (zs_zsl zs) = Some (h, zsl, a)"
    "zset_ok \<lparr>zs_dict = dictSetVal d r a, zs_heap = h, zs_zsl = zsl\<rparr> ns'"
    "zset_map \<lparr>zs_dict = dictSetVal d r a, zs_heap = h, zs_zsl = zsl\<rparr> = (zset_map zs)(e \<mapsto> score)"
proof -
  have rep: "zrep (zs_heap zs) (zs_zsl zs) ns" using assms(1) by (simp add: zset_ok_def)
  have d: "dict_ok d" "cls (dtype d) e = {e}" using assms(6) by (simp_all add: zdict_def)
  have un: "m = n" if "m \<in> set ns" "snd (key m) = e" for m using zdict_unique [OF assms(6) that(1) assms(4)] that(2) assms(5) by simp
  have "(cur, e) \<in> key ` set ns" unfolding assms(5) [symmetric] by (intro imageI assms(4))
  moreover have "(score, e) \<notin> key ` set ns - {(cur, e)}"
  proof
    assume "(score, e) \<in> key ` set ns - {(cur, e)}"
    then obtain m where "(score, e) = key m" "m \<in> set ns" "score \<noteq> cur" by auto
    with un [of m] assms(5) show False by (metis prod.inject snd_conv)
  qed
  ultimately obtain h zsl a ns' l where u: "zslUpdateScore junk rs new cur e score (zs_heap zs) (zs_zsl zs) = Some (h, zsl, a)"
    "zrep h zsl ns'" "set ns' = insert (a, l, score, e) {n \<in> set ns. key n \<noteq> (cur, e)}"
    by (rule zslUpdateScore_zrep [OF rep assms(2,3)]) blast
  have "{n \<in> set ns. key n \<noteq> (cur, e)} = {n \<in> set ns. snd (key n) \<noteq> e}" using un assms(5) by force
  with u(3) have st: "set ns' = insert (a, l, score, e) {n \<in> set ns. snd (key n) \<noteq> e}" by simp
  have "zdict (dictSetVal d r a) ns'"
    using dictSetVal_spec [OF d(1) assms(8), of a] assms(9) d(2)
    by (intro zdict_insert [OF assms(6) _ _ _ zrep_distinct [OF u(2)] st]) auto
  then have ok: "zset_ok \<lparr>zs_dict = dictSetVal d r a, zs_heap = h, zs_zsl = zsl\<rparr> ns'" using u(2) by (simp add: zset_ok_def)
  have "zset_map \<lparr>zs_dict = dictSetVal d r a, zs_heap = h, zs_zsl = zsl\<rparr> = (zset_map zs)(e \<mapsto> score)"
    using zset_map_key [OF assms(1)] by (intro zset_map_eqI [OF ok]) (force simp: st)
  then show ?thesis using that u(1) ok by blast
qed

lemma zset_map_node:
  assumes "zset_ok zs ns" "n \<in> set ns"
  obtains nd where "zs_heap zs (fst n) = Some nd" "z_score nd = fst (key n)" "zset_map zs (snd (key n)) = Some (fst (key n))"
proof -
  have rep: "zrep (zs_heap zs) (zs_zsl zs) ns" using assms(1) by (simp add: zset_ok_def)
  have "zset_map zs (snd (key n)) = Some (fst (key n))"
    unfolding zset_map_key [OF assms(1)] using assms(2) by (intro image_eqI [where x = n]) auto
  moreover obtain nd where "zs_heap zs (fst n) = Some nd" "z_score nd = fst (key n)" by (rule zrep_node_in [OF rep assms(2)])
  ultimately show ?thesis using that by blast
qed

lemma zsetAdd_sim:
  fixes zs :: "'s::linorder zset"
  assumes "zset_ok zs ns" "dict_room (zs_dict zs)" "zs_heap zs new = None" "zslRandomLevel rs = Some L"
  shows "\<exists>zs' ns'. zsetAdd fadd can_resize junk rs new score0 ele flags zs = Some (zs', snd (zadd_spec fadd score0 ele flags (zset_map zs))) \<and>
    zset_ok zs' ns' \<and> zset_map zs' = fst (zadd_spec fadd score0 ele flags (zset_map zs))"
proof (cases score0)
  case None
  then show ?thesis using assms(1) by (auto simp: zsetAdd_def zadd_spec_def)
next
  case sc: (Some score)
  have "zdict (zs_dict zs) ns" using assms(1) by (simp add: zset_ok_def)
  then show ?thesis
  proof (cases rule: zdict_find [of _ _ ele])
    case (absent d)
    note zd = zset_ok_dict [OF assms(1) absent(2,5)] and none = zset_map_none [OF assms(1) absent(3)]
    have "dict_room d" using assms(2) absent(4) by (simp add: dict_room_def)
    then obtain h zsl d1 ns' where "zslInsert junk rs new score ele (zs_heap zs) (zs_zsl zs) = Some (h, zsl)"
      "dictAdd can_resize d ele 0 new = Some (d1, True)" "zset_ok \<lparr>zs_dict = d1, zs_heap = h, zs_zsl = zsl\<rparr> ns'"
      "zset_map \<lparr>zs_dict = d1, zs_heap = h, zs_zsl = zsl\<rparr> = (zset_map zs)(ele \<mapsto> score)"
      by (rule zsetAdd_insert [OF assms(1,3,4) absent(3,2,5)])
    then show ?thesis using absent(1) zd none sc by (auto simp: zsetAdd_def zadd_spec_def)
  next
    case (present d r n)
    note zd = zset_ok_dict [OF assms(1) present(2,9)]
    obtain nd where nd: "zs_heap zs (snd (deref d r)) = Some nd" "zset_map zs ele = Some (z_score nd)"
      by (rule zset_map_node [OF assms(1) present(3)]) (use present(4,5) in auto)
    have k: "key n = (z_score nd, ele)" using nd(2) present(3,4) zset_map_node [OF assms(1) present(3)] by (metis option.inject prod.collapse)
    show ?thesis
    proof (cases "zadd_nx flags")
      case True
      then show ?thesis using present(1) nd zd sc by (auto simp: zsetAdd_def zadd_spec_def)
    next
      case nx: False
      define v where "v = (if zadd_incr flags then fadd score (z_score nd) else Some score)"
      show ?thesis
      proof (cases "v = None \<or> v = Some (z_score nd)")
        case True
        then show ?thesis using present(1) nd zd sc nx unfolding v_def by (auto simp: zsetAdd_def zadd_spec_def fun_upd_idem)
      next
        case False
        then obtain s where s: "v = Some s" "s \<noteq> z_score nd" by auto
        obtain h zsl a ns' where "zslUpdateScore junk rs new (z_score nd) ele s (zs_heap zs) (zs_zsl zs) = Some (h, zsl, a)"
          "zset_ok \<lparr>zs_dict = dictSetVal d r a, zs_heap = h, zs_zsl = zsl\<rparr> ns'"
          "zset_map \<lparr>zs_dict = dictSetVal d r a, zs_heap = h, zs_zsl = zsl\<rparr> = (zset_map zs)(ele \<mapsto> s)"
          by (rule zsetAdd_update [OF assms(1,3,4) present(3) k present(2,9,6,7)])
        then show ?thesis using present(1) nd zd sc nx s unfolding v_def by (auto simp: zsetAdd_def zadd_spec_def)
      qed
    qed
  qed
qed

lemma zsetScore_sim:
  assumes "zset_ok zs ns"
  shows "\<exists>zs'. zsetScore zs e = Some (zs', zset_map zs e) \<and> zset_ok zs' ns \<and> zset_map zs' = zset_map zs"
proof -
  have "zdict (zs_dict zs) ns" using assms(1) by (simp add: zset_ok_def)
  then show ?thesis
  proof (cases rule: zdict_find [of _ _ e])
    case (absent d)
    then show ?thesis using zset_ok_dict [OF assms(1) absent(2,5)] zset_map_none [OF assms(1) absent(3)] by (auto simp: zsetScore_def)
  next
    case (present d r n)
    obtain nd where "zs_heap zs (snd (deref d r)) = Some nd" "zset_map zs e = Some (z_score nd)"
      by (rule zset_map_node [OF assms(1) present(3)]) (use present(4,5) in auto)
    then show ?thesis using present(1) zset_ok_dict [OF assms(1) present(2,9)] by (auto simp: zsetScore_def)
  qed
qed

lemma dictResize_zdict:
  assumes "zdict d ns"
  shows "zdict (fst (dictResize cr d)) ns"
proof -
  have "dict_ok d" using assms by (simp add: zdict_def)
  then show ?thesis by (rule zdict_same [OF assms dictResize_same])
qed

lemma zsetDel_sim:
  fixes zs :: "'s::linorder zset"
  assumes "zset_ok zs ns"
  shows "\<exists>zs' ns'. zsetDel can_resize e zs = Some (zs', zset_map zs e \<noteq> None) \<and> zset_ok zs' ns' \<and>
    zset_map zs' = (zset_map zs)(e := None)"
proof -
  have rep: "zrep (zs_heap zs) (zs_zsl zs) ns" and dict: "zdict (zs_dict zs) ns" using assms by (auto simp: zset_ok_def)
  have z: "dict_ok (zs_dict zs)" "\<And>e. cls (dtype (zs_dict zs)) e = {e}"
    "\<And>a. dict_map (zs_dict zs) {e} = Some a \<longleftrightarrow> (\<exists>n \<in> set ns. snd (key n) = e \<and> fst n = a)"
    using dict unfolding zdict_def by blast+
  obtain d en where d: "dictUnlink (zs_dict zs) e = Some (d, en)" "dict_ok d" "dtype d = dtype (zs_dict zs)"
    "map_option snd en = dict_map (zs_dict zs) {e}" "dict_map d = (dict_map (zs_dict zs))({e} := None)"
    by (rule dictGenericDelete_spec [OF z(1), of e]) (auto simp: z(2) dictUnlink_def)
  show ?thesis
  proof (cases en)
    case None
    then have "dict_map (zs_dict zs) {e} = None" using d(4) by simp
    then have ne: "e \<notin> (\<lambda>n. snd (key n)) ` set ns" and same: "dict_map d = dict_map (zs_dict zs)" using z(3) d(5) by auto
    have "zdict d ns" using dict d(2,3) same by (simp add: zdict_def)
    then show ?thesis using None d(1) zset_ok_dict [OF assms _ same] zset_map_none [OF assms ne] by (auto simp: zsetDel_def)
  next
    case (Some entry)
    then obtain n where n: "n \<in> set ns" "snd (key n) = e" "fst n = snd entry" using d(4) z(3) by (metis option.simps(9))
    obtain nd where nd: "zs_heap zs (snd entry) = Some nd" "z_score nd = fst (key n)" "zset_map zs e = Some (fst (key n))"
      by (rule zset_map_node [OF assms n(1)]) (use n in auto)
    have k: "key n = (z_score nd, e)" using nd(2) n(2) by (simp add: prod_eq_iff)
    have "(z_score nd, e) \<in> key ` set ns" unfolding k [symmetric] by (intro imageI n(1))
    then obtain h zsl ns' where del: "zslDelete (z_score nd) e (zs_heap zs) (zs_zsl zs) = Some (h, zsl, True)" "zrep h zsl ns'"
      "set ns' = {n \<in> set ns. key n \<noteq> (z_score nd, e)}"
      by (rule_tac zslDelete_zrep [OF rep, of "z_score nd" e]) auto
    have "key m \<noteq> (z_score nd, e) \<longleftrightarrow> snd (key m) \<noteq> e" if "m \<in> set ns" for m
      using zdict_unique [OF dict n(1) that] n(2) k by (cases "snd (key m) = e") auto
    then have st: "set ns' = {n \<in> set ns. snd (key n) \<noteq> e}" unfolding del(3) by blast
    have "zdict d ns'" by (rule zdict_remove [OF dict d(2,3,5) zrep_distinct [OF del(2)] st])
    then have ok: "zset_ok \<lparr>zs_dict = if htNeedsResize d then fst (dictResize can_resize d) else d, zs_heap = h, zs_zsl = zsl\<rparr> ns'"
      (is "zset_ok ?zs' ns'") using del(2) dictResize_zdict [of d ns' can_resize] by (simp add: zset_ok_def)
    have "zset_map ?zs' = (zset_map zs)(e := None)"
      using zset_map_key [OF assms] by (intro zset_map_eqI [OF ok]) (force simp: st)
    then show ?thesis using Some d(1) nd(1,3) del(1) ok by (auto simp: zsetDel_def Let_def)
  qed
qed

end
