(* ===== verification/Zset_Thms.thy ===== *)
theory Zset_Thms
  imports Zset
begin

text \<open>
  Properties of skip lists and sorted sets: the operations against the sorted sequence of elements
  and against the map from elements to scores, and the states a sorted set can reach.
\<close>

section \<open>Removing a range of elements\<close>

text \<open>
  Steps 2 and 3 of \<open>zremrangeGenericCommand\<close> for the skip list encoding: the indices of a range of
  ranks are brought into bounds, the elements deleted, the hash table resized.  The result is the
  number of deleted elements.
\<close>

datatype 's zrange = ZRANGE_RANK int int | ZRANGE_SCORE "'s zrangespec" | ZRANGE_LEX zlexrangespec

definition zremrange_bounds :: "int \<Rightarrow> int \<Rightarrow> int \<Rightarrow> (int \<times> int) option" where
  "zremrange_bounds llen start0 end0 =
    (let start1 = (if start0 < 0 then llen + start0 else start0);
         end1 = (if end0 < 0 then llen + end0 else end0);
         start2 = (if start1 < 0 then 0 else start1)
     in if start2 > end1 \<or> start2 \<ge> llen then None
        else Some (start2, if end1 \<ge> llen then llen - 1 else end1))"

definition zremrange :: "bool \<Rightarrow> 's::linorder zrange \<Rightarrow> 's zset \<Rightarrow> ('s zset \<times> nat) option" where
  "zremrange can_resize rangetype zs =
    (let run = (\<lambda>res. do {
           (h, zsl, d, deleted) \<leftarrow> res;
           let d1 = (if htNeedsResize d then fst (dictResize can_resize d) else d);
           Some (\<lparr>zs_dict = d1, zs_heap = h, zs_zsl = zsl\<rparr>, deleted)
         })
     in case rangetype of
          ZRANGE_RANK start0 end0 \<Rightarrow>
            (case zremrange_bounds (int (zsetLength zs)) start0 end0 of
               None \<Rightarrow> Some (zs, 0)
             | Some (start1, end1) \<Rightarrow>
                 run (zslDeleteRangeByRank (nat (start1 + 1)) (nat (end1 + 1)) (zs_heap zs) (zs_zsl zs) (zs_dict zs)))
        | ZRANGE_SCORE rng \<Rightarrow> run (zslDeleteRangeByScore rng (zs_heap zs) (zs_zsl zs) (zs_dict zs))
        | ZRANGE_LEX rng \<Rightarrow> run (zslDeleteRangeByLex rng (zs_heap zs) (zs_zsl zs) (zs_dict zs)))"

section \<open>Ranks count elements\<close>

lemma sorted_count:
  assumes "sorted_wrt (<) (ks :: 'a::linorder list)" "q < length ks"
  shows "card {k \<in> set ks. k < ks ! q} = q" "card {k \<in> set ks. ks ! q < k} = length ks - Suc q"
proof -
  have lt: "ks ! i < ks ! j \<longleftrightarrow> i < j" if "i < length ks" "j < length ks" for i j
    using assms(1) that by (metis linorder_neqE_nat order.asym order.strict_iff_not sorted_wrt_iff_nth_less)
  have inj: "inj_on (\<lambda>i. ks ! i) {..<length ks}" using lt by (intro inj_onI) (metis lessThan_iff linorder_neqE_nat order.irrefl)
  have "{k \<in> set ks. k < ks ! q} = (\<lambda>i. ks ! i) ` {..<q}"
    unfolding set_conv_nth using lt assms(2) by auto
  moreover have "inj_on (\<lambda>i. ks ! i) {..<q}" by (rule inj_on_subset [OF inj]) (use assms(2) in auto)
  ultimately show "card {k \<in> set ks. k < ks ! q} = q" by (simp add: card_image)
  have "{k \<in> set ks. ks ! q < k} = (\<lambda>i. ks ! i) ` {Suc q..<length ks}"
    unfolding set_conv_nth using lt assms(2) by auto
  moreover have "inj_on (\<lambda>i. ks ! i) {Suc q..<length ks}" by (rule inj_on_subset [OF inj]) auto
  ultimately show "card {k \<in> set ks. ks ! q < k} = length ks - Suc q" by (simp add: card_image)
qed

text \<open>The number of elements before an element, or behind it.\<close>

definition zset_rank :: "(byte list \<Rightarrow> 's::linorder option) \<Rightarrow> bool \<Rightarrow> byte list \<Rightarrow> int" where
  "zset_rank m reverse e =
    (case m e of
       None \<Rightarrow> - 1
     | Some s \<Rightarrow> int (card {k. m (snd k) = Some (fst k) \<and> (if reverse then (s, e) < k else k < (s, e))}))"

lemma zsetRank_sim:
  assumes "zset_ok zs ns"
  shows "\<exists>zs'. zsetRank e reverse zs = Some (zs', zset_rank (zset_map zs) reverse e) \<and> zset_ok zs' ns \<and> zset_map zs' = zset_map zs"
proof -
  have rep: "zrep (zs_heap zs) (zs_zsl zs) ns" and dict: "zdict (zs_dict zs) ns" using assms by (auto simp: zset_ok_def)
  from dict show ?thesis
  proof (cases rule: zdict_find [of _ _ e])
    case (absent d)
    then show ?thesis using zset_ok_dict [OF assms(1) absent(2,5)] zset_map_none [OF assms(1) absent(3)]
      by (auto simp: zsetRank_def zset_rank_def Let_def)
  next
    case (present d r n)
    obtain nd where nd: "zs_heap zs (snd (deref d r)) = Some nd" "z_score nd = fst (key n)" "zset_map zs e = Some (z_score nd)"
      by (rule zset_map_node [OF assms(1) present(3)]) (use present(4,5) in auto)
    have k: "key n = (z_score nd, e)" using nd(2) present(4) by (simp add: prod_eq_iff)
    obtain q where q: "q < length ns" "ns ! q = n" using present(3) unfolding in_set_conv_nth by blast
    have un: "fst (key m) = z_score nd" if "m \<in> set ns" "snd (key m) = e" for m
      using zdict_unique [OF dict that(1) present(3)] that(2) k by simp
    have rk: "zslGetRank (z_score nd) e (zs_heap zs) (zs_zsl zs) = Some (Suc q)"
      by (rule zslGetRank_zrep(2) [OF rep un q(1)]) (use q k in auto)
    have len: "zsetLength zs = length ns" using rep by (simp add: zsetLength_def zrep_def)
    have q': "q < length (map key ns)" "map key ns ! q = (z_score nd, e)" using q k by simp_all
    have "{k. zset_map zs (snd k) = Some (fst k) \<and> P k} = {k \<in> set (map key ns). P k}" for P
      using zset_map_key [OF assms] by auto
    then have "zset_rank (zset_map zs) reverse e = (if reverse then int (length ns - Suc q) else int q)"
      using sorted_count [OF zrep_sorted [OF rep] q'(1)] nd(3) unfolding q'(2) zset_rank_def by (simp split del: if_split add: if_split)
    then show ?thesis using present(1) nd(1) rk zset_ok_dict [OF assms(1) present(2,9)] q(1)
      by (auto simp: zsetRank_def Let_def len of_nat_diff)
  qed
qed

section \<open>Range deletions on sorted sets\<close>

lemma zset_filter:
  assumes "zset_ok zs ns" "zrep h zsl ns'" "zdict d ns'" "set ns' = {n \<in> set ns. P (key n)}"
  shows "zset_ok \<lparr>zs_dict = if b then fst (dictResize can_resize d) else d, zs_heap = h, zs_zsl = zsl\<rparr> ns'"
    "zset_map \<lparr>zs_dict = if b then fst (dictResize can_resize d) else d, zs_heap = h, zs_zsl = zsl\<rparr> =
      (\<lambda>e. case zset_map zs e of None \<Rightarrow> None | Some s \<Rightarrow> if P (s, e) then Some s else None)"
proof -
  show ok: "zset_ok \<lparr>zs_dict = if b then fst (dictResize can_resize d) else d, zs_heap = h, zs_zsl = zsl\<rparr> ns'"
    using assms(2,3) dictResize_zdict [OF assms(3)] by (simp add: zset_ok_def)
  have "key ` set ns' = {k \<in> key ` set ns. P k}" unfolding assms(4) by auto
  moreover have "(case zset_map zs e of None \<Rightarrow> None | Some s \<Rightarrow> if P (s, e) then Some s else None) = Some s \<longleftrightarrow>
      zset_map zs e = Some s \<and> P (s, e)" for e s by (auto split: option.splits)
  ultimately show "zset_map \<lparr>zs_dict = if b then fst (dictResize can_resize d) else d, zs_heap = h, zs_zsl = zsl\<rparr> =
      (\<lambda>e. case zset_map zs e of None \<Rightarrow> None | Some s \<Rightarrow> if P (s, e) then Some s else None)"
    using zset_map_key [OF assms(1)] by (intro zset_map_eqI [OF ok]) simp
qed

lemma zremrange_score_sim:
  assumes "zset_ok zs ns"
  shows "\<exists>zs' ns'. zremrange can_resize (ZRANGE_SCORE rng) zs = Some (zs', length ns - length ns') \<and> zset_ok zs' ns' \<and>
    ns' = filter (\<lambda>n. \<not> (zslValueGteMin (fst (key n)) rng \<and> zslValueLteMax (fst (key n)) rng)) ns \<and>
    zset_map zs' = (\<lambda>e. case zset_map zs e of None \<Rightarrow> None
       | Some s \<Rightarrow> if \<not> (zslValueGteMin s rng \<and> zslValueLteMax s rng) then Some s else None)"
proof -
  have z: "zrep (zs_heap zs) (zs_zsl zs) ns" "zdict (zs_dict zs) ns" using assms by (auto simp: zset_ok_def)
  define ns' where "ns' = filter (\<lambda>n. \<not> (zslValueGteMin (fst (key n)) rng \<and> zslValueLteMax (fst (key n)) rng)) ns"
  obtain h zsl d where r: "zslDeleteRangeByScore rng (zs_heap zs) (zs_zsl zs) (zs_dict zs) = Some (h, zsl, d, length ns - length ns')"
    "zrep h zsl ns'" "zdict d ns'" by (rule zslDeleteRangeByScore_zrep [OF z ns'_def])
  have "set ns' = {n \<in> set ns. \<not> (zslValueGteMin (fst (key n)) rng \<and> zslValueLteMax (fst (key n)) rng)}" by (simp add: ns'_def)
  note f = zset_filter [OF assms r(2,3) this, of "htNeedsResize d" can_resize, unfolded fst_conv]
  then show ?thesis using r(1) unfolding ns'_def [symmetric] by (auto simp: zremrange_def Let_def)
qed

lemma zremrange_rank_sim:
  assumes "zset_ok zs ns"
  shows "\<exists>zs' ns'. zremrange can_resize (ZRANGE_RANK start0 end0) zs = Some (zs', length ns - length ns') \<and> zset_ok zs' ns' \<and>
    ns' = (case zremrange_bounds (int (length ns)) start0 end0 of None \<Rightarrow> ns
           | Some (start1, end1) \<Rightarrow> take (nat start1) ns @ drop (nat (end1 + 1)) ns)"
proof (cases "zremrange_bounds (int (length ns)) start0 end0")
  case None
  moreover have "zsetLength zs = length ns" using assms by (simp add: zset_ok_def zrep_def zsetLength_def)
  ultimately show ?thesis using assms by (simp add: zremrange_def Let_def)
next
  case (Some p)
  obtain s1 e1 where p: "p = (s1, e1)" by (cases p)
  have b: "0 \<le> s1" "s1 \<le> e1" using Some p by (auto simp: zremrange_bounds_def Let_def split: if_splits)
  have len: "zsetLength zs = length ns" using assms by (simp add: zset_ok_def zrep_def zsetLength_def)
  have z: "zrep (zs_heap zs) (zs_zsl zs) ns" "zdict (zs_dict zs) ns" using assms by (auto simp: zset_ok_def)
  define ns' where "ns' = take (nat (s1 + 1) - 1) ns @ drop (max (nat (s1 + 1) - 1) (nat (e1 + 1))) ns"
  obtain h zsl d where r: "zslDeleteRangeByRank (nat (s1 + 1)) (nat (e1 + 1)) (zs_heap zs) (zs_zsl zs) (zs_dict zs) = Some (h, zsl, d, length ns - length ns')"
    "zrep h zsl ns'" "zdict d ns'" by (rule zslDeleteRangeByRank_zrep [OF z ns'_def])
  have ok: "zset_ok \<lparr>zs_dict = if htNeedsResize d then fst (dictResize can_resize d) else d, zs_heap = h, zs_zsl = zsl\<rparr> ns'"
    using r(2,3) dictResize_zdict [OF r(3)] by (simp add: zset_ok_def)
  have "nat (s1 + 1) - 1 = nat s1" "max (nat (s1 + 1) - 1) (nat (e1 + 1)) = nat (e1 + 1)" using b by auto
  then have "ns' = take (nat s1) ns @ drop (nat (e1 + 1)) ns" by (simp add: ns'_def)
  then show ?thesis using Some p r(1) ok len by (auto simp: zremrange_def Let_def)
qed

section \<open>Reachable sorted sets\<close>

text \<open>The hash table type of sorted sets, for a hash function of strings.\<close>

definition dictSdsKeyCompare :: "byte list \<Rightarrow> byte list \<Rightarrow> bool" where
  "dictSdsKeyCompare key1 key2 =
    (let l1 = length key1; l2 = length key2 in if l1 \<noteq> l2 then False else memcmp key1 key2 l1 = 0)"

definition zsetDictType :: "(byte list \<Rightarrow> u64) \<Rightarrow> byte list dictType" where
  "zsetDictType hash = \<lparr>hashFunction = hash, keyCompare = Some dictSdsKeyCompare\<rparr>"

lemma dictSdsKeyCompare_eq: "dictSdsKeyCompare a b \<longleftrightarrow> a = b"
  using sdscmp_order(2) [of a b] by (auto simp: dictSdsKeyCompare_def sdscmp_def Let_def split: if_splits)

lemma zsetDictType_ok: "type_ok (zsetDictType hash)" "cls (zsetDictType hash) e = {e}"
  by (auto simp: type_ok_def cls_def zsetDictType_def key_eq_def dictCompareKeys_def dictSdsKeyCompare_eq equivp_def fun_eq_iff)

text \<open>
  A new sorted set, and the operations on it in any order: with any results of \<open>random()\<close> and any
  unused address for a new node.
\<close>

inductive zset_reach :: "('s::linorder \<Rightarrow> 's \<Rightarrow> 's option) \<Rightarrow> 's zset \<Rightarrow> bool" for fadd where
  create: "zslCreate junk hdr zero Map.empty = Some (h, zsl) \<Longrightarrow>
    zset_reach fadd \<lparr>zs_dict = dictCreate (zsetDictType hash), zs_heap = h, zs_zsl = zsl\<rparr>"
| add: "\<lbrakk>zset_reach fadd zs; dict_room (zs_dict zs); zs_heap zs new = None; zslRandomLevel rs \<noteq> None;
    zsetAdd fadd can_resize junk rs new score ele flags zs = Some (zs', reply)\<rbrakk> \<Longrightarrow> zset_reach fadd zs'"
| del: "\<lbrakk>zset_reach fadd zs; zsetDel can_resize ele zs = Some (zs', found)\<rbrakk> \<Longrightarrow> zset_reach fadd zs'"
| score: "\<lbrakk>zset_reach fadd zs; zsetScore zs ele = Some (zs', s)\<rbrakk> \<Longrightarrow> zset_reach fadd zs'"
| rank: "\<lbrakk>zset_reach fadd zs; zsetRank ele reverse zs = Some (zs', r)\<rbrakk> \<Longrightarrow> zset_reach fadd zs'"
| remrange_score: "\<lbrakk>zset_reach fadd zs; zremrange can_resize (ZRANGE_SCORE rng) zs = Some (zs', deleted)\<rbrakk> \<Longrightarrow> zset_reach fadd zs'"
| remrange_rank: "\<lbrakk>zset_reach fadd zs; zremrange can_resize (ZRANGE_RANK start0 end0) zs = Some (zs', deleted)\<rbrakk> \<Longrightarrow> zset_reach fadd zs'"

lemma zset_create_ok:
  assumes "zslCreate junk hdr zero h0 = Some (h, zsl)"
  shows "zset_ok \<lparr>zs_dict = dictCreate (zsetDictType hash), zs_heap = h, zs_zsl = zsl\<rparr> []"
    "zset_map \<lparr>zs_dict = dictCreate (zsetDictType hash), zs_heap = h, zs_zsl = zsl\<rparr> = Map.empty"
proof -
  have "zrep h zsl []" by (rule zslCreate_zrep [of junk hdr zero h0]) (use assms in simp)
  moreover have "dtype (dictCreate (zsetDictType hash) :: (byte list, nat) dict) = zsetDictType hash" by (simp add: dictCreate_def)
  ultimately show "zset_ok \<lparr>zs_dict = dictCreate (zsetDictType hash), zs_heap = h, zs_zsl = zsl\<rparr> []"
    "zset_map \<lparr>zs_dict = dictCreate (zsetDictType hash), zs_heap = h, zs_zsl = zsl\<rparr> = Map.empty"
    by (auto simp: zset_ok_def zdict_def zset_map_def dictCreate_ok zsetDictType_ok)
qed

text \<open>The invariant of a sorted set.\<close>

definition zset_inv :: "'s::linorder zset \<Rightarrow> bool" where
  "zset_inv zs \<longleftrightarrow> (\<exists>ns. zset_ok zs ns)"

lemma zsetAdd_inv:
  assumes "zset_inv zs" "dict_room (zs_dict zs)" "zs_heap zs new = None" "zslRandomLevel rs \<noteq> None"
  shows "\<exists>zs'. zsetAdd fadd can_resize junk rs new score ele flags zs = Some (zs', snd (zadd_spec fadd score ele flags (zset_map zs))) \<and>
    zset_inv zs' \<and> zset_map zs' = fst (zadd_spec fadd score ele flags (zset_map zs))"
proof -
  obtain ns L where "zset_ok zs ns" "zslRandomLevel rs = Some L" using assms(1,4) by (auto simp: zset_inv_def)
  from zsetAdd_sim [OF this(1) assms(2,3) this(2)] show ?thesis unfolding zset_inv_def by blast
qed

lemma zset_ops_inv:
  assumes "zset_inv zs"
  shows "\<exists>zs'. zsetDel can_resize e zs = Some (zs', zset_map zs e \<noteq> None) \<and> zset_inv zs' \<and> zset_map zs' = (zset_map zs)(e := None)"
    "\<exists>zs'. zsetScore zs e = Some (zs', zset_map zs e) \<and> zset_inv zs' \<and> zset_map zs' = zset_map zs"
    "\<exists>zs'. zsetRank e reverse zs = Some (zs', zset_rank (zset_map zs) reverse e) \<and> zset_inv zs' \<and> zset_map zs' = zset_map zs"
    "\<exists>zs' c. zremrange can_resize (ZRANGE_SCORE rng) zs = Some (zs', c) \<and> zset_inv zs'"
    "\<exists>zs' c. zremrange can_resize (ZRANGE_RANK start0 end0) zs = Some (zs', c) \<and> zset_inv zs'"
proof -
  obtain ns where ns: "zset_ok zs ns" using assms by (auto simp: zset_inv_def)
  show "\<exists>zs'. zsetDel can_resize e zs = Some (zs', zset_map zs e \<noteq> None) \<and> zset_inv zs' \<and> zset_map zs' = (zset_map zs)(e := None)"
    using zsetDel_sim [OF ns] unfolding zset_inv_def by blast
  show "\<exists>zs'. zsetScore zs e = Some (zs', zset_map zs e) \<and> zset_inv zs' \<and> zset_map zs' = zset_map zs"
    using zsetScore_sim [OF ns] unfolding zset_inv_def by blast
  show "\<exists>zs'. zsetRank e reverse zs = Some (zs', zset_rank (zset_map zs) reverse e) \<and> zset_inv zs' \<and> zset_map zs' = zset_map zs"
    using zsetRank_sim [OF ns] unfolding zset_inv_def by blast
  show "\<exists>zs' c. zremrange can_resize (ZRANGE_SCORE rng) zs = Some (zs', c) \<and> zset_inv zs'"
    using zremrange_score_sim [OF ns] unfolding zset_inv_def by blast
  show "\<exists>zs' c. zremrange can_resize (ZRANGE_RANK start0 end0) zs = Some (zs', c) \<and> zset_inv zs'"
    using zremrange_rank_sim [OF ns] unfolding zset_inv_def by blast
qed

lemma zset_reach_ok: "zset_reach fadd zs \<Longrightarrow> zset_inv zs"
proof (induction rule: zset_reach.induct)
  case (create junk hdr zero h zsl hash)
  then show ?case using zset_create_ok(1) unfolding zset_inv_def by blast
next
  case (add zs new rs can_resize junk score ele flags zs' reply)
  then show ?case using zsetAdd_inv [of zs new rs fadd can_resize junk score ele flags] by auto
next
  case (del zs can_resize ele zs' found)
  then show ?case using zset_ops_inv(1) [of zs can_resize ele] by auto
next
  case (score zs ele zs' s)
  then show ?case using zset_ops_inv(2) [of zs ele] by auto
next
  case (rank zs ele reverse zs' r)
  then show ?case using zset_ops_inv(3) [of zs ele reverse] by auto
next
  case (remrange_score zs can_resize rng zs' deleted)
  then show ?case using zset_ops_inv(4) [of zs can_resize rng] by auto
next
  case (remrange_rank zs can_resize start0 end0 zs' deleted)
  then show ?case using zset_ops_inv(5) [of zs can_resize start0 end0] by auto
qed

lemma nths_same: "(\<And>q. q < length xs \<Longrightarrow> q \<in> A \<longleftrightarrow> q \<in> B) \<Longrightarrow> nths xs A = nths xs B"
  unfolding nths_def by (intro arg_cong [where f = "map fst"] filter_cong) (auto simp: set_zip)

lemma nths_outside:
  "a \<le> b \<Longrightarrow> nths xs {q. \<not> (a \<le> q \<and> q < b)} = take a xs @ drop b xs"
proof (induction xs arbitrary: a b)
  case (Cons x xs)
  show ?case
  proof (cases a)
    case 0
    have "{j. Suc j \<in> {q. \<not> (a \<le> q \<and> q < b)}} = {q. \<not> (0 \<le> q \<and> q < b - 1)}" using 0 by auto
    then show ?thesis using Cons.IH [of 0 "b - 1"] 0 by (cases b) (auto simp: nths_Cons)
  next
    case (Suc a')
    then obtain b' where b: "b = Suc b'" using Cons.prems by (cases b) auto
    have "{j. Suc j \<in> {q. \<not> (a \<le> q \<and> q < b)}} = {q. \<not> (a' \<le> q \<and> q < b')}" using Suc b by auto
    then show ?thesis using Cons.IH [of a' b'] Cons.prems Suc b by (simp add: nths_Cons)
  qed
qed simp

lemma zremrange_bounds_nths:
  fixes xs :: "'a list"
  defines "lo \<equiv> \<lambda>i. if i < 0 then int (length xs) + i else i"
  shows "(case zremrange_bounds (int (length xs)) i j of None \<Rightarrow> xs
       | Some (s, e) \<Rightarrow> take (nat s) xs @ drop (nat (e + 1)) xs) = nths xs {q. \<not> (lo i \<le> int q \<and> int q \<le> lo j)}"
proof (cases "zremrange_bounds (int (length xs)) i j")
  case None
  then have "nths xs {q. \<not> (lo i \<le> int q \<and> int q \<le> lo j)} = nths xs UNIV"
    by (intro nths_same) (auto simp: zremrange_bounds_def lo_def Let_def split: if_splits)
  with None show ?thesis by (simp add: nths_all)
next
  case (Some p)
  obtain s e where p: "p = (s, e)" by (cases p)
  have b: "0 \<le> s" "s \<le> e" "e < int (length xs)" using Some p by (auto simp: zremrange_bounds_def Let_def split: if_splits)
  have "nths xs {q. \<not> (lo i \<le> int q \<and> int q \<le> lo j)} = nths xs {q. \<not> (nat s \<le> q \<and> q < nat (e + 1))}"
    using Some p by (intro nths_same) (auto simp: zremrange_bounds_def lo_def Let_def split: if_splits)
  with nths_outside [of "nat s" "nat (e + 1)" xs] b Some p show ?thesis by simp
qed

section \<open>Properties of skip lists\<close>

text \<open>A skip list with two elements, for the examples below.\<close>

lemma ex_zsl:
  obtains h z and ns :: "int znode list" where "zrep h z ns" "map key ns = [(1, [98]), (2, [97])]" "h 7 = None"
proof -
  obtain h0 z0 where 0: "zslCreate (None, 0) 0 0 Map.empty = Some (h0, z0)" "zrep h0 z0 ([] :: int znode list)"
    "\<And>a. a \<noteq> 0 \<Longrightarrow> h0 a = None" by (rule zslCreate_zrep [of "(None, 0)" 0 0 Map.empty]) auto
  have L: "zslRandomLevel [65535] = Some 1" by (simp add: zslRandomLevel_def ZSKIPLIST_MAXLEVEL_def)
  let ?n1 = "(1, 1, 2, [97]) :: int znode" and ?n2 = "(2, 1, 1, [98]) :: int znode"
  have h01: "h0 1 = None" using 0(3) by simp
  obtain h1 z1 where "zrep h1 z1 (before (2, [97]) [] @ ?n1 # drop (length (before (2 :: int, [97]) [])) [])"
    and 1: "\<And>a. a \<noteq> 1 \<Longrightarrow> h1 a = None \<longleftrightarrow> h0 a = None"
    by (rule zslInsert_zrep [OF 0(2) h01 L, of 2 "[97]" "(None, 0)"]) (simp, blast)
  then have z1: "zrep h1 z1 [?n1]" by simp
  have h12: "h1 2 = None" using 0(3) 1 by simp
  obtain h2 z2 where "zrep h2 z2 (before (1, [98]) [?n1] @ ?n2 # drop (length (before (1, [98]) [?n1])) [?n1])"
    and 2: "\<And>a. a \<noteq> 2 \<Longrightarrow> h2 a = None \<longleftrightarrow> h1 a = None"
    by (rule zslInsert_zrep [OF z1 h12 L, of 1 "[98]" "(None, 0)"]) (simp, blast)
  then have "zrep h2 z2 [?n2, ?n1]" by simp
  then show ?thesis using that [of h2 z2] 0(3) 1 2 by simp
qed



text \<open>C12: Deletion reports whether the element with this score is in the list, and removes it from
  the sequence; levels that become empty are dropped, so the invariant of the list holds again.\<close>

theorem zslDelete_removes:
  assumes "zrep h z ns"
  shows "\<exists>h' z' ns'. zslDelete score ele h z = Some (h', z', (score, ele) \<in> set (map key ns)) \<and> zrep h' z' ns' \<and>
    map key ns' = remove1 (score, ele) (map key ns)"
  by (rule zslDelete_zrep [OF assms, of score ele]) (auto simp only: set_map)

theorem zslDelete_removes_witness:
  "\<exists>h z ns h' z' ns'. zslDelete (1 :: int) [98] h z = Some (h', z', True) \<and> zrep h z ns \<and> zrep h' z' ns' \<and> map key ns' = [(2, [97])]"
proof -
  obtain h z and ns :: "int znode list" where e: "zrep h z ns" "map key ns = [(1, [98]), (2, [97])]" by (rule ex_zsl)
  have k: "(1, [98]) \<in> set (map key ns) \<longleftrightarrow> True" "remove1 (1, [98]) (map key ns) = [(2, [97])]" unfolding e(2) by simp_all
  note r = zslDelete_removes [OF e(1), of 1 "[98]", unfolded k]
  show ?thesis by (rule exI [of _ h], rule exI [of _ z], rule exI [of _ ns]) (use r e(1) in fastforce)
qed



text \<open>C15: The rank of an element is its position counted from 1, computed from the spans of the
  pointers followed, and the lookup by that rank returns the node of the element; ranks beyond the
  length return no node.\<close>

theorem zsl_rank_roundtrip:
  assumes "zrep h z ns" "distinct (map (\<lambda>n. snd (key n)) ns)"
  shows "(\<forall>q < length ns. zslGetRank (fst (key (ns ! q))) (snd (key (ns ! q))) h z = Some (q + 1) \<and>
      zslGetElementByRank (q + 1) h z = Some (Some (fst (ns ! q)))) \<and>
    (\<forall>r > length ns. zslGetElementByRank r h z = Some None)"
proof (intro conjI allI impI)
  fix q assume q: "q < length ns"
  have "fst (key n) = fst (key (ns ! q))" if "n \<in> set ns" "snd (key n) = snd (key (ns ! q))" for n
    using assms(2) that q by (metis distinct_map inj_onD nth_mem)
  from zslGetRank_zrep(2) [OF assms(1) this q]
  show "zslGetRank (fst (key (ns ! q))) (snd (key (ns ! q))) h z = Some (q + 1)" by (simp del: One_nat_def)
  show "zslGetElementByRank (q + 1) h z = Some (Some (fst (ns ! q)))" using q by (simp add: zslGetElementByRank_zrep [OF assms(1)])
qed (simp add: zslGetElementByRank_zrep [OF assms(1)])

theorem zsl_rank_roundtrip_witness:
  "\<exists>h z. zslGetRank (2 :: int) [97] h z = Some 2 \<and> zslGetElementByRank 3 h z = Some None"
proof -
  obtain h z and ns :: "int znode list" where e: "zrep h z ns" "map key ns = [(1, [98]), (2, [97])]" by (rule ex_zsl)
  have "map (\<lambda>n. snd (key n)) ns = map snd (map key ns)" by simp
  then have d: "distinct (map (\<lambda>n. snd (key n)) ns)" unfolding e(2) by simp
  have l: "length ns = 2" using arg_cong [OF e(2), of length] by simp
  have k: "key (ns ! 1) = (2, [97])" using nth_map [of 1 ns key] l unfolding e(2) by simp
  from zsl_rank_roundtrip [OF e(1) d] l have "zslGetRank (fst (key (ns ! 1))) (snd (key (ns ! 1))) h z = Some (1 + 1)"
    "zslGetElementByRank 3 h z = Some None" by auto
  then show ?thesis unfolding k by (intro exI [of _ h] exI [of _ z]) (simp add: numeral_2_eq_2)
qed

text \<open>C16: The first and the last node of a score range are the first and the last element of the
  sequence whose score lies between the bounds, inclusive or exclusive; both lookups return no node
  exactly when no element does, also for ranges whose bounds cross and for the empty list.\<close>

theorem zsl_score_range_ends:
  assumes "zrep h z ns"
  shows "zslFirstInRange h z rng =
      Some (map_option fst (find (\<lambda>n. zslValueGteMin (fst (key n)) rng \<and> zslValueLteMax (fst (key n)) rng) ns)) \<and>
    zslLastInRange h z rng =
      Some (map_option fst (find (\<lambda>n. zslValueGteMin (fst (key n)) rng \<and> zslValueLteMax (fst (key n)) rng) (rev ns)))"
  using zslFirstInRange_zrep [OF assms] zslLastInRange_zrep [OF assms] by blast

theorem zsl_score_range_ends_witness:
  "\<exists>h z a. zslFirstInRange h z \<lparr>zr_min = 1 :: int, zr_max = 5, zr_minex = True, zr_maxex = False\<rparr> = Some (Some a) \<and>
    map_option z_ele (h a) = Some (Some [97])"
proof -
  obtain h z and ns :: "int znode list" where e: "zrep h z ns" "map key ns = [(1, [98]), (2, [97])]" by (rule ex_zsl)
  then obtain m n where ns: "ns = [m, n]" "key m = (1, [98])" "key n = (2, [97])" by (auto simp: map_eq_Cons_conv)
  let ?rng = "\<lparr>zr_min = 1 :: int, zr_max = 5, zr_minex = True, zr_maxex = False\<rparr>"
  have "find (\<lambda>n. zslValueGteMin (fst (key n)) ?rng \<and> zslValueLteMax (fst (key n)) ?rng) ns = Some n"
    using ns by (simp add: zslValueGteMin_def zslValueLteMax_def)
  with zsl_score_range_ends [OF e(1), of ?rng] have f: "zslFirstInRange h z ?rng = Some (Some (fst n))" by simp
  obtain nd where "h (fst n) = Some nd" "z_ele nd = Some [97]" by (rule zrep_node_in [OF e(1), of n]) (use ns in auto)
  with f show ?thesis by (intro exI [of _ h] exI [of _ z] exI [of _ "fst n"]) simp
qed



text \<open>The number of levels of a new node is between 1 and 64 as soon as one of the coin flips
  ends the loop, so the level arrays of the node and of the header are never exceeded.\<close>

lemma zslRandomLevel_in_bounds:
  assumes "\<exists>r \<in> set rs. r mod 0x10000 > 16383"
  shows "\<exists>L. zslRandomLevel rs = Some L \<and> 1 \<le> L \<and> L \<le> ZSKIPLIST_MAXLEVEL"
proof -
  have "\<exists>l. random_level_loop rs k = Some l" for k
    using assms by (induction rs k rule: random_level_loop.induct) auto
  then obtain L where "zslRandomLevel rs = Some L" by (fastforce simp: zslRandomLevel_def)
  with zslRandomLevel_bounds show ?thesis by blast
qed

section \<open>Properties of sorted sets\<close>

text \<open>Sorted sets for the examples below: a new one, and one with the element \<open>a\<close> of score 5.\<close>

lemma ex_zset0:
  obtains zs :: "int zset" where "zset_reach (\<lambda>a b. Some (a + b)) zs" "zset_map zs = Map.empty" "zset_inv zs"
    "dict_room (zs_dict zs)" "zs_heap zs 1 = None"
proof -
  obtain h z where 0: "zslCreate (None, 0) 0 (0 :: int) Map.empty = Some (h, z)" "\<And>a. a \<noteq> 0 \<Longrightarrow> h a = None"
    by (rule zslCreate_zrep [of "(None, 0)" 0 0 Map.empty]) auto
  let ?zs = "\<lparr>zs_dict = dictCreate (zsetDictType (\<lambda>_. 0)), zs_heap = h, zs_zsl = z\<rparr>"
  have r: "zset_reach (\<lambda>a b. Some (a + b)) ?zs" by (rule zset_reach.create [OF 0(1)])
  show ?thesis using that [OF r] zset_create_ok(2) [OF 0(1)] zset_reach_ok [OF r] 0(2)
    by (simp add: dict_room_def dictCreate_ok)
qed

lemma ex_zset1:
  obtains zs :: "int zset" where "zset_reach (\<lambda>a b. Some (a + b)) zs" "zset_map zs = [[97] \<mapsto> 5]" "zset_inv zs"
proof -
  obtain zs :: "int zset" where 0: "zset_reach (\<lambda>a b. Some (a + b)) zs" "zset_map zs = Map.empty" "zset_inv zs"
    "dict_room (zs_dict zs)" "zs_heap zs 1 = None" by (rule ex_zset0)
  let ?fl = "\<lparr>zadd_incr = False, zadd_nx = False, zadd_xx = False\<rparr>"
  have L: "zslRandomLevel [65535] \<noteq> None" by (simp add: zslRandomLevel_def)
  from zsetAdd_inv [OF 0(3-5) L, of "\<lambda>a b. Some (a + b)" True "(None, 0)" "Some 5" "[97]" ?fl]
  obtain zs' r where a: "zsetAdd (\<lambda>a b. Some (a + b)) True (None, 0) [65535] 1 (Some 5) [97] ?fl zs = Some (zs', r)"
    "zset_map zs' = [[97] \<mapsto> 5]" "zset_inv zs'" unfolding 0(2) zadd_spec_def by auto
  show ?thesis using that zset_reach.add [OF 0(1,4,5) L a(1)] a(2,3) by blast
qed





text \<open>C28: \<open>zsetDel\<close> removes an element from the map and says whether it was there; the assertion
  that the skip list has the element too never fails.\<close>

theorem zsetDel_refines:
  assumes "zset_inv zs"
  shows "\<exists>zs'. zsetDel can_resize e zs = Some (zs', zset_map zs e \<noteq> None) \<and> zset_inv zs' \<and>
    zset_map zs' = (zset_map zs)(e := None)"
  by (rule zset_ops_inv(1) [OF assms])

theorem zsetDel_refines_witness:
  "\<exists>zs zs'. zset_map zs = [[97] \<mapsto> (5 :: int)] \<and> zsetDel True [97] zs = Some (zs', True) \<and> zset_map zs' = Map.empty"
proof -
  obtain zs :: "int zset" where e: "zset_map zs = [[97] \<mapsto> 5]" "zset_inv zs" by (rule ex_zset1)
  from zsetDel_refines [OF e(2), of True "[97]"] e(1) show ?thesis by - (rule exI [of _ zs], auto)
qed

text \<open>C29: \<open>zsetRank\<close> returns the number of elements that come before an element in the order by
  score and bytes, or behind it for the reverse rank, and -1 for an element that is not in the set;
  the assertion that an element has a rank never fails.\<close>

theorem zsetRank_counts:
  assumes "zset_inv zs"
  shows "\<exists>zs'. zsetRank e reverse zs = Some (zs',
      case zset_map zs e of
        None \<Rightarrow> - 1
      | Some s \<Rightarrow> int (card {k. zset_map zs (snd k) = Some (fst k) \<and> (if reverse then (s, e) < k else k < (s, e))})) \<and>
    zset_inv zs' \<and> zset_map zs' = zset_map zs"
  using zset_ops_inv(3) [OF assms, of e reverse] unfolding zset_rank_def .

theorem zsetRank_counts_witness:
  "\<exists>zs zs'. zset_map zs = [[97] \<mapsto> (5 :: int)] \<and> zsetRank [98] False zs = Some (zs', - 1)"
proof -
  obtain zs :: "int zset" where e: "zset_map zs = [[97] \<mapsto> 5]" "zset_inv zs" by (rule ex_zset1)
  from zsetRank_counts [OF e(2), of "[98]" False] e(1) show ?thesis by - (rule exI [of _ zs], auto)
qed

text \<open>C30: Removing a range of scores deletes exactly the elements whose score is in the range, from
  the skip list and from the hash table, and returns how many there were.\<close>

theorem zremrange_score_removes:
  assumes "zset_ok zs ns"
  shows "\<exists>zs' ns'. zremrange can_resize (ZRANGE_SCORE rng) zs = Some (zs', length ns - length ns') \<and> zset_ok zs' ns' \<and>
    ns' = filter (\<lambda>n. \<not> (zslValueGteMin (fst (key n)) rng \<and> zslValueLteMax (fst (key n)) rng)) ns \<and>
    zset_map zs' = (\<lambda>e. case zset_map zs e of None \<Rightarrow> None
       | Some s \<Rightarrow> if \<not> (zslValueGteMin s rng \<and> zslValueLteMax s rng) then Some s else None)"
  by (rule zremrange_score_sim [OF assms])

theorem zremrange_score_removes_witness:
  "\<exists>zs zs' c. zset_map zs = [[97] \<mapsto> (5 :: int)] \<and>
    zremrange True (ZRANGE_SCORE \<lparr>zr_min = 5, zr_max = 7, zr_minex = False, zr_maxex = False\<rparr>) zs = Some (zs', c) \<and>
    zset_map zs' [97] = None"
proof -
  obtain zs :: "int zset" where e: "zset_map zs = [[97] \<mapsto> 5]" "zset_inv zs" by (rule ex_zset1)
  then obtain ns where "zset_ok zs ns" by (auto simp: zset_inv_def)
  from zremrange_score_removes [OF this, of True "\<lparr>zr_min = 5, zr_max = 7, zr_minex = False, zr_maxex = False\<rparr>"] e(1)
  show ?thesis by - (rule exI [of _ zs], auto simp: zslValueGteMin_def zslValueLteMax_def)
qed



end
