(* ===== verification/Sds.thy ===== *)
theory Sds
  imports Bytes Refine Util
begin

text \<open>
  The dynamic strings of \<open>sds.h\<close> and \<open>sds.c\<close>, down to the header in front of the bytes.  A string is
  the packed header (\<open>len\<close> and \<open>alloc\<close> at the width of its type, and the flags byte) and the block of
  bytes behind it.  The five header types, the truncation of what is stored into them and the
  arithmetic of \<open>size_t\<close> are written out.  \<open>None\<close> is an access outside the block or a failed \<open>assert\<close>.
  \<open>s_malloc\<close> and \<open>s_realloc\<close> do not return \<open>NULL\<close>: \<open>zmalloc.c\<close> aborts when memory is exhausted.  The
  bytes of a fresh block are the parameter \<open>junk\<close>.
\<close>

section \<open>The header (\<open>sds.h\<close>)\<close>

record sds =
  sh_len :: nat
  sh_alloc :: nat
  sds_flags :: byte
  sds_buf :: "byte list"

abbreviation (input) SDS_TYPE_5 :: nat where "SDS_TYPE_5 \<equiv> 0"
abbreviation (input) SDS_TYPE_8 :: nat where "SDS_TYPE_8 \<equiv> Suc 0"
abbreviation (input) SDS_TYPE_16 :: nat where "SDS_TYPE_16 \<equiv> 2"
abbreviation (input) SDS_TYPE_32 :: nat where "SDS_TYPE_32 \<equiv> 3"
abbreviation (input) SDS_TYPE_64 :: nat where "SDS_TYPE_64 \<equiv> 4"
abbreviation (input) SDS_MAX_PREALLOC :: nat where "SDS_MAX_PREALLOC \<equiv> 1024 * 1024"
abbreviation (input) SIZE_MOD :: nat where "SIZE_MOD \<equiv> 18446744073709551616"

text \<open>\<open>s[-1] & SDS_TYPE_MASK\<close>.\<close>

definition sds_type :: "sds \<Rightarrow> nat" where
  "sds_type s = unat (sds_flags s AND 7)"

text \<open>The width of the fields \<open>len\<close> and \<open>alloc\<close> of \<open>struct sdshdr8\<close> to \<open>struct sdshdr64\<close>.\<close>

definition sdshdr_bits :: "nat \<Rightarrow> nat" where
  "sdshdr_bits t =
    (if t = SDS_TYPE_8 then 8 else if t = SDS_TYPE_16 then 16 else if t = SDS_TYPE_32 then 32 else 64)"

definition SDS_TYPE_5_LEN :: "byte \<Rightarrow> nat" where
  "SDS_TYPE_5_LEN f = unat (drop_bit 3 f)"

definition sdslen :: "sds \<Rightarrow> nat" where
  "sdslen s =
    (if sds_type s = SDS_TYPE_5 then SDS_TYPE_5_LEN (sds_flags s)
     else if sds_type s \<le> SDS_TYPE_64 then sh_len s
     else 0)"

text \<open>
  \<open>sh->alloc - sh->len\<close>: a difference of \<open>int\<close>s converted to \<open>size_t\<close> for the two small types, of
  \<open>uint32_t\<close>s and of \<open>uint64_t\<close>s for the others.
\<close>

definition sdsavail :: "sds \<Rightarrow> nat" where
  "sdsavail s =
    (let d = int (sh_alloc s) - int (sh_len s) in
     if sds_type s = SDS_TYPE_5 then 0
     else if sds_type s = SDS_TYPE_32 then nat (d mod 4294967296)
     else if sds_type s \<le> SDS_TYPE_64 then nat (d mod 18446744073709551616)
     else 0)"

definition sdssetlen :: "sds \<Rightarrow> nat \<Rightarrow> sds" where
  "sdssetlen s newlen =
    (if sds_type s = SDS_TYPE_5 then s\<lparr>sds_flags := push_bit 3 (of_nat newlen)\<rparr>
     else if sds_type s \<le> SDS_TYPE_64 then s\<lparr>sh_len := newlen mod 2 ^ sdshdr_bits (sds_type s)\<rparr>
     else s)"

definition sdsinclen :: "sds \<Rightarrow> nat \<Rightarrow> sds" where
  "sdsinclen s inc =
    (if sds_type s = SDS_TYPE_5 then
       (let newlen = (SDS_TYPE_5_LEN (sds_flags s) + inc) mod 256 in s\<lparr>sds_flags := push_bit 3 (of_nat newlen)\<rparr>)
     else if sds_type s \<le> SDS_TYPE_64 then
       s\<lparr>sh_len := (sh_len s + inc) mod 2 ^ sdshdr_bits (sds_type s)\<rparr>
     else s)"

definition sdsalloc :: "sds \<Rightarrow> nat" where
  "sdsalloc s =
    (if sds_type s = SDS_TYPE_5 then SDS_TYPE_5_LEN (sds_flags s)
     else if sds_type s \<le> SDS_TYPE_64 then sh_alloc s
     else 0)"

definition sdssetalloc :: "sds \<Rightarrow> nat \<Rightarrow> sds" where
  "sdssetalloc s newlen =
    (if sds_type s = SDS_TYPE_5 then s
     else if sds_type s \<le> SDS_TYPE_64 then s\<lparr>sh_alloc := newlen mod 2 ^ sdshdr_bits (sds_type s)\<rparr>
     else s)"

section \<open>Creating and resizing (\<open>sds.c\<close>)\<close>

definition sdsHdrSize :: "nat \<Rightarrow> nat" where
  "sdsHdrSize t =
    (if t mod 8 = SDS_TYPE_5 then 1
     else if t mod 8 = SDS_TYPE_8 then 3
     else if t mod 8 = SDS_TYPE_16 then 5
     else if t mod 8 = SDS_TYPE_32 then 9
     else if t mod 8 = SDS_TYPE_64 then 17
     else 0)"

definition sdsReqType :: "nat \<Rightarrow> nat" where
  "sdsReqType string_size =
    (if string_size < 2 ^ 5 then SDS_TYPE_5
     else if string_size < 2 ^ 8 then SDS_TYPE_8
     else if string_size < 2 ^ 16 then SDS_TYPE_16
     else if string_size < 2 ^ 32 then SDS_TYPE_32
     else SDS_TYPE_64)"

text \<open>
  The bytes behind the header of a block of \<open>hdrlen + n + 1\<close> bytes, a sum of \<open>size_t\<close>: when it wraps
  around so far that the header does not fit, the next write to the header is out of bounds.
\<close>

definition block_size :: "nat \<Rightarrow> nat \<Rightarrow> nat option" where
  "block_size hdrlen n =
    (let total = (hdrlen + n + 1) mod SIZE_MOD in if total < hdrlen then None else Some (total - hdrlen))"

text \<open>The argument \<open>init\<close> of \<open>sdsnewlen\<close>: \<open>NULL\<close>, \<open>SDS_NOINIT\<close> or a buffer.\<close>

datatype sds_init = Init_NULL | Init_NOINIT | Init_bytes "byte list"

definition sdsnewlen :: "(nat \<Rightarrow> byte) \<Rightarrow> sds_init \<Rightarrow> nat \<Rightarrow> sds option" where
  "sdsnewlen junk init initlen =
    (let type0 = sdsReqType initlen;
         type = (if type0 = SDS_TYPE_5 \<and> initlen = 0 then SDS_TYPE_8 else type0);
         hdrlen = sdsHdrSize type
     in do {
       room \<leftarrow> block_size hdrlen initlen;
       let block = (if init = Init_NULL then replicate room 0 else map junk [0..<room]);
       let s =
         (if type = SDS_TYPE_5 then
            \<lparr>sh_len = 0, sh_alloc = 0, sds_flags = push_bit 3 (of_nat initlen), sds_buf = block\<rparr>
          else
            \<lparr>sh_len = initlen mod 2 ^ sdshdr_bits type, sh_alloc = initlen mod 2 ^ sdshdr_bits type,
             sds_flags = of_nat type, sds_buf = block\<rparr>);
       b \<leftarrow> (case init of
               Init_bytes bs \<Rightarrow>
                 (if initlen \<noteq> 0 then do { src \<leftarrow> mem_get 0 initlen bs; mem_put 0 src block } else Some block)
             | _ \<Rightarrow> Some block);
       b \<leftarrow> mem_put initlen [0] b;
       Some (s\<lparr>sds_buf := b\<rparr>)
     })"

definition sdsempty :: "(nat \<Rightarrow> byte) \<Rightarrow> sds option" where
  "sdsempty junk = sdsnewlen junk (Init_bytes [0]) 0"

text \<open>\<open>strlen\<close>: the buffer must hold a terminating zero.\<close>

definition c_strlen :: "byte list \<Rightarrow> nat option" where
  "c_strlen bs = (if 0 \<in> set bs then Some (length (takeWhile (\<lambda>c. c \<noteq> 0) bs)) else None)"

definition sdsnew :: "(nat \<Rightarrow> byte) \<Rightarrow> byte list option \<Rightarrow> sds option" where
  "sdsnew junk init =
    (case init of
       None \<Rightarrow> sdsnewlen junk Init_NULL 0
     | Some bs \<Rightarrow> do { initlen \<leftarrow> c_strlen bs; sdsnewlen junk (Init_bytes bs) initlen })"

definition sdsdup :: "(nat \<Rightarrow> byte) \<Rightarrow> sds \<Rightarrow> sds option" where
  "sdsdup junk s = sdsnewlen junk (Init_bytes (sds_buf s)) (sdslen s)"

definition sdsupdatelen :: "sds \<Rightarrow> sds option" where
  "sdsupdatelen s = do { reallen \<leftarrow> c_strlen (sds_buf s); Some (sdssetlen s reallen) }"

definition sdsclear :: "sds \<Rightarrow> sds option" where
  "sdsclear s =
    (let s1 = sdssetlen s 0 in do { b \<leftarrow> mem_put 0 [0] (sds_buf s1); Some (s1\<lparr>sds_buf := b\<rparr>) })"

text \<open>
  Moving the string to a fresh block with another header, as \<open>sdsMakeRoomFor\<close> and
  \<open>sdsRemoveFreeSpace\<close> do: \<open>memcpy\<close> of \<open>len + 1\<close> bytes, then the type and the length.
\<close>

definition sds_move :: "(nat \<Rightarrow> byte) \<Rightarrow> nat \<Rightarrow> nat \<Rightarrow> sds \<Rightarrow> sds option" where
  "sds_move junk type room s =
    (let len = sdslen s in do {
       src \<leftarrow> mem_get 0 (len + 1) (sds_buf s);
       b \<leftarrow> mem_put 0 src (map junk [0..<room]);
       Some (sdssetlen (s\<lparr>sds_flags := of_nat type, sds_buf := b\<rparr>) len)
     })"

definition sdsMakeRoomFor :: "(nat \<Rightarrow> byte) \<Rightarrow> sds \<Rightarrow> nat \<Rightarrow> sds option" where
  "sdsMakeRoomFor junk s addlen =
    (if sdsavail s \<ge> addlen then Some s
     else
       (let oldtype = sds_type s;
            len = sdslen s;
            newlen0 = (len + addlen) mod SIZE_MOD;
            newlen = (if newlen0 < SDS_MAX_PREALLOC then newlen0 * 2 else (newlen0 + SDS_MAX_PREALLOC) mod SIZE_MOD);
            type0 = sdsReqType newlen;
            type = (if type0 = SDS_TYPE_5 then SDS_TYPE_8 else type0);
            hdrlen = sdsHdrSize type
        in do {
          room \<leftarrow> block_size hdrlen newlen;
          s1 \<leftarrow> (if oldtype = type then Some (s\<lparr>sds_buf := mem_realloc junk room (sds_buf s)\<rparr>)
                else sds_move junk type room s);
          Some (sdssetalloc s1 newlen)
        }))"

definition sdsRemoveFreeSpace :: "(nat \<Rightarrow> byte) \<Rightarrow> sds \<Rightarrow> sds option" where
  "sdsRemoveFreeSpace junk s =
    (let oldtype = sds_type s;
         oldhdrlen = sdsHdrSize oldtype;
         len = sdslen s
     in if sdsavail s = 0 then Some s
        else
          (let type = sdsReqType len;
               hdrlen = sdsHdrSize type
           in do {
             s1 \<leftarrow> (if oldtype = type \<or> type > SDS_TYPE_8 then do {
                      room \<leftarrow> block_size oldhdrlen len;
                      Some (s\<lparr>sds_buf := mem_realloc junk room (sds_buf s)\<rparr>)
                    } else do {
                      room \<leftarrow> block_size hdrlen len;
                      sds_move junk type room s
                    });
             Some (sdssetalloc s1 len)
           }))"

definition sdsAllocSize :: "sds \<Rightarrow> nat" where
  "sdsAllocSize s = sdsHdrSize (sds_type s) + sdsalloc s + 1"

text \<open>
  \<open>sdsIncrLen\<close>.  The casts to \<open>unsigned int\<close> in the assertions drop the high bits of \<open>incr\<close>.
\<close>

definition u32_of :: "int \<Rightarrow> nat" where
  "u32_of x = nat (x mod 4294967296)"

definition u64_of :: "int \<Rightarrow> nat" where
  "u64_of x = nat (x mod 18446744073709551616)"

definition sdsIncrLen :: "sds \<Rightarrow> int \<Rightarrow> sds option" where
  "sdsIncrLen s incr =
    (let t = sds_type s;
         len = sdslen s;
         free = int (sh_alloc s) - int (sh_len s);
         ok = (if t = SDS_TYPE_5 then incr > 0 \<and> int len + incr < 32 \<or> incr < 0 \<and> len \<ge> u32_of (- incr)
               else if t = SDS_TYPE_32 then
                 incr \<ge> 0 \<and> u32_of free \<ge> u32_of incr \<or> incr < 0 \<and> len \<ge> u32_of (- incr)
               else if t = SDS_TYPE_64 then
                 incr \<ge> 0 \<and> u64_of free \<ge> u64_of incr \<or> incr < 0 \<and> len \<ge> u64_of (- incr)
               else incr \<ge> 0 \<and> free \<ge> incr \<or> incr < 0 \<and> len \<ge> u32_of (- incr))
     in if t > SDS_TYPE_64 then do { b \<leftarrow> mem_put 0 [0] (sds_buf s); Some (s\<lparr>sds_buf := b\<rparr>) }
        else if \<not> ok then None
        else
          (let s1 = sdssetlen s (u64_of (int len + incr));
               newlen = (if t = SDS_TYPE_5 then u64_of (int len + incr) else sdslen s1)
           in do { b \<leftarrow> mem_put newlen [0] (sds_buf s1); Some (s1\<lparr>sds_buf := b\<rparr>) }))"

section \<open>Writing\<close>

definition sdsgrowzero :: "(nat \<Rightarrow> byte) \<Rightarrow> sds \<Rightarrow> nat \<Rightarrow> sds option" where
  "sdsgrowzero junk s len =
    (let curlen = sdslen s in
     if len \<le> curlen then Some s
     else do {
       s1 \<leftarrow> sdsMakeRoomFor junk s (len - curlen);
       b \<leftarrow> mem_put curlen (replicate (len - curlen + 1) 0) (sds_buf s1);
       Some (sdssetlen (s1\<lparr>sds_buf := b\<rparr>) len)
     })"

definition sdscatlen :: "(nat \<Rightarrow> byte) \<Rightarrow> sds \<Rightarrow> byte list \<Rightarrow> nat \<Rightarrow> sds option" where
  "sdscatlen junk s t len =
    (let curlen = sdslen s in do {
       s1 \<leftarrow> sdsMakeRoomFor junk s len;
       src \<leftarrow> mem_get 0 len t;
       b \<leftarrow> mem_put curlen src (sds_buf s1);
       let s2 = sdssetlen (s1\<lparr>sds_buf := b\<rparr>) ((curlen + len) mod SIZE_MOD);
       b \<leftarrow> mem_put ((curlen + len) mod SIZE_MOD) [0] (sds_buf s2);
       Some (s2\<lparr>sds_buf := b\<rparr>)
     })"

definition sdscat :: "(nat \<Rightarrow> byte) \<Rightarrow> sds \<Rightarrow> byte list \<Rightarrow> sds option" where
  "sdscat junk s t = do { n \<leftarrow> c_strlen t; sdscatlen junk s t n }"

definition sdscatsds :: "(nat \<Rightarrow> byte) \<Rightarrow> sds \<Rightarrow> sds \<Rightarrow> sds option" where
  "sdscatsds junk s t = sdscatlen junk s (sds_buf t) (sdslen t)"

definition sdscpylen :: "(nat \<Rightarrow> byte) \<Rightarrow> sds \<Rightarrow> byte list \<Rightarrow> nat \<Rightarrow> sds option" where
  "sdscpylen junk s t len = do {
     s1 \<leftarrow> (if sdsalloc s < len then sdsMakeRoomFor junk s (len - sdslen s) else Some s);
     src \<leftarrow> mem_get 0 len t;
     b \<leftarrow> mem_put 0 src (sds_buf s1);
     b \<leftarrow> mem_put len [0] b;
     Some (sdssetlen (s1\<lparr>sds_buf := b\<rparr>) len)
   }"

definition sdscpy :: "(nat \<Rightarrow> byte) \<Rightarrow> sds \<Rightarrow> byte list \<Rightarrow> sds option" where
  "sdscpy junk s t = do { n \<leftarrow> c_strlen t; sdscpylen junk s t n }"

text \<open>\<open>strchr(cset, c)\<close> is not \<open>NULL\<close>: for \<open>c = 0\<close> it finds the terminator of \<open>cset\<close>.\<close>

definition strchr_found :: "byte list \<Rightarrow> byte \<Rightarrow> bool" where
  "strchr_found cset c \<longleftrightarrow> c = 0 \<or> c \<in> set (takeWhile (\<lambda>c. c \<noteq> 0) cset)"

function trim_left :: "byte list \<Rightarrow> byte list \<Rightarrow> nat \<Rightarrow> nat \<Rightarrow> nat" where
  "trim_left b cset len sp =
    (if sp < len \<and> strchr_found cset (b ! sp) then trim_left b cset len (sp + 1) else sp)"
  by pat_completeness auto
termination
  by (relation "measure (\<lambda>(b, cset, len, sp). len - sp)") auto

function trim_right :: "byte list \<Rightarrow> byte list \<Rightarrow> int \<Rightarrow> int \<Rightarrow> int" where
  "trim_right b cset sp ep =
    (if ep > sp \<and> strchr_found cset (b ! nat ep) then trim_right b cset sp (ep - 1) else ep)"
  by pat_completeness auto
termination
  by (relation "measure (\<lambda>(b, cset, sp, ep). nat (ep - sp))") auto

declare trim_left.simps [simp del] trim_right.simps [simp del]

definition sdstrim :: "sds \<Rightarrow> byte list \<Rightarrow> sds option" where
  "sdstrim s cset =
    (let sp = trim_left (sds_buf s) cset (sdslen s) 0;
         ep = trim_right (sds_buf s) cset (int sp) (int (sdslen s) - 1);
         len = (if int sp > ep then 0 else nat (ep - int sp + 1))
     in do {
       b \<leftarrow> (if sp \<noteq> 0 then mem_move 0 sp len (sds_buf s) else Some (sds_buf s));
       b \<leftarrow> mem_put len [0] b;
       Some (sdssetlen (s\<lparr>sds_buf := b\<rparr>) len)
     })"

text \<open>\<open>sdsrange\<close>: \<open>len + start\<close> is a sum of \<open>size_t\<close> stored back into a \<open>ssize_t\<close>.\<close>

definition sdsrange :: "sds \<Rightarrow> int \<Rightarrow> int \<Rightarrow> sds option" where
  "sdsrange s start end' =
    (let len = sdslen s in
     if len = 0 then Some s
     else
       (let start1 = (if start < 0 then max 0 (ll_of_ull (u64_of (int len + start))) else start);
            end1 = (if end' < 0 then max 0 (ll_of_ull (u64_of (int len + end'))) else end');
            newlen1 = (if start1 > end1 then 0 else u64_of (end1 - start1 + 1));
            (start2, newlen2) =
              (if newlen1 \<noteq> 0 then
                 (if start1 \<ge> ll_of_ull len then (start1, 0)
                  else if end1 \<ge> ll_of_ull len then
                    (let end2 = int len - 1 in
                     (start1, if start1 > end2 then 0 else u64_of (end2 - start1 + 1)))
                  else (start1, newlen1))
               else (0, newlen1))
        in do {
          b \<leftarrow> (if start2 \<noteq> 0 \<and> newlen2 \<noteq> 0 then mem_move 0 (nat start2) newlen2 (sds_buf s)
               else Some (sds_buf s));
          b \<leftarrow> mem_put newlen2 [0] b;
          Some (sdssetlen (s\<lparr>sds_buf := b\<rparr>) newlen2)
        }))"

section \<open>The invariant\<close>

text \<open>
  \<open>sds_wf\<close>: the flags name one of the five types, the fields are within their width, the length is
  within the allocation and the block has room for the allocation and one byte more; the types with
  an \<open>alloc\<close> field know the size of the block exactly.  \<open>sds_ok\<close> adds the terminating zero.
\<close>

definition sds_bits :: "nat \<Rightarrow> nat" where
  "sds_bits t = (if t = SDS_TYPE_5 then 5 else sdshdr_bits t)"

definition sds_wf :: "sds \<Rightarrow> bool" where
  "sds_wf s \<longleftrightarrow>
    sds_type s \<le> SDS_TYPE_64 \<and> sdslen s < 2 ^ sds_bits (sds_type s) \<and>
    sdsalloc s < 2 ^ sds_bits (sds_type s) \<and> sdslen s \<le> sdsalloc s \<and> sdsalloc s + 1 \<le> length (sds_buf s) \<and>
    (sds_type s \<noteq> SDS_TYPE_5 \<longrightarrow> length (sds_buf s) = sdsalloc s + 1)"

definition sds_ok :: "sds \<Rightarrow> bool" where
  "sds_ok s \<longleftrightarrow> sds_wf s \<and> sds_buf s ! sdslen s = 0"

definition sds_val :: "sds \<Rightarrow> byte list" where
  "sds_val s = take (sdslen s) (sds_buf s)"

lemma flags5:
  assumes "n < 32"
  shows "push_bit 3 (of_nat n :: byte) AND 7 = 0" "SDS_TYPE_5_LEN (push_bit 3 (of_nat n)) = n"
proof -
  have "list_all (\<lambda>n. push_bit 3 (of_nat n :: byte) AND 7 = 0 \<and> SDS_TYPE_5_LEN (push_bit 3 (of_nat n)) = n) [0..<32]"
    by code_simp
  from all_upt_nat [OF this assms]
  show "push_bit 3 (of_nat n :: byte) AND 7 = 0" "SDS_TYPE_5_LEN (push_bit 3 (of_nat n)) = n" by auto
qed

lemma SDS_TYPE_5_LEN_less: "SDS_TYPE_5_LEN f < 32"
proof -
  have "SDS_TYPE_5_LEN f = unat f div 8" by (simp add: SDS_TYPE_5_LEN_def unat_drop_bit_eq drop_bit_nat_def)
  with unat_byte_less [of f] show ?thesis by linarith
qed

lemma flags_type: "t \<le> 4 \<Longrightarrow> unat ((of_nat t :: byte) AND 7) = t"
proof -
  have "list_all (\<lambda>t. unat ((of_nat t :: byte) AND 7) = t) [0..<5]" by code_simp
  then show "t \<le> 4 \<Longrightarrow> unat ((of_nat t :: byte) AND 7) = t" by (rule all_upt_nat) simp
qed

lemma sds_type_buf [simp]: "sds_type (s\<lparr>sds_buf := b\<rparr>) = sds_type s"
  by (simp add: sds_type_def)

lemma sdslen_buf [simp]: "sdslen (s\<lparr>sds_buf := b\<rparr>) = sdslen s"
  by (simp add: sdslen_def)

lemma sdsalloc_buf [simp]: "sdsalloc (s\<lparr>sds_buf := b\<rparr>) = sdsalloc s"
  by (simp add: sdsalloc_def)

lemma sdsavail_buf [simp]: "sdsavail (s\<lparr>sds_buf := b\<rparr>) = sdsavail s"
  by (simp add: sdsavail_def Let_def)

text \<open>Storing a length or a capacity that fits the type.\<close>

lemma sdssetlen_fits:
  assumes "sds_type s \<le> 4" "n < 2 ^ sds_bits (sds_type s)"
  shows "sds_type (sdssetlen s n) = sds_type s" "sdslen (sdssetlen s n) = n" "sds_buf (sdssetlen s n) = sds_buf s"
    "sdsalloc (sdssetlen s n) = (if sds_type s = SDS_TYPE_5 then n else sdsalloc s)"
    "sh_alloc (sdssetlen s n) = sh_alloc s"
proof -
  have *: "sds_type (sdssetlen s n) = sds_type s" "sds_buf (sdssetlen s n) = sds_buf s"
    "sh_alloc (sdssetlen s n) = sh_alloc s"
    using assms flags5 [of n] by (auto simp: sdssetlen_def sds_type_def sds_bits_def split: if_splits)
  then show "sds_type (sdssetlen s n) = sds_type s" "sds_buf (sdssetlen s n) = sds_buf s"
    "sh_alloc (sdssetlen s n) = sh_alloc s" by auto
  show "sdslen (sdssetlen s n) = n"
    using assms flags5 [of n] * by (cases "sds_type s = 0") (auto simp: sdslen_def sdssetlen_def sds_bits_def)
  show "sdsalloc (sdssetlen s n) = (if sds_type s = SDS_TYPE_5 then n else sdsalloc s)"
    using assms flags5 [of n] * by (cases "sds_type s = 0") (auto simp: sdsalloc_def sdssetlen_def sds_bits_def)
qed

lemma sdssetalloc_fits:
  assumes "sds_type s \<le> 4" "sds_type s \<noteq> SDS_TYPE_5" "n < 2 ^ sds_bits (sds_type s)"
  shows "sds_type (sdssetalloc s n) = sds_type s" "sdslen (sdssetalloc s n) = sdslen s"
    "sds_buf (sdssetalloc s n) = sds_buf s" "sdsalloc (sdssetalloc s n) = n"
proof -
  have *: "sds_type (sdssetalloc s n) = sds_type s" by (simp add: sdssetalloc_def sds_type_def)
  then show "sds_type (sdssetalloc s n) = sds_type s" .
  show "sdslen (sdssetalloc s n) = sdslen s" "sds_buf (sdssetalloc s n) = sds_buf s" "sdsalloc (sdssetalloc s n) = n"
    using assms * by (auto simp: sdslen_def sdsalloc_def sdssetalloc_def sds_bits_def)
qed

lemma sds_wf_avail: "sds_wf s \<Longrightarrow> sdsavail s = sdsalloc s - sdslen s"
  by (auto simp: sds_wf_def sdsavail_def sdslen_def sdsalloc_def sds_bits_def sdshdr_bits_def Let_def
      nat_diff_distrib split: if_splits intro!: mod_less) 

lemma sds_wf_facts:
  assumes "sds_wf s"
  shows "sds_type s \<le> 4" "sdslen s \<le> sdsalloc s" "sdslen s < length (sds_buf s)" "length (sds_val s) = sdslen s"
    "n \<le> sdsalloc s \<Longrightarrow> n < 2 ^ sds_bits (sds_type s)" "n \<le> sdsalloc s \<Longrightarrow> n < length (sds_buf s)"
  using assms by (auto simp: sds_wf_def sds_val_def)

lemma sds_len_alloc5: "sds_type s = SDS_TYPE_5 \<Longrightarrow> sdslen s = sdsalloc s"
  by (simp add: sdslen_def sdsalloc_def)

text \<open>Writing into the block and storing a length within the allocation.\<close>

lemma sds_setlen_wf:
  assumes "sds_wf s" "n \<le> sdsalloc s" "length b = length (sds_buf s)"
  shows "sds_wf (sdssetlen (s\<lparr>sds_buf := b\<rparr>) n)" "sds_val (sdssetlen (s\<lparr>sds_buf := b\<rparr>) n) = take n b"
    "sdslen (sdssetlen (s\<lparr>sds_buf := b\<rparr>) n) = n" "sds_buf (sdssetlen (s\<lparr>sds_buf := b\<rparr>) n) = b"
    "sds_type s \<noteq> SDS_TYPE_5 \<Longrightarrow> sdsalloc (sdssetlen (s\<lparr>sds_buf := b\<rparr>) n) = sdsalloc s"
proof -
  have n: "n < 2 ^ sds_bits (sds_type s)" and t: "sds_type s \<le> 4" using assms sds_wf_facts by blast+
  note f = sdssetlen_fits [of "s\<lparr>sds_buf := b\<rparr>" n, simplified, OF t n]
  show "sds_wf (sdssetlen (s\<lparr>sds_buf := b\<rparr>) n)"
    using assms n by (auto simp: sds_wf_def f sds_len_alloc5)
  show "sds_val (sdssetlen (s\<lparr>sds_buf := b\<rparr>) n) = take n b" "sdslen (sdssetlen (s\<lparr>sds_buf := b\<rparr>) n) = n"
    "sds_buf (sdssetlen (s\<lparr>sds_buf := b\<rparr>) n) = b"
    "sds_type s \<noteq> SDS_TYPE_5 \<Longrightarrow> sdsalloc (sdssetlen (s\<lparr>sds_buf := b\<rparr>) n) = sdsalloc s"
    by (auto simp: sds_val_def f)
qed

lemma sds_setlen_ok:
  assumes "sds_wf s" "n \<le> sdsalloc s" "length b = length (sds_buf s)" "b ! n = 0"
  shows "sds_ok (sdssetlen (s\<lparr>sds_buf := b\<rparr>) n)" "sds_val (sdssetlen (s\<lparr>sds_buf := b\<rparr>) n) = take n b"
  using sds_setlen_wf [OF assms(1-3)] assms(4) by (simp_all add: sds_ok_def)

lemma sdsReqType_fits: "n < SIZE_MOD \<Longrightarrow> n < 2 ^ sds_bits (sdsReqType n)" "sdsReqType n \<le> 4"
  by (auto simp: sdsReqType_def sds_bits_def sdshdr_bits_def)

lemma sds_bits_8: "(n :: nat) < 2 ^ sds_bits SDS_TYPE_5 \<Longrightarrow> n < 2 ^ sds_bits SDS_TYPE_8"
  by (simp add: sds_bits_def sdshdr_bits_def)

lemma block_size_fits: "hdrlen + n + 1 < SIZE_MOD \<Longrightarrow> block_size hdrlen n = Some (n + 1)"
  by (simp add: block_size_def Let_def)

lemma sdsHdrSize_le: "sdsHdrSize t \<le> 17"
  by (simp add: sdsHdrSize_def)

text \<open>A block of the given type with that length and that capacity.\<close>

definition sds_like :: "sds \<Rightarrow> nat \<Rightarrow> nat \<Rightarrow> sds \<Rightarrow> bool" where
  "sds_like s type newlen s' \<longleftrightarrow>
    sds_wf s' \<and> sds_type s' = type \<and> sdslen s' = sdslen s \<and>
    take (sdslen s + 1) (sds_buf s') = take (sdslen s + 1) (sds_buf s) \<and>
    (type \<noteq> SDS_TYPE_5 \<longrightarrow> sdsalloc s' = newlen)"

lemma sds_realloc_like:
  assumes "sds_wf s" "sds_type s \<noteq> SDS_TYPE_5" "n < 2 ^ sds_bits (sds_type s)" "sdslen s \<le> n"
  shows "sds_like s (sds_type s) n (sdssetalloc (s\<lparr>sds_buf := mem_realloc junk (n + 1) (sds_buf s)\<rparr>) n)"
  using assms sdssetalloc_fits [of "s\<lparr>sds_buf := mem_realloc junk (n + 1) (sds_buf s)\<rparr>" n]
  by (auto simp: sds_like_def sds_wf_def mem_realloc_def)

lemma sds_move_like:
  assumes "sds_wf s" "type \<le> 4" "sdslen s < 2 ^ sds_bits type" "n < 2 ^ sds_bits type" "sdslen s \<le> n"
    "type = SDS_TYPE_5 \<longrightarrow> n = sdslen s"
  shows "\<exists>s1. sds_move junk type (n + 1) s = Some s1 \<and> sds_like s type n (sdssetalloc s1 n)"
proof -
  define b where "b = take (sdslen s + 1) (sds_buf s) @ drop (sdslen s + 1) (map junk [0..<n + 1])"
  define s0 where "s0 = s\<lparr>sds_flags := of_nat type, sds_buf := b\<rparr>"
  have len: "sdslen s + 1 \<le> length (sds_buf s)" using assms(1) sds_wf_facts(3) by fastforce
  have mv: "sds_move junk type (n + 1) s = Some (sdssetlen s0 (sdslen s))"
    using len assms by (simp add: sds_move_def mem_get_def mem_put_def b_def s0_def Let_def)
  have t: "sds_type s0 = type" using flags_type [OF assms(2)] by (simp add: s0_def sds_type_def)
  note f = sdssetlen_fits [of s0 "sdslen s", unfolded t, OF assms(2,3)]
  have b: "sds_buf s0 = b" "length b = n + 1" using len assms(5) by (auto simp: s0_def b_def)
  have b': "take (sdslen s + 1) b = take (sdslen s + 1) (sds_buf s)" using len by (simp add: b_def)
  have "sds_like s type n (sdssetalloc (sdssetlen s0 (sdslen s)) n)"
  proof (cases "type = SDS_TYPE_5")
    case True
    then have "sdssetalloc (sdssetlen s0 (sdslen s)) n = sdssetlen s0 (sdslen s)"
      using f by (simp add: sdssetalloc_def)
    then show ?thesis using f b b' assms True by (simp add: sds_like_def sds_wf_def)
  next
    case False
    then show ?thesis using f b b' assms sdssetalloc_fits [of "sdssetlen s0 (sdslen s)" n]
      by (simp add: sds_like_def sds_wf_def)
  qed
  with mv show ?thesis by blast
qed

lemma take_Suc_eqD:
  assumes "take (n + 1) xs = take (n + 1) ys"
  shows "take n xs = take n ys" "xs ! n = ys ! n"
proof -
  have "take n (take (n + 1) xs) = take n (take (n + 1) ys)" "take (n + 1) xs ! n = take (n + 1) ys ! n"
    by (simp_all only: assms)
  then show "take n xs = take n ys" "xs ! n = ys ! n" by (simp_all add: min_def)
qed

lemma sds_like_val:
  assumes "sds_like s t n s'"
  shows "sds_val s' = sds_val s" "sds_ok s \<Longrightarrow> sds_ok s'"
  using assms take_Suc_eqD [of "sdslen s" "sds_buf s'" "sds_buf s"] by (auto simp: sds_like_def sds_ok_def sds_val_def)

text \<open>\<open>sdsMakeRoomFor\<close>.\<close>

definition room_len :: "nat \<Rightarrow> nat" where
  "room_len n = (if n < SDS_MAX_PREALLOC then n * 2 else n + SDS_MAX_PREALLOC)"

lemma sdsMakeRoomFor_spec:
  assumes "sds_wf s" "sdslen s + addlen + SDS_MAX_PREALLOC + 18 < SIZE_MOD"
  shows "\<exists>s'. sdsMakeRoomFor junk s addlen = Some s' \<and> sds_wf s' \<and> (sds_ok s \<longrightarrow> sds_ok s') \<and> sds_val s' = sds_val s \<and>
    sdslen s' = sdslen s \<and> sdslen s + addlen \<le> sdsalloc s' \<and>
    (s' = s \<or> sds_type s' \<noteq> SDS_TYPE_5 \<and> sdsalloc s' = room_len (sdslen s + addlen))"
proof (cases "sdsavail s \<ge> addlen")
  case True
  with assms sds_wf_avail [OF assms(1)] sds_wf_facts(2) [OF assms(1)] show ?thesis
    by (auto simp: sdsMakeRoomFor_def)
next
  case False
  define n where "n = room_len (sdslen s + addlen)"
  define ty where "ty = (if sdsReqType n = SDS_TYPE_5 then SDS_TYPE_8 else sdsReqType n)"
  have n: "n + 18 < SIZE_MOD" "sdslen s + addlen \<le> n" using assms(2) by (auto simp: n_def room_len_def)
  have ty: "ty \<le> 4" "ty \<noteq> SDS_TYPE_5" "n < 2 ^ sds_bits ty"
    using sdsReqType_fits [of n] n sds_bits_8 [of n] by (auto simp: ty_def)
  have bs: "block_size (sdsHdrSize ty) n = Some (n + 1)"
    using n sdsHdrSize_le [of ty] by (intro block_size_fits) linarith
  have "\<exists>s1. (if sds_type s = ty then Some (s\<lparr>sds_buf := mem_realloc junk (n + 1) (sds_buf s)\<rparr>)
              else sds_move junk ty (n + 1) s) = Some s1 \<and> sds_like s ty n (sdssetalloc s1 n)"
    using sds_realloc_like [OF assms(1), of n junk] sds_move_like [OF assms(1) ty(1) _ ty(3), of junk] ty n by auto
  then obtain s1 where s1: "(if sds_type s = ty then Some (s\<lparr>sds_buf := mem_realloc junk (n + 1) (sds_buf s)\<rparr>)
      else sds_move junk ty (n + 1) s) = Some s1" "sds_like s ty n (sdssetalloc s1 n)" by blast
  have "sdsMakeRoomFor junk s addlen = Some (sdssetalloc s1 n)"
  proof -
    have e: "(sdslen s + addlen) mod SIZE_MOD = sdslen s + addlen"
      "(if sdslen s + addlen < SDS_MAX_PREALLOC then (sdslen s + addlen) * 2
        else (sdslen s + addlen + SDS_MAX_PREALLOC) mod SIZE_MOD) = n"
      using assms(2) by (auto simp: n_def room_len_def)
    show ?thesis
      unfolding sdsMakeRoomFor_def Let_def e ty_def [symmetric] bs Option.bind.simps s1(1) using False by simp
  qed
  with s1(2) ty n(2) sds_like_val [OF s1(2)] show ?thesis
    by (auto simp: sds_like_def n_def)
qed

lemma sdsRemoveFreeSpace_spec:
  assumes "sds_wf s" "sdslen s + 18 < SIZE_MOD"
  shows "\<exists>s'. sdsRemoveFreeSpace junk s = Some s' \<and> sds_wf s' \<and> (sds_ok s \<longrightarrow> sds_ok s') \<and> sds_val s' = sds_val s \<and>
    sdsalloc s' = sdslen s"
proof (cases "sdsavail s = 0")
  case True
  with assms sds_wf_avail [OF assms(1)] sds_wf_facts(2) [OF assms(1)] show ?thesis
    by (auto simp: sdsRemoveFreeSpace_def Let_def)
next
  case False
  let ?n = "sdslen s" and ?ty = "sdsReqType (sdslen s)"
  have t5: "sds_type s \<noteq> SDS_TYPE_5" using False by (auto simp: sdsavail_def Let_def split: if_splits)
  have bs: "block_size (sdsHdrSize t) ?n = Some (?n + 1)" for t
    using assms sdsHdrSize_le [of t] by (intro block_size_fits) linarith
  have fits: "?n < 2 ^ sds_bits (sds_type s)" using assms(1) by (simp add: sds_wf_def)
  obtain s1 t where s1: "(if sds_type s = ?ty \<or> ?ty > SDS_TYPE_8
      then Some (s\<lparr>sds_buf := mem_realloc junk (?n + 1) (sds_buf s)\<rparr>)
      else sds_move junk ?ty (?n + 1) s) = Some s1" "sds_like s t ?n (sdssetalloc s1 ?n)"
  proof (cases "sds_type s = ?ty \<or> ?ty > SDS_TYPE_8")
    case True
    show ?thesis by (rule that [OF _ sds_realloc_like [OF assms(1) t5 fits order_refl]]) (use True in simp)
  next
    case False
    with that sds_move_like [OF assms(1) sdsReqType_fits(2), of ?n ?n junk] sdsReqType_fits(1) [of ?n] assms
    show ?thesis by auto
  qed
  then have "sdsRemoveFreeSpace junk s = Some (sdssetalloc s1 ?n)"
    using False by (auto simp: sdsRemoveFreeSpace_def Let_def bs split: if_splits)
  moreover have "sdsalloc (sdssetalloc s1 ?n) = ?n"
    using s1(2) sds_len_alloc5 by (cases "t = SDS_TYPE_5") (auto simp: sds_like_def)
  ultimately show ?thesis using s1(2) sds_like_val [OF s1(2)] by (auto simp: sds_like_def)
qed

section \<open>What the operations do\<close>

lemma replicate_snoc: "replicate (n + 1) x = replicate n x @ [x]"
  by (simp add: replicate_append_same)

lemma sdsnewlen_spec:
  assumes "n + 18 < SIZE_MOD" "\<And>bs. init = Init_bytes bs \<Longrightarrow> n \<le> length bs"
  shows "\<exists>s. sdsnewlen junk init n = Some s \<and> sds_ok s \<and> sdslen s = n \<and> sdsalloc s = n \<and>
    sds_type s = (if n = 0 then SDS_TYPE_8 else sdsReqType n) \<and>
    (init = Init_NULL \<longrightarrow> sds_val s = replicate n 0) \<and> (\<forall>bs. init = Init_bytes bs \<longrightarrow> sds_val s = take n bs)"
proof -
  define ty where "ty = (if sdsReqType n = SDS_TYPE_5 \<and> n = 0 then SDS_TYPE_8 else sdsReqType n)"
  have ty: "ty \<le> 4" "n < 2 ^ sds_bits ty"
    using sdsReqType_fits [of n] assms(1) sds_bits_8 [of n] by (auto simp: ty_def)
  have bs: "block_size (sdsHdrSize ty) n = Some (n + 1)"
    using assms(1) sdsHdrSize_le [of ty] by (intro block_size_fits) linarith
  define block where "block = (if init = Init_NULL then replicate (n + 1) 0 else map junk [0..<n + 1])"
  have bl: "init = Init_NULL \<Longrightarrow> take n block = replicate n 0" unfolding block_def replicate_snoc by simp
  define b where "b = (case init of Init_bytes bs \<Rightarrow> take n bs | _ \<Rightarrow> take n block) @ [0]"
  define s where "s = (if ty = SDS_TYPE_5 then
       \<lparr>sh_len = 0, sh_alloc = 0, sds_flags = push_bit 3 (of_nat n), sds_buf = b\<rparr>
     else \<lparr>sh_len = n mod 2 ^ sdshdr_bits ty, sh_alloc = n mod 2 ^ sdshdr_bits ty,
           sds_flags = of_nat ty, sds_buf = b\<rparr>)"
  have lb: "length block = n + 1" by (simp add: block_def)
  have "(case init of
           Init_bytes bs \<Rightarrow>
             (if n \<noteq> 0 then do { src \<leftarrow> mem_get 0 n bs; mem_put 0 src block } else Some block)
         | _ \<Rightarrow> Some block) \<bind> mem_put n [0] = Some b"
    using assms(2) lb by (cases init) (auto simp: mem_get_def mem_put_def b_def)
  then have "sdsnewlen junk init n = Some s"
    unfolding sdsnewlen_def Let_def ty_def [symmetric] bs Option.bind.simps block_def [symmetric]
    by (cases init) (auto simp: s_def bind_eq_Some_conv)
  moreover have t0: "ty = (if n = 0 then SDS_TYPE_8 else sdsReqType n)" by (simp add: ty_def sdsReqType_def)
  moreover have st: "sds_type s = ty" using flags_type [OF ty(1)] flags5(1) [of n] ty
    by (auto simp: s_def sds_type_def sds_bits_def)
  moreover have sl: "sdslen s = n" "sdsalloc s = n"
    using st ty flags5(2) [of n] by (auto simp: sdslen_def sdsalloc_def s_def sds_bits_def)
  moreover have sb: "sds_buf s = b" "length b = n + 1" "b ! n = 0"
    using lb assms(2) by (auto simp: s_def b_def nth_append split: sds_init.splits)
  ultimately show ?thesis using ty assms(2)
    by (intro exI [of _ s]) (auto simp: sds_ok_def sds_wf_def sds_val_def b_def bl)
qed

lemma sdscatlen_spec:
  assumes "sds_wf s" "n \<le> length t" "sdslen s + n + SDS_MAX_PREALLOC + 18 < SIZE_MOD"
  shows "\<exists>s'. sdscatlen junk s t n = Some s' \<and> sds_ok s' \<and> sds_val s' = sds_val s @ take n t"
proof -
  obtain s1 where s1: "sdsMakeRoomFor junk s n = Some s1" "sds_wf s1" "sds_val s1 = sds_val s"
    "sdslen s1 = sdslen s" "sdslen s + n \<le> sdsalloc s1"
    using sdsMakeRoomFor_spec [OF assms(1), of n junk] assms(3) by auto
  define b where "b = take (sdslen s) (sds_buf s1) @ take n t @ drop (sdslen s + n) (sds_buf s1)"
  have len: "sdslen s + n < length (sds_buf s1)" using sds_wf_facts(6) [OF s1(2) s1(5)] .
  have 1: "mem_get 0 n t = Some (take n t)" using assms(2) by (simp add: mem_get_def)
  have 2: "mem_put (sdslen s) (take n t) (sds_buf s1) = Some b" using assms(2) len by (simp add: mem_put_def b_def)
  have lb: "length b = length (sds_buf s1)" using len assms(2) by (simp add: b_def)
  define b' where "b' = take (sdslen s + n) b @ 0 # drop (sdslen s + n + 1) b"
  have 3: "mem_put (sdslen s + n) [0] b = Some b'" using len lb by (simp add: mem_put_def b'_def)
  have lb': "length b' = length (sds_buf s1)" "b' ! (sdslen s + n) = 0" using len lb by (auto simp: b'_def nth_append)
  have m: "(sdslen s + n) mod SIZE_MOD = sdslen s + n" using assms(3) by simp
  let ?s = "sdssetlen (s1\<lparr>sds_buf := b\<rparr>) (sdslen s + n)"
  have sb: "?s\<lparr>sds_buf := b'\<rparr> = sdssetlen (s1\<lparr>sds_buf := b'\<rparr>) (sdslen s + n)"
    by (simp add: sdssetlen_def)
  have "sdscatlen junk s t n = Some (?s\<lparr>sds_buf := b'\<rparr>)"
    using sds_setlen_wf(4) [OF s1(2) s1(5) lb] 3
    by (simp add: sdscatlen_def Let_def s1(1) 1 2 m)
  moreover have "take (sdslen s + n) b' = sds_val s @ take n t"
  proof -
    have "take (sdslen s) (sds_buf s1) = sds_val s" using s1(3,4) by (simp add: sds_val_def)
    with len lb assms(2) sds_wf_facts(4) [OF assms(1)] show ?thesis by (simp add: b'_def b_def)
  qed
  ultimately show ?thesis unfolding sb using sds_setlen_ok [OF s1(2) s1(5) lb'] by auto
qed

lemma sdscpylen_spec:
  assumes "sds_wf s" "n \<le> length t" "n + SDS_MAX_PREALLOC + 18 < SIZE_MOD"
  shows "\<exists>s'. sdscpylen junk s t n = Some s' \<and> sds_ok s' \<and> sds_val s' = take n t"
proof -
  have le: "sdslen s \<le> sdsalloc s" using sds_wf_facts(2) [OF assms(1)] .
  obtain s1 where s1: "(if sdsalloc s < n then sdsMakeRoomFor junk s (n - sdslen s) else Some s) = Some s1"
    "sds_wf s1" "n \<le> sdsalloc s1"
  proof (cases "sdsalloc s < n")
    case True
    with that sdsMakeRoomFor_spec [OF assms(1), of "n - sdslen s" junk] assms(3) le show ?thesis by auto
  next
    case False
    with that assms(1) show ?thesis by simp
  qed
  have len: "n < length (sds_buf s1)" using sds_wf_facts(6) [OF s1(2,3)] .
  define b where "b = take n t @ 0 # drop (n + 1) (sds_buf s1)"
  have lb: "length b = length (sds_buf s1)" "b ! n = 0" using len assms(2) by (auto simp: b_def nth_append)
  have "sdscpylen junk s t n = Some (sdssetlen (s1\<lparr>sds_buf := b\<rparr>) n)"
    unfolding sdscpylen_def s1(1) Option.bind.simps using len assms(2) by (simp add: mem_get_def mem_put_def b_def)
  moreover have "take n b = take n t" using assms(2) by (simp add: b_def)
  ultimately show ?thesis using sds_setlen_ok [OF s1(2,3) lb] by simp
qed

lemma sdsgrowzero_spec:
  assumes "sds_ok s" "n + SDS_MAX_PREALLOC + 18 < SIZE_MOD"
  shows "\<exists>s'. sdsgrowzero junk s n = Some s' \<and> sds_ok s' \<and> sds_val s' = sds_val s @ replicate (n - sdslen s) 0"
proof (cases "n \<le> sdslen s")
  case True
  with assms show ?thesis by (simp add: sdsgrowzero_def Let_def)
next
  case False
  have w: "sds_wf s" using assms(1) by (simp add: sds_ok_def)
  obtain s1 where s1: "sdsMakeRoomFor junk s (n - sdslen s) = Some s1" "sds_wf s1" "sds_val s1 = sds_val s"
    "sdslen s1 = sdslen s" "n \<le> sdsalloc s1"
    using sdsMakeRoomFor_spec [OF w, of "n - sdslen s" junk] assms(2) False by auto
  have len: "n < length (sds_buf s1)" using sds_wf_facts(6) [OF s1(2) s1(5)] .
  define b where "b = take (sdslen s) (sds_buf s1) @ replicate (n - sdslen s + 1) 0 @ drop (n + 1) (sds_buf s1)"
  have lb: "length b = length (sds_buf s1)" "b ! n = 0" using len False by (auto simp: b_def nth_append)
  have "sdsgrowzero junk s n = Some (sdssetlen (s1\<lparr>sds_buf := b\<rparr>) n)"
    using len False by (simp add: sdsgrowzero_def Let_def s1(1) mem_put_def b_def)
  moreover have "take n b = sds_val s @ replicate (n - sdslen s) 0"
  proof -
    have "take (sdslen s) (sds_buf s1) = sds_val s" using s1(3,4) by (simp add: sds_val_def)
    with sds_wf_facts(4) [OF w] False show ?thesis unfolding b_def replicate_snoc by simp
  qed
  ultimately show ?thesis using sds_setlen_ok [OF s1(2,5) lb] by simp
qed

lemma sdsclear_spec: "sds_wf s \<Longrightarrow> \<exists>s'. sdsclear s = Some s' \<and> sds_ok s' \<and> sds_val s' = []"
proof -
  assume w: "sds_wf s"
  define b where "b = 0 # drop 1 (sds_buf s)"
  have lb: "length b = length (sds_buf s)" "b ! 0 = 0" using sds_wf_facts(3) [OF w] by (auto simp: b_def)
  have "sds_buf (sdssetlen s 0) = sds_buf s" "(sdssetlen s 0)\<lparr>sds_buf := b\<rparr> = sdssetlen (s\<lparr>sds_buf := b\<rparr>) 0"
    by (simp_all add: sdssetlen_def)
  then have "sdsclear s = Some (sdssetlen (s\<lparr>sds_buf := b\<rparr>) 0)"
    using sds_wf_facts(3) [OF w] by (cases "sds_buf s") (auto simp: sdsclear_def Let_def mem_put_def b_def)
  with sds_setlen_ok [OF w _ lb] show ?thesis by simp
qed

lemma u_of_int: "n < 4294967296 \<Longrightarrow> u32_of (int n) = n" "n < SIZE_MOD \<Longrightarrow> u64_of (int n) = n"
  by (simp_all add: u32_of_def u64_of_def)

lemma u_of_nonneg:
  "0 \<le> x \<Longrightarrow> x < 4294967296 \<Longrightarrow> u32_of x = nat x" "0 \<le> x \<Longrightarrow> x < 18446744073709551616 \<Longrightarrow> u64_of x = nat x"
  by (simp_all add: u32_of_def u64_of_def)

lemma sdsIncrLen_spec:
  assumes "sds_wf s" "if sds_type s = SDS_TYPE_5 then incr \<noteq> 0 else True"
    "0 \<le> int (sdslen s) + incr" "int (sdslen s) + incr \<le> int (sdsalloc s)"
  shows "\<exists>s'. sdsIncrLen s incr = Some s' \<and> sds_ok s' \<and> sds_val s' = take (nat (int (sdslen s) + incr)) (sds_buf s)"
proof -
  define n where "n = nat (int (sdslen s) + incr)"
  have n: "n \<le> sdsalloc s" "int n = int (sdslen s) + incr" using assms by (auto simp: n_def)
  have fit: "n < 2 ^ sds_bits (sds_type s)" "sdslen s < 2 ^ sds_bits (sds_type s)" "sdsalloc s < 2 ^ sds_bits (sds_type s)"
    using assms(1) n by (auto simp: sds_wf_def)
  have small: "m < 2 ^ sds_bits (sds_type s) \<Longrightarrow> m < SIZE_MOD" for m :: nat
    by (auto simp: sds_bits_def sdshdr_bits_def split: if_splits)
  have u: "u64_of (int (sdslen s) + incr) = n" unfolding n(2) [symmetric] by (rule u_of_int(2) [OF small [OF fit(1)]])
  have len: "n < length (sds_buf s)" using sds_wf_facts(6) [OF assms(1) n(1)] .
  define b where "b = take n (sds_buf s) @ 0 # drop (n + 1) (sds_buf s)"
  have lb: "length b = length (sds_buf s)" "b ! n = 0" using len by (auto simp: b_def nth_append)
  have s1: "sds_buf (sdssetlen s n) = sds_buf s" "(sdssetlen s n)\<lparr>sds_buf := b\<rparr> = sdssetlen (s\<lparr>sds_buf := b\<rparr>) n"
    "sdslen (sdssetlen s n) = n"
    using sdssetlen_fits(2) [OF sds_wf_facts(1) [OF assms(1)] fit(1)] by (simp_all add: sdssetlen_def)
  have put: "mem_put n [0] (sds_buf s) = Some b" using len by (simp add: mem_put_def b_def)
  have "sdsIncrLen s incr = Some (sdssetlen (s\<lparr>sds_buf := b\<rparr>) n)"
  proof (cases "sds_type s = SDS_TYPE_5")
    case True
    then have "incr < 0" "- incr \<le> int (sdslen s)" "sdslen s < 32"
      using assms fit sds_len_alloc5 [OF True] by (auto simp: sds_bits_def)
    then have "u32_of (- incr) \<le> sdslen s" by (simp add: u_of_nonneg)
    with True \<open>incr < 0\<close> len show ?thesis
      by (simp add: sdsIncrLen_def Let_def u s1 put)
  next
    case False
    then have f: "sh_len s = sdslen s" "sh_alloc s = sdsalloc s" "sdslen s \<le> sdsalloc s"
      using sds_wf_facts [OF assms(1)] by (auto simp: sdslen_def sdsalloc_def)
    have t: "sds_type s = 1 \<or> sds_type s = 2 \<or> sds_type s = 3 \<or> sds_type s = 4"
      using sds_wf_facts(1) [OF assms(1)] False by linarith
    have "incr < 0 \<Longrightarrow> u64_of (- incr) \<le> sdslen s" "incr < 0 \<Longrightarrow> sds_type s \<noteq> 4 \<Longrightarrow> u32_of (- incr) \<le> sdslen s"
      "0 \<le> incr \<Longrightarrow> u64_of incr \<le> u64_of (int (sdsalloc s) - int (sdslen s))"
      "0 \<le> incr \<Longrightarrow> sds_type s = 3 \<Longrightarrow> u32_of incr \<le> u32_of (int (sdsalloc s) - int (sdslen s))"
      using assms(3,4) fit small [OF fit(2)] small [OF fit(3)] f(3) t
      by (auto simp: u_of_nonneg sds_bits_def sdshdr_bits_def)
    with t f assms(3,4) len show ?thesis
      by (auto simp: sdsIncrLen_def Let_def u s1 put)
  qed
  moreover have "take n b = take n (sds_buf s)" using len by (simp add: b_def)
  ultimately show ?thesis using sds_setlen_ok [OF assms(1) n(1) lb] by (simp add: n_def)
qed

text \<open>\<open>sdstrim\<close>: the pointer walk from both ends is \<open>dropWhile\<close> on both ends.\<close>

definition trim_spec :: "byte list \<Rightarrow> byte list \<Rightarrow> byte list" where
  "trim_spec cset v = rev (dropWhile (strchr_found cset) (rev (dropWhile (strchr_found cset) v)))"

lemma trim_left_spec:
  "len \<le> length b \<Longrightarrow> sp \<le> len \<Longrightarrow>
    trim_left b cset len sp = sp + length (takeWhile (strchr_found cset) (drop sp (take len b)))"
proof (induction b cset len sp rule: trim_left.induct)
  case (1 b cset len sp)
  show ?case
  proof (cases "sp < len")
    case True
    then have d: "drop sp (take len b) = b ! sp # drop (Suc sp) (take len b)"
      using 1(2) by (metis Cons_nth_drop_Suc length_take min.absorb2 nth_take)
    show ?thesis using 1 True by (subst trim_left.simps) (auto simp: d)
  next
    case False
    with 1 show ?thesis by (subst trim_left.simps) auto
  qed
qed

lemma trim_right_spec:
  "sp \<le> ep \<Longrightarrow> ep < length b \<Longrightarrow> \<not> strchr_found cset (b ! sp) \<Longrightarrow>
    \<exists>e. trim_right b cset (int sp) (int ep) = int e \<and> sp \<le> e \<and> e \<le> ep \<and>
      drop sp (take (Suc e) b) = rev (dropWhile (strchr_found cset) (rev (drop sp (take (Suc ep) b))))"
proof (induction ep)
  case 0
  then show ?case by (subst trim_right.simps) (auto simp: take_Suc_conv_app_nth)
next
  case (Suc ep)
  have snoc: "drop sp (take (Suc (Suc ep)) b) = drop sp (take (Suc ep) b) @ [b ! Suc ep]"
    using Suc.prems by (simp add: take_Suc_conv_app_nth [of "Suc ep"])
  show ?case
  proof (cases "int sp < int (Suc ep) \<and> strchr_found cset (b ! Suc ep)")
    case True
    then have "trim_right b cset (int sp) (int (Suc ep)) = trim_right b cset (int sp) (int ep)"
      by (subst trim_right.simps) (simp add: nat_add_distrib)
    moreover have "sp \<le> ep" using True by auto
    ultimately show ?thesis using Suc.IH Suc.prems True unfolding snoc by fastforce
  next
    case False
    then have e: "trim_right b cset (int sp) (int (Suc ep)) = int (Suc ep)"
      by (subst trim_right.simps) (auto simp: nat_add_distrib)
    have "\<not> strchr_found cset (b ! Suc ep)" using False Suc.prems by (cases "sp = Suc ep") auto
    then show ?thesis unfolding e using Suc.prems by (intro exI [of _ "Suc ep"]) (simp add: snoc)
  qed
qed

lemma sdstrim_spec:
  assumes "sds_wf s"
  shows "\<exists>s'. sdstrim s cset = Some s' \<and> sds_ok s' \<and> sds_val s' = trim_spec cset (sds_val s)"
proof -
  let ?b = "sds_buf s" and ?n = "sdslen s" and ?P = "strchr_found cset"
  define sp where "sp = trim_left ?b cset ?n 0"
  have len: "?n < length ?b" using sds_wf_facts(3) [OF assms] .
  have sp: "sp = length (takeWhile ?P (sds_val s))" "sp \<le> ?n"
    using trim_left_spec [of ?n ?b 0 cset] len length_takeWhile_le [of ?P "sds_val s"]
    by (auto simp: sp_def sds_val_def)
  have dw: "dropWhile ?P (sds_val s) = drop sp (take ?n ?b)" by (simp add: sp dropWhile_eq_drop sds_val_def)
  define ep where "ep = trim_right ?b cset (int sp) (int ?n - 1)"
  define k where "k = (if int sp > ep then 0 else nat (ep - int sp + 1))"
  have k: "sp + k \<le> ?n \<and> take k (drop sp ?b) = trim_spec cset (sds_val s)"
  proof (cases "sp < ?n")
    case True
    have "\<not> ?P (?b ! sp)"
      using nth_length_takeWhile [of ?P "sds_val s"] True len sp by (simp add: sds_val_def)
    moreover obtain m where m: "?n = Suc m" using True by (cases ?n) auto
    ultimately obtain e where
      e: "ep = int e" "sp \<le> e" "e < ?n" "drop sp (take (Suc e) ?b) = rev (dropWhile ?P (rev (drop sp (take ?n ?b))))"
      using trim_right_spec [of sp m ?b cset] True len by (auto simp: ep_def)
    then have "k = Suc e - sp" by (simp add: k_def Suc_diff_le)
    with e show ?thesis by (auto simp: trim_spec_def dw take_drop)
  next
    case False
    then have "ep = int ?n - 1" "k = 0" using sp unfolding k_def ep_def by (auto simp: trim_right.simps)
    with False sp show ?thesis by (simp add: trim_spec_def dw)
  qed
  define b where "b = trim_spec cset (sds_val s) @ 0 # drop (k + 1) (if sp \<noteq> 0 then trim_spec cset (sds_val s) @ drop k ?b else ?b)"
  have lk: "length (trim_spec cset (sds_val s)) = k" using k len by (metis add_leD2 length_drop length_take less_imp_le_nat min.absorb2 nat_add_left_cancel_le le_diff_conv2 le_add1 add.commute order_trans)
  have "sdstrim s cset = Some (sdssetlen (s\<lparr>sds_buf := b\<rparr>) k)"
    using k len lk unfolding sdstrim_def sp_def [symmetric] ep_def [symmetric] k_def [symmetric] Let_def
    by (auto simp: mem_move_def mem_get_def mem_put_def b_def)
  moreover have "length b = length ?b" "b ! k = 0" "take k b = trim_spec cset (sds_val s)"
    using k len lk by (auto simp: b_def nth_append)
  moreover have "k \<le> sdsalloc s" using k sds_wf_facts(2) [OF assms] by linarith
  ultimately show ?thesis using sds_setlen_ok [OF assms, of k b] by simp
qed

text \<open>\<open>sdsrange\<close>: negative indices count from the end, and what lies outside is cut off.\<close>

definition range_spec :: "byte list \<Rightarrow> int \<Rightarrow> int \<Rightarrow> byte list" where
  "range_spec v start end' =
    (let pos = (\<lambda>i. if i < 0 then max 0 (int (length v) + i) else i)
     in take (nat (pos end' - pos start + 1)) (drop (nat (pos start)) v))"

lemma ssize_id: "LLONG_MIN \<le> x \<Longrightarrow> x \<le> LLONG_MAX \<Longrightarrow> ll_of_ull (u64_of x) = x"
proof -
  assume x: "LLONG_MIN \<le> x" "x \<le> LLONG_MAX"
  show ?thesis
  proof (cases "x < 0")
    case True
    then have "x mod 18446744073709551616 = x + 18446744073709551616"
      using x mod_pos_pos_trivial [of "x + 18446744073709551616" 18446744073709551616] by simp
    with x True show ?thesis by (simp add: u64_of_def ll_of_ull_def)
  next
    case False
    with x show ?thesis by (simp add: u64_of_def ll_of_ull_def)
  qed
qed

lemma sdsrange_spec:
  assumes "sds_ok s" "int (sdslen s) \<le> LLONG_MAX" "LLONG_MIN \<le> i" "i \<le> LLONG_MAX" "LLONG_MIN \<le> j" "j \<le> LLONG_MAX"
  shows "\<exists>s'. sdsrange s i j = Some s' \<and> sds_ok s' \<and> sds_val s' = range_spec (sds_val s) i j"
proof (cases "sdslen s = 0")
  case True
  with assms show ?thesis by (simp add: sdsrange_def range_spec_def sds_val_def Let_def)
next
  case False
  have w: "sds_wf s" using assms(1) by (simp add: sds_ok_def)
  let ?n = "sdslen s" and ?b = "sds_buf s"
  define a where "a = nat (if i < 0 then max 0 (int ?n + i) else i)"
  define e where "e = nat (if j < 0 then max 0 (int ?n + j) else j)"
  define k where "k = min (e + 1) ?n - a"
  have pos: "(if i < 0 then max 0 (ll_of_ull (u64_of (int ?n + i))) else i) = int a"
    "(if j < 0 then max 0 (ll_of_ull (u64_of (int ?n + j))) else j) = int e"
    using assms(2-6) by (auto simp: a_def e_def ssize_id)
  have ll: "ll_of_ull ?n = int ?n" using assms(2) by (simp add: ll_of_ull_def)
  have ae: "int a \<le> LLONG_MAX" "int e \<le> LLONG_MAX" using assms by (auto simp: a_def e_def)
  have u: "u64_of (int y - int a + 1) = y + 1 - a" if "a \<le> y" "int y \<le> LLONG_MAX" for y
    using that ae u_of_int(2) [of "y + 1 - a"] by (simp add: of_nat_diff algebra_simps)
  define b where "b = take k (drop a ?b) @ 0 # drop (k + 1) (if a \<noteq> 0 \<and> k \<noteq> 0 then take k (drop a ?b) @ drop k ?b else ?b)"
  have len: "?n < length ?b" "a + k \<le> ?n \<or> k = 0" "\<not> a \<le> e \<Longrightarrow> k = 0"
    using sds_wf_facts(3) [OF w] by (auto simp: k_def)
  then have lk: "length (take k (drop a ?b)) = k" by auto
  have sel: "(if newlen \<noteq> 0 then
       (if int a \<ge> int ?n then (int a, 0)
        else if int e \<ge> int ?n then
          (int a, if int a > int ?n - 1 then 0 else u64_of (int ?n - 1 - int a + 1))
        else (int a, newlen))
      else (0, newlen)) = (if a \<le> e then int a else 0, k)"
    if "newlen = (if int a > int e then 0 else u64_of (int e - int a + 1))" for newlen
    using that u [of e] u [of "?n - 1"] ae assms(2) False by (auto simp: k_def of_nat_diff)
  have "sdsrange s i j = Some (sdssetlen (s\<lparr>sds_buf := b\<rparr>) k)"
    using len lk False unfolding sdsrange_def Let_def pos ll sel [OF refl]
    by (auto simp: mem_move_def mem_get_def mem_put_def b_def)
  moreover have "length b = length ?b" "b ! k = 0" "take k b = take k (drop a ?b)"
    using len lk by (auto simp: b_def nth_append)
  moreover have "k \<le> sdsalloc s" using len sds_wf_facts(2) [OF w] by auto
  moreover have "take k (drop a ?b) = range_spec (sds_val s) i j"
  proof -
    have "range_spec (sds_val s) i j = take (nat (int e - int a + 1)) (drop a (take ?n ?b))"
      using sds_wf_facts(4) [OF w] by (simp add: range_spec_def Let_def a_def e_def sds_val_def)
    moreover have "min (nat (int e - int a + 1)) (?n - a) = k" by (auto simp: k_def min_def)
    ultimately show ?thesis by (simp add: drop_take min.commute)
  qed
  ultimately show ?thesis using sds_setlen_ok [OF w, of k b] by simp
qed

lemma takeWhile_stop: "\<not> P x \<Longrightarrow> takeWhile P (v @ x # r) = takeWhile P v"
  by (induction v) auto

lemma sdsupdatelen_spec:
  assumes "sds_ok s"
  shows "\<exists>s'. sdsupdatelen s = Some s' \<and> sds_ok s' \<and> sds_val s' = takeWhile (\<lambda>c. c \<noteq> 0) (sds_val s)"
proof -
  let ?b = "sds_buf s" and ?n = "sdslen s"
  have w: "sds_wf s" and z: "?b ! ?n = 0" using assms by (auto simp: sds_ok_def)
  have len: "?n < length ?b" using sds_wf_facts(3) [OF w] .
  have b: "?b = sds_val s @ 0 # drop (Suc ?n) ?b" using id_take_nth_drop [OF len] z by (simp add: sds_val_def)
  define k where "k = length (takeWhile (\<lambda>c. c \<noteq> 0) ?b)"
  have tw: "takeWhile (\<lambda>c. c \<noteq> 0) ?b = takeWhile (\<lambda>c. c \<noteq> 0) (sds_val s)"
    by (subst b) (simp add: takeWhile_stop)
  have k: "k \<le> ?n" unfolding k_def tw using length_takeWhile_le [of _ "sds_val s"] sds_wf_facts(4) [OF w] by simp
  have "0 \<in> set ?b" by (subst b) simp
  then have "sdsupdatelen s = Some (sdssetlen (s\<lparr>sds_buf := ?b\<rparr>) k)" by (simp add: sdsupdatelen_def c_strlen_def k_def)
  moreover have "?b ! k = 0" using nth_length_takeWhile [of "\<lambda>c. c \<noteq> 0" ?b] k len by (simp add: k_def)
  moreover have "take k ?b = takeWhile (\<lambda>c. c \<noteq> 0) (sds_val s)" unfolding k_def tw [symmetric]
    by (metis takeWhile_eq_take)
  ultimately show ?thesis using sds_setlen_ok [OF w, of k ?b] k sds_wf_facts(2) [OF w] by simp
qed

section \<open>Refinement of byte strings\<close>

text \<open>
  The operations on a string in any order.  The answer of an operation is the length after it.  The
  specification works on the plain byte string; an operation is legal where its sizes do not overflow
  a \<open>size_t\<close>, where the source of a copy has the bytes that are read, and where \<open>sdsIncrLen\<close> trims.
\<close>

datatype sds_op = Sds_catlen "byte list" nat | Sds_cpylen "byte list" nat | Sds_growzero nat | Sds_clear
  | Sds_trim "byte list" | Sds_range int int | Sds_MakeRoomFor nat | Sds_RemoveFreeSpace | Sds_IncrLen int
  | Sds_updatelen | Sds_dup

fun sds_apply :: "(nat \<Rightarrow> byte) \<Rightarrow> sds_op \<Rightarrow> sds \<Rightarrow> sds option" where
  "sds_apply junk (Sds_catlen t n) s = sdscatlen junk s t n"
| "sds_apply junk (Sds_cpylen t n) s = sdscpylen junk s t n"
| "sds_apply junk (Sds_growzero n) s = sdsgrowzero junk s n"
| "sds_apply junk Sds_clear s = sdsclear s"
| "sds_apply junk (Sds_trim cset) s = sdstrim s cset"
| "sds_apply junk (Sds_range i j) s = sdsrange s i j"
| "sds_apply junk (Sds_MakeRoomFor n) s = sdsMakeRoomFor junk s n"
| "sds_apply junk Sds_RemoveFreeSpace s = sdsRemoveFreeSpace junk s"
| "sds_apply junk (Sds_IncrLen k) s = sdsIncrLen s k"
| "sds_apply junk Sds_updatelen s = sdsupdatelen s"
| "sds_apply junk Sds_dup s = sdsdup junk s"

definition sds_step :: "(nat \<Rightarrow> byte) \<Rightarrow> sds_op \<Rightarrow> sds \<Rightarrow> (sds \<times> nat) option" where
  "sds_step junk op s = map_option (\<lambda>s. (s, sdslen s)) (sds_apply junk op s)"

fun bytes_apply :: "sds_op \<Rightarrow> byte list \<Rightarrow> byte list" where
  "bytes_apply (Sds_catlen t n) v = v @ take n t"
| "bytes_apply (Sds_cpylen t n) v = take n t"
| "bytes_apply (Sds_growzero n) v = v @ replicate (n - length v) 0"
| "bytes_apply Sds_clear v = []"
| "bytes_apply (Sds_trim cset) v = trim_spec cset v"
| "bytes_apply (Sds_range i j) v = range_spec v i j"
| "bytes_apply (Sds_IncrLen k) v = take (nat (int (length v) + k)) v"
| "bytes_apply Sds_updatelen v = takeWhile (\<lambda>c. c \<noteq> 0) v"
| "bytes_apply _ v = v"

definition bytes_step :: "sds_op \<Rightarrow> byte list \<Rightarrow> byte list \<times> nat" where
  "bytes_step op v = (bytes_apply op v, length (bytes_apply op v))"

abbreviation sds_room :: "nat \<Rightarrow> bool" where
  "sds_room n \<equiv> n + SDS_MAX_PREALLOC + 18 < SIZE_MOD"

fun sds_legal :: "sds_op \<Rightarrow> byte list \<Rightarrow> bool" where
  "sds_legal (Sds_catlen t n) v \<longleftrightarrow> n \<le> length t \<and> sds_room (length v + n)"
| "sds_legal (Sds_cpylen t n) v \<longleftrightarrow> n \<le> length t \<and> sds_room n"
| "sds_legal (Sds_growzero n) v \<longleftrightarrow> sds_room n"
| "sds_legal (Sds_range i j) v \<longleftrightarrow>
    int (length v) \<le> LLONG_MAX \<and> LLONG_MIN \<le> i \<and> i \<le> LLONG_MAX \<and> LLONG_MIN \<le> j \<and> j \<le> LLONG_MAX"
| "sds_legal (Sds_MakeRoomFor n) v \<longleftrightarrow> sds_room (length v + n)"
| "sds_legal (Sds_IncrLen k) v \<longleftrightarrow> - int (length v) \<le> k \<and> k < 0"
| "sds_legal Sds_RemoveFreeSpace v \<longleftrightarrow> sds_room (length v)"
| "sds_legal Sds_dup v \<longleftrightarrow> sds_room (length v)"
| "sds_legal _ v \<longleftrightarrow> True"

lemma sds_apply_sim:
  assumes "sds_ok s" "sds_legal op (sds_val s)"
  shows "\<exists>s'. sds_apply junk op s = Some s' \<and> sds_ok s' \<and> sds_val s' = bytes_apply op (sds_val s)"
proof -
  have w: "sds_wf s" using assms(1) by (simp add: sds_ok_def)
  note len = sds_wf_facts(2-4) [OF w]
  show ?thesis
  proof (cases op)
    case (Sds_IncrLen k)
    with assms len sdsIncrLen_spec [OF w, of k] show ?thesis by (auto simp: sds_val_def)
  next
    case Sds_dup
    with assms len sdsnewlen_spec [of "sdslen s" "Init_bytes (sds_buf s)" junk] show ?thesis
      by (auto simp: sdsdup_def sds_val_def)
  next
    case (Sds_MakeRoomFor n)
    with assms len sdsMakeRoomFor_spec [OF w, of n junk] show ?thesis by auto
  next
    case Sds_RemoveFreeSpace
    with assms len sdsRemoveFreeSpace_spec [OF w, of junk] show ?thesis by auto
  qed (use assms len sdscatlen_spec [OF w] sdscpylen_spec [OF w] sdsgrowzero_spec [OF assms(1)] sdsclear_spec [OF w]
      sdstrim_spec [OF w] sdsrange_spec [OF assms(1)] sdsupdatelen_spec [OF assms(1)] in simp_all)
qed

lemma sds_ok_len: "sds_ok s \<Longrightarrow> length (sds_val s) = sdslen s"
  using sds_wf_facts(4) by (simp add: sds_ok_def)

interpretation sds_sim: simulation "sds_step junk" bytes_step sds_val sds_ok sds_legal "\<lambda>_. 0" limit for junk limit
proof
  fix s op
  assume "sds_ok s" "sds_legal op (sds_val s)"
  then show "\<exists>s' r. sds_step junk op s = Some (s', r) \<and> sds_ok s' \<and> bytes_step op (sds_val s) = (sds_val s', r) \<and>
      (0 :: nat) \<le> 0 + 1"
    using sds_apply_sim [of s op junk] by (auto simp: sds_step_def bytes_step_def simp flip: sds_ok_len)
qed

section \<open>Properties\<close>

definition ex_sds :: "byte list \<Rightarrow> sds" where
  "ex_sds v = \<lparr>sh_len = length v, sh_alloc = length v + 2, sds_flags = 1, sds_buf = v @ [0, 7, 7]\<rparr>"

text \<open>C9: Any sequence of operations on a well-formed dynamic string (appending, overwriting, growing,
  clearing, trimming, taking a range, reserving and giving back space, shortening, duplicating), whose
  sizes stay below the \<open>size_t\<close> limit, runs without an access outside the allocated block and without a
  failing assertion, keeps the header and the terminating zero well-formed, whatever of the five header
  types the string goes through, and leaves exactly the bytes and the lengths the same operations give
  on plain byte strings.\<close>

theorem sds_refines_bytes:
  assumes "sds_ok s" "legal_run sds_legal bytes_step ops (sds_val s)"
  shows "\<exists>s' rs. run_ops (sds_step junk) ops s = Some (s', rs) \<and> sds_ok s' \<and>
    run_spec bytes_step ops (sds_val s) = (sds_val s', rs)"
  using sds_sim.run_sim [OF assms, where limit = "length ops"] by simp

theorem sds_refines_bytes_witness:
  "\<exists>s' rs. run_ops (sds_step (\<lambda>_. 7)) [Sds_catlen [1, 2, 3, 4] 3, Sds_range (- 4) (- 1), Sds_dup] (ex_sds [9, 9]) = Some (s', rs)
    \<and> sds_ok s' \<and> ([9, 1, 2, 3], [5, 4, 4]) = (sds_val s', rs)"
proof -
  have ok: "sds_ok (ex_sds [9, 9])" and v: "sds_val (ex_sds [9, 9]) = [9, 9]" by code_simp+
  have l: "legal_run sds_legal bytes_step [Sds_catlen [1, 2, 3, 4] 3, Sds_range (- 4) (- 1), Sds_dup] [9, 9]"
    and r: "run_spec bytes_step [Sds_catlen [1, 2, 3, 4] 3, Sds_range (- 4) (- 1), Sds_dup] [9, 9]
      = ([9, 1, 2, 3], [5, 4, 4])"
    by (simp_all add: bytes_step_def range_spec_def)
  from sds_refines_bytes [OF ok, unfolded v, OF l, of "\<lambda>_. 7"] show ?thesis unfolding r .
qed

text \<open>C32: Creating a string of \<open>n\<close> bytes from a buffer that has them gives a well-formed string with
  those bytes and no spare room, under the smallest header type that can hold the length (but never
  type 5 for the empty string, which is created to be appended to).\<close>

theorem sdsnewlen_type:
  assumes "n + 18 < SIZE_MOD" "n \<le> length bs"
  shows "\<exists>s. sdsnewlen junk (Init_bytes bs) n = Some s \<and> sds_ok s \<and> sds_val s = take n bs \<and> sdsavail s = 0 \<and>
    (\<forall>t < sds_type s. 2 ^ sds_bits t \<le> n \<or> n = 0 \<and> t = SDS_TYPE_5)"
proof -
  obtain s where s: "sdsnewlen junk (Init_bytes bs) n = Some s" "sds_ok s" "sds_val s = take n bs" "sdsalloc s = n"
    "sdslen s = n" "sds_type s = (if n = 0 then SDS_TYPE_8 else sdsReqType n)"
    using sdsnewlen_spec [of n "Init_bytes bs" junk] assms by auto
  moreover have "2 ^ sds_bits t \<le> n \<or> n = 0 \<and> t = SDS_TYPE_5" if "t < sds_type s" for t
  proof -
    have "sds_type s \<le> 4" using sds_wf_facts(1) s(2) by (simp add: sds_ok_def)
    with that have "t = 0 \<or> t = 1 \<or> t = 2 \<or> t = 3" by linarith
    with that s(6) show ?thesis by (auto simp: sdsReqType_def sds_bits_def sdshdr_bits_def split: if_splits)
  qed
  ultimately show ?thesis using sds_wf_avail [of s] by (auto simp: sds_ok_def)
qed

theorem sdsnewlen_type_witness:
  "\<exists>s. sdsnewlen (\<lambda>_. 7) (Init_bytes (replicate 40 1)) 33 = Some s \<and> sds_ok s \<and> sds_val s = take 33 (replicate 40 1) \<and>
    sdsavail s = 0 \<and> (\<forall>t < sds_type s. 2 ^ sds_bits t \<le> (33 :: nat))"
  using sdsnewlen_type [of 33 "replicate 40 1" "\<lambda>_. 7"] by simp

text \<open>C33: After \<open>sdsMakeRoomFor\<close> the string has the requested room and its bytes are unchanged; when it
  was reallocated, the new capacity is twice the needed one, or one megabyte more than it, so that a
  sequence of appends reallocates rarely and never wastes more than that.\<close>

theorem sdsMakeRoomFor_reserves:
  assumes "sds_ok s" "sds_room (sdslen s + addlen)"
  shows "\<exists>s'. sdsMakeRoomFor junk s addlen = Some s' \<and> sds_ok s' \<and> sds_val s' = sds_val s \<and> addlen \<le> sdsavail s' \<and>
    (s' = s \<or> sdsalloc s' = (if sdslen s + addlen < SDS_MAX_PREALLOC then 2 * (sdslen s + addlen)
       else sdslen s + addlen + SDS_MAX_PREALLOC))"
proof -
  obtain s' where s': "sdsMakeRoomFor junk s addlen = Some s'" "sds_ok s'" "sds_val s' = sds_val s"
    "sdslen s' = sdslen s" "sdslen s + addlen \<le> sdsalloc s'" "s' = s \<or> sdsalloc s' = room_len (sdslen s + addlen)"
    using sdsMakeRoomFor_spec [of s addlen junk] assms by (auto simp: sds_ok_def)
  then have "addlen \<le> sdsavail s'" using sds_wf_avail [of s'] by (auto simp: sds_ok_def)
  with s' show ?thesis by (auto simp: room_len_def)
qed

theorem sdsMakeRoomFor_reserves_witness:
  "\<exists>s'. sdsMakeRoomFor (\<lambda>_. 7) (ex_sds [5, 6]) 10 = Some s' \<and> sds_ok s' \<and> sds_val s' = [5, 6] \<and> 10 \<le> sdsavail s' \<and>
    (s' = ex_sds [5, 6] \<or> sdsalloc s' = 24)"
proof -
  have ok: "sds_ok (ex_sds [5, 6])" and v: "sds_val (ex_sds [5, 6]) = [5, 6]" and n: "sdslen (ex_sds [5, 6]) = 2"
    by code_simp+
  from sdsMakeRoomFor_reserves [OF ok, of 10 "\<lambda>_. 7"] show ?thesis by (simp add: v n)
qed

text \<open>
  Beyond that limit the sum \<open>len + addlen\<close> wraps around: the call returns a string without the room it
  was asked for, and the next \<open>memcpy\<close> of \<open>sdscatlen\<close> writes behind the block.
\<close>

lemma sdsMakeRoomFor_overflow:
  "\<exists>s s'. sds_ok s \<and> sdsMakeRoomFor (\<lambda>_. 0) s 18446744073709551614 = Some s' \<and> sdsavail s' < 18446744073709551614"
proof -
  define s where "s = ex_sds [5, 6, 7, 8, 9, 10]"
  have f: "sds_ok s" "sdslen s = 6" "sdsavail s = 2" "sds_type s = 1" unfolding s_def by code_simp+
  have "sdsMakeRoomFor (\<lambda>_. 0) s 18446744073709551614
      = Some (sdssetalloc (s\<lparr>sds_buf := mem_realloc (\<lambda>_. 0) 9 (sds_buf s)\<rparr>) 8)"
  proof -
    have h: "sdsHdrSize (Suc 0) = 3" "sdsReqType 8 = 0" by code_simp+
    have b: "block_size 3 8 = Some 9" by (simp add: block_size_def)
    show ?thesis by (simp add: sdsMakeRoomFor_def f h b Let_def)
  qed
  moreover have "sdsavail (sdssetalloc (s\<lparr>sds_buf := mem_realloc (\<lambda>_. 0) 9 (sds_buf s)\<rparr>) 8) = 2"
    unfolding s_def by code_simp
  ultimately show ?thesis using f(1) by - (rule exI [of _ s], auto)
qed

end
