(* ===== verification/Sds_Fmt.thy ===== *)
theory Sds_Fmt
  imports Sds
begin

text \<open>
  Number formatting and the fast \<open>printf\<close> of \<open>sds.c\<close>: \<open>sdsll2str\<close>, \<open>sdsull2str\<close>, \<open>sdsfromlonglong\<close>
  and \<open>sdscatfmt\<close>.  The variadic arguments are a list of tagged values; taking an argument of another
  type than the one that was passed is undefined in C and \<open>None\<close> here.
\<close>

section \<open>Numbers\<close>

abbreviation (input) SDS_LLSTR_SIZE :: nat where "SDS_LLSTR_SIZE \<equiv> 21"

text \<open>The \<open>do\<close> loop that stores the digits, least significant first, from offset \<open>p\<close> on.\<close>

function ll2str_digits :: "byte list \<Rightarrow> nat \<Rightarrow> nat \<Rightarrow> (byte list \<times> nat) option" where
  "ll2str_digits s p v =
    (case mem_put p [48 + of_nat (v mod 10)] s of
       None \<Rightarrow> None
     | Some s1 \<Rightarrow> if v div 10 \<noteq> 0 then ll2str_digits s1 (p + 1) (v div 10) else Some (s1, p + 1))"
  by pat_completeness auto
termination
  by (relation "measure (\<lambda>(s, p, v). v)") (auto intro: div_less_dividend)

text \<open>The loop that reverses \<open>s[i..p]\<close> in place.\<close>

function ll2str_reverse :: "byte list \<Rightarrow> nat \<Rightarrow> nat \<Rightarrow> byte list" where
  "ll2str_reverse s i p =
    (if i < p then
       (let aux = s ! i; s1 = s[i := s ! p]; s2 = s1[p := aux] in ll2str_reverse s2 (i + 1) (p - 1))
     else s)"
  by pat_completeness auto
termination
  by (relation "measure (\<lambda>(s, i, p). p - i)") auto

declare ll2str_digits.simps [simp del] ll2str_reverse.simps [simp del]

text \<open>
  \<open>sdsll2str\<close>: the buffer and the length of the string in it.  For \<open>LLONG_MIN\<close> the negation
  overflows; the conversion to \<open>unsigned long long\<close> of the wrapped value is \<open>2 ^ 63\<close>, which is also
  what the negation gives on the integers.
\<close>

definition sdsll2str :: "byte list \<Rightarrow> int \<Rightarrow> (byte list \<times> nat) option" where
  "sdsll2str s value =
    (let v = (if value < 0 then nat (- value) else nat value) in do {
       (s, p) \<leftarrow> ll2str_digits s 0 v;
       (s, p) \<leftarrow> (if value < 0 then do { s \<leftarrow> mem_put p [45] s; Some (s, p + 1) } else Some (s, p));
       s \<leftarrow> mem_put p [0] s;
       Some (ll2str_reverse s 0 (p - 1), p)
     })"

definition sdsull2str :: "byte list \<Rightarrow> nat \<Rightarrow> (byte list \<times> nat) option" where
  "sdsull2str s v = do {
     (s, p) \<leftarrow> ll2str_digits s 0 v;
     s \<leftarrow> mem_put p [0] s;
     Some (ll2str_reverse s 0 (p - 1), p)
   }"

definition sdsfromlonglong :: "(nat \<Rightarrow> byte) \<Rightarrow> int \<Rightarrow> sds option" where
  "sdsfromlonglong junk value = do {
     (buf, len) \<leftarrow> sdsll2str (map junk [0..<SDS_LLSTR_SIZE]) value;
     sdsnewlen junk (Init_bytes buf) len
   }"

section \<open>\<open>sdscatfmt\<close>\<close>

datatype fmt_arg = Arg_cstr "byte list" | Arg_sds sds | Arg_int int | Arg_ll int | Arg_uint nat | Arg_ull nat

text \<open>Appending \<open>l\<close> bytes at \<open>i\<close>: room, \<open>memcpy\<close>, \<open>sdsinclen\<close>.\<close>

definition fmt_append :: "(nat \<Rightarrow> byte) \<Rightarrow> sds \<Rightarrow> nat \<Rightarrow> byte list \<Rightarrow> nat \<Rightarrow> (sds \<times> nat) option" where
  "fmt_append junk s i str l = do {
     s \<leftarrow> (if sdsavail s < l then sdsMakeRoomFor junk s l else Some s);
     src \<leftarrow> mem_get 0 l str;
     b \<leftarrow> mem_put i src (sds_buf s);
     Some (sdsinclen (s\<lparr>sds_buf := b\<rparr>) l, i + l)
   }"

text \<open>Storing one byte, \<open>s[i++] = c; sdsinclen(s,1)\<close>.\<close>

definition fmt_putc :: "sds \<Rightarrow> nat \<Rightarrow> byte \<Rightarrow> (sds \<times> nat) option" where
  "fmt_putc s i c = do {
     b \<leftarrow> mem_put i [c] (sds_buf s);
     Some (sdsinclen (s\<lparr>sds_buf := b\<rparr>) 1, i + 1)
   }"

text \<open>The \<open>switch\<close> on the byte behind a percent sign.\<close>

definition fmt_spec :: "(nat \<Rightarrow> byte) \<Rightarrow> byte \<Rightarrow> fmt_arg list \<Rightarrow> sds \<Rightarrow> nat \<Rightarrow> (sds \<times> nat \<times> fmt_arg list) option" where
  "fmt_spec junk next ap s i =
    (if next = 115 \<comment> \<open>s\<close> then
       (case ap of
          Arg_cstr str # ap' \<Rightarrow> do { l \<leftarrow> c_strlen str; (s, i) \<leftarrow> fmt_append junk s i str l; Some (s, i, ap') }
        | _ \<Rightarrow> None)
     else if next = 83 \<comment> \<open>S\<close> then
       (case ap of
          Arg_sds str # ap' \<Rightarrow> do { (s, i) \<leftarrow> fmt_append junk s i (sds_buf str) (sdslen str); Some (s, i, ap') }
        | _ \<Rightarrow> None)
     else if next = 105 \<or> next = 73 \<comment> \<open>i, I\<close> then
       (case (next = 105, ap) of
          (True, Arg_int num # ap') \<Rightarrow> do {
            (buf, l) \<leftarrow> sdsll2str (map junk [0..<SDS_LLSTR_SIZE]) num;
            (s, i) \<leftarrow> fmt_append junk s i buf l; Some (s, i, ap') }
        | (False, Arg_ll num # ap') \<Rightarrow> do {
            (buf, l) \<leftarrow> sdsll2str (map junk [0..<SDS_LLSTR_SIZE]) num;
            (s, i) \<leftarrow> fmt_append junk s i buf l; Some (s, i, ap') }
        | _ \<Rightarrow> None)
     else if next = 117 \<or> next = 85 \<comment> \<open>u, U\<close> then
       (case (next = 117, ap) of
          (True, Arg_uint unum # ap') \<Rightarrow> do {
            (buf, l) \<leftarrow> sdsull2str (map junk [0..<SDS_LLSTR_SIZE]) unum;
            (s, i) \<leftarrow> fmt_append junk s i buf l; Some (s, i, ap') }
        | (False, Arg_ull unum # ap') \<Rightarrow> do {
            (buf, l) \<leftarrow> sdsull2str (map junk [0..<SDS_LLSTR_SIZE]) unum;
            (s, i) \<leftarrow> fmt_append junk s i buf l; Some (s, i, ap') }
        | _ \<Rightarrow> None)
     else do { (s, i) \<leftarrow> fmt_putc s i next; Some (s, i, ap) })"

text \<open>
  The loop over the format, given the bytes from \<open>f\<close> on.  Reading behind the end of the format is
  \<open>None\<close>: this is what a format that ends in a percent sign does, whose terminator is taken for the
  conversion.
\<close>

fun sdscatfmt_loop :: "(nat \<Rightarrow> byte) \<Rightarrow> byte list \<Rightarrow> fmt_arg list \<Rightarrow> sds \<Rightarrow> nat \<Rightarrow> (sds \<times> nat) option" where
  "sdscatfmt_loop junk [] ap s i = None"
| "sdscatfmt_loop junk (c # f) ap s i =
    (if c = 0 then Some (s, i)
     else
       (case (if sdsavail s = 0 then sdsMakeRoomFor junk s 1 else Some s) of
          None \<Rightarrow> None
        | Some s1 \<Rightarrow>
            if c = 37 \<comment> \<open>the percent sign\<close> then
              (case f of
                 [] \<Rightarrow> None
               | next # f' \<Rightarrow>
                   (case fmt_spec junk next ap s1 i of
                      None \<Rightarrow> None
                    | Some (s2, i2, ap2) \<Rightarrow> sdscatfmt_loop junk f' ap2 s2 i2))
            else
              (case fmt_putc s1 i c of
                 None \<Rightarrow> None
               | Some (s2, i2) \<Rightarrow> sdscatfmt_loop junk f ap s2 i2)))"

definition sdscatfmt :: "(nat \<Rightarrow> byte) \<Rightarrow> sds \<Rightarrow> byte list \<Rightarrow> fmt_arg list \<Rightarrow> sds option" where
  "sdscatfmt junk s fmt ap = do {
     (s, i) \<leftarrow> sdscatfmt_loop junk fmt ap s (sdslen s);
     b \<leftarrow> mem_put i [0] (sds_buf s);
     Some (s\<lparr>sds_buf := b\<rparr>)
   }"

section \<open>\<open>sdscatvprintf\<close>\<close>

text \<open>
  \<open>vsnprintf(buf, n, fmt, ap)\<close> stores at most \<open>n - 1\<close> bytes of the formatted text \<open>out\<close> and a
  terminator; what the C library makes of the format and the arguments is the parameter \<open>out\<close>.
\<close>

definition vsnprintf :: "byte list \<Rightarrow> nat \<Rightarrow> byte list \<Rightarrow> byte list" where
  "vsnprintf out n buf = (let w = take (n - 1) out @ [0] in w @ drop (length w) buf)"

lemma vsnprintf_zero:
  assumes "length out + 1 < n" "length buf = n" "buf ! (n - 2) = 0"
  shows "vsnprintf out n buf ! (n - 2) = 0"
proof (cases "n = length out + 2")
  case False
  then obtain m where n: "n = length out + 3 + m" using assms(1) le_Suc_ex [of "length out + 3" n] by auto
  have "n - 2 = length out + Suc m" "vsnprintf out n buf = out @ 0 # drop (length out + 1) buf"
    by (simp_all add: n vsnprintf_def)
  with assms(2,3) n show ?thesis by (simp add: nth_append)
qed (simp add: vsnprintf_def nth_append)

text \<open>
  The loop that doubles the buffer until the text fits.  The buffer is at least 1024 bytes; for a
  buffer of less than two bytes the store to \<open>buf[buflen-2]\<close> is out of bounds.
\<close>

function catvprintf_loop :: "(nat \<Rightarrow> byte) \<Rightarrow> byte list \<Rightarrow> nat \<Rightarrow> byte list option" where
  "catvprintf_loop junk out buflen =
    (if buflen < 2 then None
     else
       (let buf = vsnprintf out buflen ((map junk [0..<buflen])[buflen - 2 := 0]) in
        if buf ! (buflen - 2) \<noteq> 0 then catvprintf_loop junk out (buflen * 2) else Some buf))"
  by pat_completeness auto
termination
proof (relation "measure (\<lambda>(junk, out, buflen). length out + 2 - buflen)")
  fix junk :: "nat \<Rightarrow> byte" and out :: "byte list" and buflen :: nat and buf
  assume "\<not> buflen < 2" "buf = vsnprintf out buflen ((map junk [0..<buflen])[buflen - 2 := 0])" "buf ! (buflen - 2) \<noteq> 0"
  then have "buflen \<le> length out + 1"
    using vsnprintf_zero [of out buflen "(map junk [0..<buflen])[buflen - 2 := 0]"] by fastforce
  with \<open>\<not> buflen < 2\<close> show "((junk, out, buflen * 2), junk, out, buflen) \<in> measure (\<lambda>(junk, out, buflen). length out + 2 - buflen)"
    by simp
qed simp

declare catvprintf_loop.simps [simp del]

definition sdscatvprintf :: "(nat \<Rightarrow> byte) \<Rightarrow> sds \<Rightarrow> nat \<Rightarrow> byte list \<Rightarrow> sds option" where
  "sdscatvprintf junk s fmtlen out =
    (let buflen = fmtlen * 2;
         buflen' = (if buflen > 1024 then buflen else 1024)
     in do { buf \<leftarrow> catvprintf_loop junk out buflen'; sdscat junk s buf })"

lemma catvprintf_loop_spec:
  "0 \<notin> set out \<Longrightarrow> 2 \<le> n \<Longrightarrow> \<exists>r. catvprintf_loop junk out n = Some (out @ 0 # r)"
proof (induction junk out n rule: catvprintf_loop.induct)
  case (1 junk out n)
  let ?buf = "vsnprintf out n ((map junk [0..<n])[n - 2 := 0])"
  have e: "catvprintf_loop junk out n = (if ?buf ! (n - 2) \<noteq> 0 then catvprintf_loop junk out (n * 2) else Some ?buf)"
    using "1.prems"(2) by (subst catvprintf_loop.simps) (simp add: Let_def)
  show ?case
  proof (cases "n \<le> length out + 1")
    case True
    then have "?buf ! (n - 2) = out ! (n - 2)" "n - 2 < length out"
      using "1.prems"(2) by (auto simp: vsnprintf_def Let_def nth_append)
    then have "?buf ! (n - 2) \<noteq> 0" using "1.prems"(1) by (metis nth_mem)
    with "1.IH" "1.prems" e show ?thesis by simp
  next
    case False
    then have "?buf = out @ 0 # drop (length out + 1) ((map junk [0..<n])[n - 2 := 0])"
      by (simp add: vsnprintf_def Let_def)
    moreover have "?buf ! (n - 2) = 0" using False "1.prems"(2) by (intro vsnprintf_zero) simp_all
    ultimately show ?thesis using e by simp
  qed
qed

lemma sdscatvprintf_appends:
  assumes "sds_wf s" "0 \<notin> set out" "sds_room (sdslen s + length out)"
  shows "\<exists>s'. sdscatvprintf junk s fmtlen out = Some s' \<and> sds_ok s' \<and> sds_val s' = sds_val s @ out"
proof -
  obtain r where r: "catvprintf_loop junk out (if fmtlen * 2 > 1024 then fmtlen * 2 else 1024) = Some (out @ 0 # r)"
    using catvprintf_loop_spec [OF assms(2), of "if fmtlen * 2 > 1024 then fmtlen * 2 else 1024" junk] by fastforce
  have "takeWhile (\<lambda>c. c \<noteq> 0) out = out" unfolding takeWhile_eq_all_conv using assms(2) by auto
  then have "c_strlen (out @ 0 # r) = Some (length out)" by (simp add: c_strlen_def takeWhile_stop)
  then show ?thesis
    using sdscatlen_spec [OF assms(1), of "length out" "out @ 0 # r" junk] assms(3) r
    by (simp add: sdscatvprintf_def Let_def sdscat_def)
qed

section \<open>What the number loops compute\<close>

lemma ll2str_digits_spec:
  "length pre = p \<Longrightarrow> length (dec_nat v) \<le> length r \<Longrightarrow>
    ll2str_digits (pre @ r) p v = Some (pre @ rev (dec_nat v) @ drop (length (dec_nat v)) r, p + length (dec_nat v))"
proof (induction v arbitrary: pre p r rule: dec_nat.induct)
  case (1 v)
  obtain x r' where r: "r = x # r'" using "1.prems"(2) dec_nat_nonempty [of v] by (cases r) auto
  have put: "mem_put p [48 + of_nat (v mod 10)] (pre @ r) = Some ((pre @ [48 + of_nat (v mod 10)]) @ r')"
    using "1.prems"(1) r mem_put_append [of pre p "[x]" "[48 + of_nat (v mod 10)]" r'] by simp
  show ?case
  proof (cases "v < 10")
    case True
    then show ?thesis using put r by (simp add: ll2str_digits.simps [of _ p v] dec_nat.simps [of v])
  next
    case False
    have d: "dec_nat v = dec_nat (v div 10) @ [48 + of_nat (v mod 10)]" using False by (simp add: dec_nat_step)
    have "ll2str_digits (pre @ r) p v = ll2str_digits ((pre @ [48 + of_nat (v mod 10)]) @ r') (p + 1) (v div 10)"
      using put div_eq_0_iff [of v 10] False by (simp add: ll2str_digits.simps [of _ p v])
    also have "\<dots> = Some ((pre @ [48 + of_nat (v mod 10)]) @ rev (dec_nat (v div 10)) @ drop (length (dec_nat (v div 10))) r',
        p + 1 + length (dec_nat (v div 10)))"
      using False "1.prems" r d by (intro "1.IH") auto
    finally show ?thesis by (simp add: d r)
  qed
qed

lemma ll2str_reverse_spec: "ll2str_reverse (a @ xs @ c) (length a) (length a + length xs - 1) = a @ rev xs @ c"
proof (induction "length xs" arbitrary: a xs c rule: less_induct)
  case less
  show ?case
  proof (cases "length xs < 2")
    case True
    then have "rev xs = xs" by (cases xs) (auto split: list.splits)
    then show ?thesis using True by (subst ll2str_reverse.simps) auto
  next
    case False
    then obtain x ys where x: "xs = x # ys" "ys \<noteq> []" by (cases xs) auto
    then obtain m y where m: "xs = x # m @ [y]" by (metis append_butlast_last_id)
    let ?s = "a @ xs @ c"
    have y: "?s ! length a = x" "?s ! (length a + length xs - 1) = y"
      by (auto simp: m nth_append)
    have s2: "?s[length a := y, length a + length xs - 1 := x] = (a @ [y]) @ m @ (x # c)"
      by (auto simp: m list_update_append)
    have "ll2str_reverse ?s (length a) (length a + length xs - 1)
        = ll2str_reverse ((a @ [y]) @ m @ (x # c)) (length (a @ [y])) (length (a @ [y]) + length m - 1)"
      unfolding ll2str_reverse.simps [of ?s] Let_def y s2 by (simp add: m)
    also have "\<dots> = (a @ [y]) @ rev m @ (x # c)" by (rule less) (simp add: m)
    finally show ?thesis by (simp add: m)
  qed
qed

lemma ll2str_reverse_0: "ll2str_reverse (xs @ c) 0 (length xs - 1) = rev xs @ c"
  using ll2str_reverse_spec [of "[]" xs c] by simp

lemma drop_room: "n < length r \<Longrightarrow> mem_put (length (a :: byte list)) [x] (a @ drop n r) = Some (a @ x # drop (n + 1) r)"
  using mem_put_append [of a "length a" "[r ! n]" "[x]" "drop (n + 1) r"]
  by (metis Cons_nth_drop_Suc One_nat_def append_Cons append_Nil add.right_neutral add_Suc_right length_Cons list.size(3))

lemma sdsull2str_spec:
  assumes "length (dec_nat v) < length buf"
  shows "sdsull2str buf v = Some (dec_nat v @ 0 # drop (length (dec_nat v) + 1) buf, length (dec_nat v))"
proof -
  have "ll2str_digits buf 0 v = Some (rev (dec_nat v) @ drop (length (dec_nat v)) buf, length (dec_nat v))"
    using ll2str_digits_spec [of "[]" 0 v buf] assms by simp
  moreover have "mem_put (length (dec_nat v)) [0] (rev (dec_nat v) @ drop (length (dec_nat v)) buf)
      = Some (rev (dec_nat v) @ 0 # drop (length (dec_nat v) + 1) buf)"
    using drop_room [OF assms, of "rev (dec_nat v)"] by simp
  ultimately show ?thesis
    using ll2str_reverse_0 [of "rev (dec_nat v)"] by (simp add: sdsull2str_def)
qed

lemma sdsll2str_spec:
  assumes "length (dec v) < length buf"
  shows "sdsll2str buf v = Some (dec v @ 0 # drop (length (dec v) + 1) buf, length (dec v))"
proof (cases "v < 0")
  case False
  then show ?thesis using sdsull2str_spec [of "nat v" buf] assms by (simp add: sdsll2str_def sdsull2str_def dec_def Let_def)
next
  case True
  let ?d = "dec_nat (nat (- v))" and ?n = "length (dec_nat (nat (- v)))"
  have n: "?n + 1 < length buf" using assms True by (simp add: dec_def)
  have 1: "ll2str_digits buf 0 (nat (- v)) = Some (rev ?d @ drop ?n buf, ?n)"
    using ll2str_digits_spec [of "[]" 0 "nat (- v)" buf] n by simp
  have 2: "mem_put ?n [45] (rev ?d @ drop ?n buf) = Some ((rev ?d @ [45]) @ drop (?n + 1) buf)"
    using drop_room [of ?n buf "rev ?d" 45] n by simp
  have 3: "mem_put (?n + 1) [0] ((rev ?d @ [45]) @ drop (?n + 1) buf) = Some ((rev ?d @ [45]) @ 0 # drop (?n + 2) buf)"
    using drop_room [OF n, of "rev ?d @ [45]" 0] by simp
  have "ll2str_reverse ((rev ?d @ [45]) @ 0 # drop (?n + 2) buf) 0 ?n = dec v @ 0 # drop (?n + 2) buf"
    using ll2str_reverse_0 [of "rev ?d @ [45]"] True by (simp add: dec_def)
  then show ?thesis using True 1 2 3 by (simp add: sdsll2str_def Let_def dec_def)
qed

section \<open>What \<open>sdscatfmt\<close> appends\<close>

text \<open>The text of one conversion and of a format without its terminator; \<open>None\<close> where C is undefined.\<close>

definition arg_out :: "byte \<Rightarrow> fmt_arg list \<Rightarrow> (byte list \<times> fmt_arg list) option" where
  "arg_out next ap =
    (if next = 115 then
       (case ap of Arg_cstr str # ap' \<Rightarrow> if 0 \<in> set str then Some (takeWhile (\<lambda>c. c \<noteq> 0) str, ap') else None | _ \<Rightarrow> None)
     else if next = 83 then
       (case ap of Arg_sds str # ap' \<Rightarrow> if sds_ok str then Some (sds_val str, ap') else None | _ \<Rightarrow> None)
     else if next = 105 then
       (case ap of Arg_int n # ap' \<Rightarrow> if - 2147483648 \<le> n \<and> n < 2147483648 then Some (dec n, ap') else None | _ \<Rightarrow> None)
     else if next = 73 then
       (case ap of Arg_ll n # ap' \<Rightarrow> if LLONG_MIN \<le> n \<and> n \<le> LLONG_MAX then Some (dec n, ap') else None | _ \<Rightarrow> None)
     else if next = 117 then
       (case ap of Arg_uint n # ap' \<Rightarrow> if n < 4294967296 then Some (dec_nat n, ap') else None | _ \<Rightarrow> None)
     else if next = 85 then
       (case ap of Arg_ull n # ap' \<Rightarrow> if n \<le> ULLONG_MAX then Some (dec_nat n, ap') else None | _ \<Rightarrow> None)
     else Some ([next], ap))"

fun fmt_out :: "byte list \<Rightarrow> fmt_arg list \<Rightarrow> byte list option" where
  "fmt_out [] ap = Some []"
| "fmt_out (c # f) ap =
    (if c = 37 then
       (case f of
          [] \<Rightarrow> None
        | next # f' \<Rightarrow>
            (case arg_out next ap of
               None \<Rightarrow> None
             | Some (bs, ap') \<Rightarrow> map_option (\<lambda>out. bs @ out) (fmt_out f' ap')))
     else map_option (\<lambda>out. c # out) (fmt_out f ap))"

lemma sdsinclen_fits:
  assumes "sds_wf s" "sdslen s + k \<le> sdsalloc s"
  shows "sdsinclen (s\<lparr>sds_buf := b\<rparr>) k = sdssetlen (s\<lparr>sds_buf := b\<rparr>) (sdslen s + k)"
proof (cases "sds_type s = SDS_TYPE_5")
  case True
  then have "sdslen s + k < 32" "SDS_TYPE_5_LEN (sds_flags s) = sdslen s"
    using assms by (auto simp: sds_wf_def sds_bits_def sdslen_def)
  with True show ?thesis by (simp add: sdsinclen_def sdssetlen_def)
next
  case False
  with sds_wf_facts(1) [OF assms(1)] show ?thesis by (simp add: sdsinclen_def sdssetlen_def sdslen_def)
qed

text \<open>Bytes stored at the end of the string, the terminator not yet behind them.\<close>

lemma append_wf:
  assumes "sds_wf s" "sdslen s + length bs \<le> sdsalloc s"
  shows "\<exists>b. mem_put (sdslen s) bs (sds_buf s) = Some b \<and> sds_wf (sdsinclen (s\<lparr>sds_buf := b\<rparr>) (length bs)) \<and>
    sdslen (sdsinclen (s\<lparr>sds_buf := b\<rparr>) (length bs)) = sdslen s + length bs \<and>
    sds_val (sdsinclen (s\<lparr>sds_buf := b\<rparr>) (length bs)) = sds_val s @ bs"
proof -
  define b where "b = take (sdslen s) (sds_buf s) @ bs @ drop (sdslen s + length bs) (sds_buf s)"
  have len: "sdslen s + length bs < length (sds_buf s)" using sds_wf_facts(6) [OF assms] .
  have lb: "length b = length (sds_buf s)" and "take (sdslen s + length bs) b = sds_val s @ bs"
    using len by (auto simp: b_def sds_val_def)
  moreover have "mem_put (sdslen s) bs (sds_buf s) = Some b" using len by (simp add: mem_put_def b_def)
  ultimately show ?thesis
    unfolding sdsinclen_fits [OF assms] using sds_setlen_wf [OF assms lb] by auto
qed

lemma fmt_putc_spec:
  assumes "sds_wf s" "1 \<le> sdsavail s"
  shows "\<exists>s'. fmt_putc s (sdslen s) c = Some (s', sdslen s') \<and> sds_wf s' \<and> sds_val s' = sds_val s @ [c]"
proof -
  have "sdslen s + length [c] \<le> sdsalloc s" using assms(2) sds_wf_avail [OF assms(1)] by simp
  from append_wf [OF assms(1) this] show ?thesis by (auto simp: fmt_putc_def)
qed

lemma fmt_append_spec:
  assumes "sds_wf s" "l \<le> length str" "sds_room (sdslen s + l)"
  shows "\<exists>s'. fmt_append junk s (sdslen s) str l = Some (s', sdslen s') \<and> sds_wf s' \<and> sds_val s' = sds_val s @ take l str"
proof -
  obtain s1 where s1: "(if sdsavail s < l then sdsMakeRoomFor junk s l else Some s) = Some s1" "sds_wf s1"
    "sds_val s1 = sds_val s" "sdslen s1 = sdslen s" "sdslen s1 + l \<le> sdsalloc s1"
    using sdsMakeRoomFor_spec [OF assms(1), of l junk] assms sds_wf_avail [OF assms(1)] sds_wf_facts(2) [OF assms(1)]
    by (cases "sdsavail s < l") auto
  have str: "mem_get 0 l str = Some (take l str)" "length (take l str) = l" using assms(2) by (auto simp: mem_get_def)
  from append_wf [OF s1(2), of "take l str"] s1(5) str(2) obtain b where
    b: "mem_put (sdslen s1) (take l str) (sds_buf s1) = Some b" "sds_wf (sdsinclen (s1\<lparr>sds_buf := b\<rparr>) l)"
    "sdslen (sdsinclen (s1\<lparr>sds_buf := b\<rparr>) l) = sdslen s1 + l" "sds_val (sdsinclen (s1\<lparr>sds_buf := b\<rparr>) l) = sds_val s1 @ take l str"
    by auto
  then show ?thesis unfolding fmt_append_def s1(1) Option.bind.simps str(1) using s1(3,4) by simp
qed

lemma fmt_append_num:
  assumes "sds_wf s" "sds_room (sdslen s + length bs)" "conv = Some (bs @ r, length bs)"
  shows "\<exists>s'. do { (buf, l) \<leftarrow> conv; (s, i) \<leftarrow> fmt_append junk s (sdslen s) buf l; Some (s, i, ap) }
      = Some (s', sdslen s', ap) \<and> sds_wf s' \<and> sds_val s' = sds_val s @ bs"
  using fmt_append_spec [OF assms(1), of "length bs" "bs @ r" junk] assms(2,3) by auto

lemma length_dec_nat_ull: "n \<le> ULLONG_MAX \<Longrightarrow> length (dec_nat n) \<le> 20"
  using length_dec_nat_le [of n 19] by simp

lemma fmt_spec_out:
  assumes "arg_out c ap = Some (bs, ap')" "sds_wf s" "1 \<le> sdsavail s" "sds_room (sdslen s + length bs)"
  shows "\<exists>s'. fmt_spec junk c ap s (sdslen s) = Some (s', sdslen s', ap') \<and> sds_wf s' \<and> sds_val s' = sds_val s @ bs"
proof -
  consider (s) str where "c = 115" "ap = Arg_cstr str # ap'" "0 \<in> set str" "bs = takeWhile (\<lambda>c. c \<noteq> 0) str"
    | (S) str where "c = 83" "ap = Arg_sds str # ap'" "sds_ok str" "bs = sds_val str"
    | (i) n where "c = 105" "ap = Arg_int n # ap'" "LLONG_MIN \<le> n" "n \<le> LLONG_MAX" "bs = dec n"
    | (I) n where "c = 73" "ap = Arg_ll n # ap'" "LLONG_MIN \<le> n" "n \<le> LLONG_MAX" "bs = dec n"
    | (u) n where "c = 117" "ap = Arg_uint n # ap'" "n \<le> ULLONG_MAX" "bs = dec_nat n"
    | (U) n where "c = 85" "ap = Arg_ull n # ap'" "n \<le> ULLONG_MAX" "bs = dec_nat n"
    | (chr) "c \<noteq> 115" "c \<noteq> 83" "c \<noteq> 105" "c \<noteq> 73" "c \<noteq> 117" "c \<noteq> 85" "ap' = ap" "bs = [c]"
    using assms(1) by (auto simp: arg_out_def split: if_splits list.splits fmt_arg.splits)
  then show ?thesis
  proof cases
    case s
    have "take (length bs) str = bs" unfolding s(4) by (metis takeWhile_eq_take)
    moreover have "length bs \<le> length str" using s(4) length_takeWhile_le by auto
    ultimately show ?thesis using fmt_append_spec [OF assms(2), of "length bs" str junk] assms(4) s
      by (auto simp: fmt_spec_def c_strlen_def)
  next
    case S
    then have "sds_wf str" by (simp add: sds_ok_def)
    then have "sdslen str < length (sds_buf str)" "length bs = sdslen str" "take (sdslen str) (sds_buf str) = bs"
      using sds_wf_facts S(4) by (auto simp: sds_val_def)
    then show ?thesis using fmt_append_spec [OF assms(2), of "sdslen str" "sds_buf str" junk] assms(4) S
      by (auto simp: fmt_spec_def)
  next
    case i
    then have "sdsll2str (map junk [0..<21]) n = Some (bs @ 0 # drop (length bs + 1) (map junk [0..<21]), length bs)"
      using length_dec_le [of n] sdsll2str_spec [of n "map junk [0..<21]"] by simp
    from fmt_append_num [OF assms(2,4) this, of junk ap'] show ?thesis using i(1,2) by (simp add: fmt_spec_def)
  next
    case I
    then have "sdsll2str (map junk [0..<21]) n = Some (bs @ 0 # drop (length bs + 1) (map junk [0..<21]), length bs)"
      using length_dec_le [of n] sdsll2str_spec [of n "map junk [0..<21]"] by simp
    from fmt_append_num [OF assms(2,4) this, of junk ap'] show ?thesis using I(1,2) by (simp add: fmt_spec_def)
  next
    case u
    then have "sdsull2str (map junk [0..<21]) n = Some (bs @ 0 # drop (length bs + 1) (map junk [0..<21]), length bs)"
      using length_dec_nat_ull [of n] sdsull2str_spec [of n "map junk [0..<21]"] by simp
    from fmt_append_num [OF assms(2,4) this, of junk ap'] show ?thesis using u(1,2) by (simp add: fmt_spec_def)
  next
    case U
    then have "sdsull2str (map junk [0..<21]) n = Some (bs @ 0 # drop (length bs + 1) (map junk [0..<21]), length bs)"
      using length_dec_nat_ull [of n] sdsull2str_spec [of n "map junk [0..<21]"] by simp
    from fmt_append_num [OF assms(2,4) this, of junk ap'] show ?thesis using U(1,2) by (simp add: fmt_spec_def)
  next
    case chr
    then show ?thesis using fmt_putc_spec [OF assms(2,3), of c] by (auto simp: fmt_spec_def)
  qed
qed

lemma sdscatfmt_loop_out:
  assumes "fmt_out fmt ap = Some out" "0 \<notin> set fmt" "sds_wf s" "sds_room (sdslen s + length out + 1)"
  shows "\<exists>s'. sdscatfmt_loop junk (fmt @ [0]) ap s (sdslen s) = Some (s', sdslen s') \<and> sds_wf s' \<and>
    sds_val s' = sds_val s @ out"
  using assms
proof (induction fmt ap arbitrary: s out rule: fmt_out.induct)
  case (2 c f ap)
  obtain s1 where s1: "(if sdsavail s = 0 then sdsMakeRoomFor junk s 1 else Some s) = Some s1" "sds_wf s1"
    "sds_val s1 = sds_val s" "sdslen s1 = sdslen s" "1 \<le> sdsavail s1"
  proof (cases "sdsavail s = 0")
    case True
    from sdsMakeRoomFor_spec [OF "2.prems"(3), of 1 junk] "2.prems"(4) obtain s1 where
      s1: "sdsMakeRoomFor junk s 1 = Some s1" "sds_wf s1" "sds_val s1 = sds_val s" "sdslen s1 = sdslen s"
        "sdslen s + 1 \<le> sdsalloc s1" by auto
    with that [of s1] True sds_wf_avail [OF s1(2)] show ?thesis by simp
  next
    case False
    with that [of s] "2.prems"(3) show ?thesis by simp
  qed
  show ?case
  proof (cases "c = 37")
    case True
    then obtain d f' bs ap' out' where f: "f = d # f'" "arg_out d ap = Some (bs, ap')" "fmt_out f' ap' = Some out'" "out = bs @ out'"
      using "2.prems"(1) by (auto split: list.splits option.splits)
    obtain s2 where s2: "fmt_spec junk d ap s1 (sdslen s1) = Some (s2, sdslen s2, ap')" "sds_wf s2" "sds_val s2 = sds_val s1 @ bs"
      using fmt_spec_out [OF f(2) s1(2,5), of junk] s1(4) "2.prems"(4) f(4) by auto
    have l2: "sdslen s2 = sdslen s + length bs" using s2 s1 sds_wf_facts(4) by (metis length_append)
    obtain s3 where "sdscatfmt_loop junk (f' @ [0]) ap' s2 (sdslen s2) = Some (s3, sdslen s3)" "sds_wf s3"
      "sds_val s3 = sds_val s2 @ out'"
      using "2.IH"(1) [OF True f(1,2) refl f(3) _ s2(2)] "2.prems" f l2 by auto
    then show ?thesis using True f s1 s2 "2.prems"(2) by simp
  next
    case False
    then obtain out' where f: "fmt_out f ap = Some out'" "out = c # out'" using "2.prems"(1) by auto
    obtain s2 where s2: "fmt_putc s1 (sdslen s1) c = Some (s2, sdslen s2)" "sds_wf s2" "sds_val s2 = sds_val s1 @ [c]"
      using fmt_putc_spec [OF s1(2,5)] by blast
    have l2: "sdslen s2 = sdslen s + 1" using s2 s1 sds_wf_facts(4) by (metis length_append_singleton Suc_eq_plus1)
    obtain s3 where "sdscatfmt_loop junk (f @ [0]) ap s2 (sdslen s2) = Some (s3, sdslen s3)" "sds_wf s3"
      "sds_val s3 = sds_val s2 @ out'"
      using "2.IH"(2) [OF False f(1) _ s2(2)] "2.prems" f l2 by auto
    then show ?thesis using False f s1 s2 "2.prems"(2) by simp
  qed
qed simp

section \<open>Properties\<close>

text \<open>Formatting any 64-bit signed integer, \<open>LLONG_MIN\<close> included, stays within the 21 bytes of the
  local buffer and makes a well-formed string of its decimal notation, which \<open>string2ll\<close> reads back as
  the same integer.\<close>

lemma sdsfromlonglong_roundtrip:
  assumes "LLONG_MIN \<le> v" "v \<le> LLONG_MAX"
  shows "\<exists>s. sdsfromlonglong junk v = Some s \<and> sds_ok s \<and> sds_val s = dec v \<and> string2ll (sds_val s) = Some v"
proof -
  have n: "length (dec v) \<le> 20" using length_dec_le [OF assms] .
  let ?buf = "dec v @ 0 # drop (length (dec v) + 1) (map junk [0..<21])"
  have "sdsll2str (map junk [0..<21]) v = Some (?buf, length (dec v))" using n by (intro sdsll2str_spec) simp
  moreover obtain s where "sdsnewlen junk (Init_bytes ?buf) (length (dec v)) = Some s" "sds_ok s" "sds_val s = dec v"
    using sdsnewlen_spec [of "length (dec v)" "Init_bytes ?buf" junk] n by auto
  ultimately show ?thesis using assms by (simp add: sdsfromlonglong_def string2ll_spec)
qed

text \<open>C34: \<open>sdscatfmt\<close>, given a format and arguments of the types its conversions ask for, appends to the
  string the format with every conversion replaced by the text of its argument (a C string up to its
  terminator, a dynamic string, or the decimal notation of an integer), whatever room the string had,
  and leaves it well-formed.\<close>

theorem sdscatfmt_formats:
  assumes "sds_ok s" "fmt_out fmt ap = Some out" "0 \<notin> set fmt" "sds_room (sdslen s + length out + 1)"
  shows "\<exists>s'. sdscatfmt junk s (fmt @ [0]) ap = Some s' \<and> sds_ok s' \<and> sds_val s' = sds_val s @ out"
proof -
  obtain s1 where s1: "sdscatfmt_loop junk (fmt @ [0]) ap s (sdslen s) = Some (s1, sdslen s1)" "sds_wf s1"
    "sds_val s1 = sds_val s @ out"
    using sdscatfmt_loop_out [OF assms(2,3) _ assms(4), of junk] assms(1) by (auto simp: sds_ok_def)
  have len: "sdslen s1 < length (sds_buf s1)" using sds_wf_facts(3) [OF s1(2)] .
  define b where "b = take (sdslen s1) (sds_buf s1) @ 0 # drop (sdslen s1 + 1) (sds_buf s1)"
  have "sdscatfmt junk s (fmt @ [0]) ap = Some (s1\<lparr>sds_buf := b\<rparr>)"
    using len by (simp add: sdscatfmt_def s1(1) mem_put_def b_def)
  moreover have "sds_ok (s1\<lparr>sds_buf := b\<rparr>)" "sds_val (s1\<lparr>sds_buf := b\<rparr>) = sds_val s1"
    using s1(2) len by (auto simp: sds_ok_def sds_wf_def sds_val_def b_def nth_append)
  ultimately show ?thesis using s1(3) by auto
qed

theorem sdscatfmt_formats_witness:
  "\<exists>s'. sdscatfmt (\<lambda>_. 7) (ex_sds [65]) (bytes ''%i-%s%%'' @ [0]) [Arg_int (- 42), Arg_cstr [66, 0, 67]] = Some s' \<and>
    sds_ok s' \<and> sds_val s' = bytes ''A-42-B%''"
proof -
  have "sds_ok (ex_sds [65])" "sds_val (ex_sds [65]) = [65]" "0 \<notin> set (bytes ''%i-%s%%'')" "sdslen (ex_sds [65]) = 1"
    "fmt_out (bytes ''%i-%s%%'') [Arg_int (- 42), Arg_cstr [66, 0, 67]] = Some (bytes ''-42-B%'')"
    "[65] @ bytes ''-42-B%'' = bytes ''A-42-B%''" "length (bytes ''-42-B%'') = 6"
    by code_simp+
  with sdscatfmt_formats [of "ex_sds [65]" "bytes ''%i-%s%%''" "[Arg_int (- 42), Arg_cstr [66, 0, 67]]" "bytes ''-42-B%''" "\<lambda>_. 7"]
  show ?thesis by simp
qed

text \<open>A format that ends in a percent sign is read behind its terminator.\<close>

lemma sdscatfmt_trailing_percent: "sdscatfmt junk s [37, 0] [] = None"
  by (auto simp: sdscatfmt_def split: option.splits)

end
