(* ===== verification/Sds_Args.thy ===== *)
theory Sds_Args
  imports Prelude "HOL-Library.Monad_Syntax" "HOL-Library.Sublist"
begin

text \<open>
  The string functions of \<open>sds.c\<close> that build new strings out of old ones: \<open>sdssplitlen\<close>, \<open>sdsjoin\<close>,
  \<open>sdsjoinsds\<close>, \<open>sdscatrepr\<close>, \<open>sdssplitargs\<close>, \<open>sdsmapchars\<close>, \<open>sdstolower\<close>, \<open>sdstoupper\<close>.  A dynamic
  string is its bytes here: theory \<open>Sds\<close> shows that \<open>sdsempty\<close>, \<open>sdsnewlen\<close>, \<open>sdscat\<close> and \<open>sdscatlen\<close>
  do on the blocks what \<open>[]\<close>, copying and \<open>@\<close> do on the bytes.  The character classes are those of
  the C locale.
\<close>

section \<open>Mapping bytes\<close>

definition c_toupper :: "byte \<Rightarrow> byte" where
  "c_toupper c = (if 97 \<le> c \<and> c \<le> 122 then c - 32 else c)"

definition c_tolower_byte :: "byte \<Rightarrow> byte" where
  "c_tolower_byte c = (if 65 \<le> c \<and> c \<le> 90 then c + 32 else c)"

fun sdstolower :: "byte list \<Rightarrow> byte list" where
  "sdstolower [] = []"
| "sdstolower (c # s) = c_tolower_byte c # sdstolower s"

fun sdstoupper :: "byte list \<Rightarrow> byte list" where
  "sdstoupper [] = []"
| "sdstoupper (c # s) = c_toupper c # sdstoupper s"

text \<open>The inner loop of \<open>sdsmapchars\<close> on one byte, at index \<open>i\<close> of the set.\<close>

function mapchars_byte :: "byte list \<Rightarrow> byte list \<Rightarrow> nat \<Rightarrow> nat \<Rightarrow> byte \<Rightarrow> byte" where
  "mapchars_byte from' to setlen i c =
    (if i < setlen then (if c = from' ! i then to ! i else mapchars_byte from' to setlen (i + 1) c) else c)"
  by pat_completeness auto
termination
  by (relation "measure (\<lambda>(f, t, setlen, i, c). setlen - i)") auto

definition sdsmapchars :: "byte list \<Rightarrow> byte list \<Rightarrow> byte list \<Rightarrow> nat \<Rightarrow> byte list" where
  "sdsmapchars s from' to setlen = map (mapchars_byte from' to setlen 0) s"

section \<open>Splitting and joining\<close>

text \<open>
  The loop of \<open>sdssplitlen\<close>.  \<open>slots\<close> is the capacity of the array of tokens, doubled when it has no
  room for two more; storing a token behind it is \<open>None\<close>.  The caller has ruled out an empty separator.
\<close>

function split_loop :: "byte list \<Rightarrow> nat \<Rightarrow> byte list \<Rightarrow> nat \<Rightarrow> nat \<Rightarrow> nat \<Rightarrow> byte list list \<Rightarrow> nat \<Rightarrow> byte list list option"
where
  "split_loop s len sep seplen j start tokens slots =
    (if seplen = 0 then None
     else if int j < int len - (int seplen - 1) then
       (let slots' = (if slots < length tokens + 2 then slots * 2 else slots) in
        if seplen = 1 \<and> s ! j = sep ! 0 \<or> take seplen (drop j s) = take seplen sep then
          (if length tokens < slots' then
             split_loop s len sep seplen (j + seplen - 1 + 1) (j + seplen)
               (tokens @ [take (j - start) (drop start s)]) slots'
           else None)
        else split_loop s len sep seplen (j + 1) start tokens slots')
     else if length tokens < slots then Some (tokens @ [take (len - start) (drop start s)])
     else None)"
  by pat_completeness auto
termination
  by (relation "measure (\<lambda>(s, len, sep, seplen, j, start, tokens, slots). len - j)") auto

declare split_loop.simps [simp del]

text \<open>\<open>Some None\<close> is \<open>NULL\<close>.\<close>

definition sdssplitlen :: "byte list \<Rightarrow> int \<Rightarrow> byte list \<Rightarrow> int \<Rightarrow> byte list list option option" where
  "sdssplitlen s len sep seplen =
    (if seplen < 1 \<or> len < 0 then Some None
     else if len = 0 then Some (Some [])
     else map_option Some (split_loop s (nat len) sep (nat seplen) 0 0 [] 5))"

fun sdsjoinsds :: "byte list list \<Rightarrow> byte list \<Rightarrow> byte list \<Rightarrow> byte list" where
  "sdsjoinsds [] sep join = join"
| "sdsjoinsds (a # argv) sep join =
    (let join1 = join @ a; join2 = (if argv \<noteq> [] then join1 @ sep else join1) in sdsjoinsds argv sep join2)"

text \<open>\<open>sdsjoin\<close>, on zero-terminated strings.\<close>

abbreviation c_str :: "byte list \<Rightarrow> byte list" where "c_str s \<equiv> takeWhile (\<lambda>c. c \<noteq> 0) s"

fun sdsjoin :: "byte list list \<Rightarrow> byte list \<Rightarrow> byte list \<Rightarrow> byte list" where
  "sdsjoin [] sep join = join"
| "sdsjoin (a # argv) sep join =
    (let join1 = join @ c_str a; join2 = (if argv \<noteq> [] then join1 @ c_str sep else join1) in sdsjoin argv sep join2)"

section \<open>Quoted representation\<close>

definition c_isprint :: "byte \<Rightarrow> bool" where
  "c_isprint c \<longleftrightarrow> 32 \<le> c \<and> c < 127"

definition c_isspace :: "byte \<Rightarrow> bool" where
  "c_isspace c \<longleftrightarrow> c = 32 \<or> 9 \<le> c \<and> c \<le> 13"

text \<open>A digit of the conversion \<open>%02x\<close>.\<close>

definition hex_char :: "nat \<Rightarrow> byte" where
  "hex_char n = (if n < 10 then 48 + of_nat n else 87 + of_nat n)"

text \<open>The \<open>switch\<close> of \<open>sdscatrepr\<close>: what is appended for one byte.\<close>

definition repr_byte :: "byte \<Rightarrow> byte list" where
  "repr_byte c =
    (if c = 92 \<or> c = 34 then [92, c]
     else if c = 10 then [92, 110]
     else if c = 13 then [92, 114]
     else if c = 9 then [92, 116]
     else if c = 7 then [92, 97]
     else if c = 8 then [92, 98]
     else if c_isprint c then [c]
     else [92, 120, hex_char (unat c div 16), hex_char (unat c mod 16)])"

fun catrepr_loop :: "byte list \<Rightarrow> byte list \<Rightarrow> byte list" where
  "catrepr_loop s [] = s"
| "catrepr_loop s (c # p) = catrepr_loop (s @ repr_byte c) p"

definition sdscatrepr :: "byte list \<Rightarrow> byte list \<Rightarrow> nat \<Rightarrow> byte list" where
  "sdscatrepr s p len = catrepr_loop (s @ [34]) (take len p) @ [34]"

definition is_hex_digit :: "byte \<Rightarrow> bool" where
  "is_hex_digit c \<longleftrightarrow> 48 \<le> c \<and> c \<le> 57 \<or> 97 \<le> c \<and> c \<le> 102 \<or> 65 \<le> c \<and> c \<le> 70"

definition hex_digit_to_int :: "byte \<Rightarrow> nat" where
  "hex_digit_to_int c =
    (if c = 48 then 0 else if c = 49 then 1 else if c = 50 then 2 else if c = 51 then 3 else if c = 52 then 4
     else if c = 53 then 5 else if c = 54 then 6 else if c = 55 then 7 else if c = 56 then 8 else if c = 57 then 9
     else if c = 97 \<or> c = 65 then 10 else if c = 98 \<or> c = 66 then 11 else if c = 99 \<or> c = 67 then 12
     else if c = 100 \<or> c = 68 then 13 else if c = 101 \<or> c = 69 then 14 else if c = 102 \<or> c = 70 then 15
     else 0)"

section \<open>Splitting a line into arguments\<close>

text \<open>
  \<open>*(p+k)\<close>, the line given from \<open>p\<close> on and without its terminator.  The conditions of the code
  stop at the first false conjunct, so they never look behind the terminator.
\<close>

definition char_from :: "byte list \<Rightarrow> nat \<Rightarrow> byte" where
  "char_from p k = (if k < length p then p ! k else 0)"

text \<open>\<open>if (*p) p++\<close>.\<close>

definition adv :: "byte list \<Rightarrow> byte list" where
  "adv p = (if char_from p 0 \<noteq> 0 then drop 1 p else p)"

definition unescape :: "byte \<Rightarrow> byte" where
  "unescape c =
    (if c = 110 then 10 else if c = 114 then 13 else if c = 116 then 9 else if c = 98 then 8
     else if c = 97 then 7 else c)"

text \<open>The loop \<open>while(!done)\<close> over one token: the token and the rest of the line; \<open>None\<close> is \<open>goto err\<close>.\<close>

function splitargs_token :: "byte list \<Rightarrow> bool \<Rightarrow> bool \<Rightarrow> byte list \<Rightarrow> (byte list \<times> byte list) option" where
  "splitargs_token p inq insq current =
    (if inq then
       (if char_from p 0 = 92 \<and> char_from p 1 = 120 \<and> is_hex_digit (char_from p 2) \<and> is_hex_digit (char_from p 3) then
          (let b = of_nat (hex_digit_to_int (char_from p 2) * 16 + hex_digit_to_int (char_from p 3))
           in splitargs_token (adv (drop 3 p)) inq insq (current @ [b]))
        else if char_from p 0 = 92 \<and> char_from p 1 \<noteq> 0 then
          splitargs_token (adv (drop 1 p)) inq insq (current @ [unescape (char_from p 1)])
        else if char_from p 0 = 34 then
          (if char_from p 1 \<noteq> 0 \<and> \<not> c_isspace (char_from p 1) then None else Some (current, adv p))
        else if char_from p 0 = 0 then None
        else splitargs_token (adv p) inq insq (current @ [char_from p 0]))
     else if insq then
       (if char_from p 0 = 92 \<and> char_from p 1 = 39 then
          splitargs_token (adv (drop 1 p)) inq insq (current @ [39])
        else if char_from p 0 = 39 then
          (if char_from p 1 \<noteq> 0 \<and> \<not> c_isspace (char_from p 1) then None else Some (current, adv p))
        else if char_from p 0 = 0 then None
        else splitargs_token (adv p) inq insq (current @ [char_from p 0]))
     else
       (if char_from p 0 = 32 \<or> char_from p 0 = 10 \<or> char_from p 0 = 13 \<or> char_from p 0 = 9 \<or> char_from p 0 = 0 then
          Some (current, adv p)
        else if char_from p 0 = 34 then splitargs_token (adv p) True insq current
        else if char_from p 0 = 39 then splitargs_token (adv p) inq True current
        else splitargs_token (adv p) inq insq (current @ [char_from p 0])))"
  by pat_completeness auto
termination
  by (relation "measure (\<lambda>(p, inq, insq, current). length p)")
    (auto simp: char_from_def adv_def split: if_splits)

declare splitargs_token.simps [simp del]

lemma length_adv: "length (adv p) \<le> length p" "char_from p 0 \<noteq> 0 \<Longrightarrow> length (adv p) < length p"
  by (auto simp: adv_def char_from_def split: if_splits)

lemma splitargs_token_shorter:
  "splitargs_token p inq insq current = Some (tok, p') \<Longrightarrow> length p' \<le> length p \<and> (char_from p 0 \<noteq> 0 \<longrightarrow> length p' < length p)"
proof (induction "length p" arbitrary: p inq insq current rule: less_induct)
  case less
  have IH: "length p' \<le> length p \<and> (char_from p 0 \<noteq> 0 \<longrightarrow> length p' < length p)"
    if "splitargs_token q a b c = Some (tok, p')" "length q < length p" for q a b c
    using less.hyps [OF that(2,1)] that(2) by auto
  have len: "length (adv p) < length p" "length (adv (drop 1 p)) < length p" "length (adv (drop 3 p)) < length p"
    if "char_from p 0 \<noteq> 0"
    using that length_adv [of p] length_adv(1) [of "drop 1 p"] length_adv(1) [of "drop 3 p"]
    by (auto simp: char_from_def split: if_splits)
  show ?case
  proof (cases "char_from p 0 = 0")
    case True
    then show ?thesis using less.prems by (subst (asm) splitargs_token.simps) (auto simp: adv_def split: if_splits)
  next
    case False
    note IH' = IH [OF _ len(1) [OF False]] IH [OF _ len(2) [OF False], unfolded One_nat_def] IH [OF _ len(3) [OF False]]
    from less.prems show ?thesis
      by (subst (asm) splitargs_token.simps)
        (auto simp: Let_def length_adv dest: IH' split: if_splits)
  qed
qed

function splitargs_loop :: "byte list \<Rightarrow> byte list list \<Rightarrow> byte list list option" where
  "splitargs_loop p vector =
    (let p1 = dropWhile (\<lambda>c. c \<noteq> 0 \<and> c_isspace c) p in
     if char_from p1 0 \<noteq> 0 then
       (case splitargs_token p1 False False [] of
          None \<Rightarrow> None
        | Some (current, p2) \<Rightarrow> splitargs_loop p2 (vector @ [current]))
     else Some vector)"
  by pat_completeness auto
termination
proof (relation "measure (\<lambda>(p, vector). length p)")
  fix p vector p1 cp current p2
  assume "p1 = dropWhile (\<lambda>c. c \<noteq> 0 \<and> c_isspace c) p" "char_from p1 0 \<noteq> 0"
    "splitargs_token p1 False False [] = Some cp" "(current, p2) = cp"
  then have "length p2 < length p1" "length p1 \<le> length p"
    using splitargs_token_shorter [of p1 False False "[]" current p2] length_dropWhile_le [of _ p] by auto
  then show "((p2, vector @ [current]), p, vector) \<in> measure (\<lambda>(p, vector). length p)" by simp
qed simp

declare splitargs_loop.simps [simp del]

text \<open>\<open>None\<close> is \<open>NULL\<close>, for unbalanced quotes.\<close>

definition sdssplitargs :: "byte list \<Rightarrow> byte list list option" where
  "sdssplitargs line = splitargs_loop (c_str line) []"

section \<open>Quoting and splitting back\<close>

lemma hex_char_facts:
  assumes "n < 16"
  shows "is_hex_digit (hex_char n)" "hex_digit_to_int (hex_char n) = n" "hex_char n \<noteq> 0"
proof -
  have "list_all (\<lambda>n. is_hex_digit (hex_char n) \<and> hex_digit_to_int (hex_char n) = n \<and> hex_char n \<noteq> 0) [0..<16]"
    by code_simp
  from all_upt_nat [OF this assms]
  show "is_hex_digit (hex_char n)" "hex_digit_to_int (hex_char n) = n" "hex_char n \<noteq> 0" by auto
qed

lemma byte_hex: "of_nat (unat (c :: byte) div 16 * 16 + unat c mod 16) = c" "unat (c :: byte) div 16 < 16"
proof -
  show "of_nat (unat c div 16 * 16 + unat c mod 16) = c" by (subst div_mult_mod_eq) simp
  have "unat c < 256" using unsigned_less [of c, where 'a = nat] by simp
  then show "unat c div 16 < 16" by simp
qed

lemma repr_byte_nonzero: "0 \<notin> set (repr_byte c)"
  using hex_char_facts(3) [of "unat c div 16"] hex_char_facts(3) [of "unat c mod 16"] byte_hex(2) [of c]
  by (auto simp: repr_byte_def c_isprint_def)

lemma token_repr: "splitargs_token (repr_byte c @ q) True False cur = splitargs_token q True False (cur @ [c])"
proof -
  consider (esc) "c \<in> {92, 34, 10, 13, 9, 7, 8}" | (print) "c \<notin> {92, 34, 10, 13, 9, 7, 8}" "c_isprint c"
    | (hex) "c \<notin> {92, 34, 10, 13, 9, 7, 8}" "\<not> c_isprint c" by blast
  then show ?thesis
  proof cases
    case esc
    then show ?thesis
      by (subst splitargs_token.simps) (auto simp: repr_byte_def char_from_def adv_def unescape_def)
  next
    case print
    then have "c \<noteq> 0" by (auto simp: c_isprint_def)
    with print show ?thesis
      by (subst splitargs_token.simps) (simp add: repr_byte_def char_from_def adv_def)
  next
    case hex
    have "hex_char (unat c mod 16) \<noteq> 0" using hex_char_facts(3) by simp
    with hex show ?thesis
      using hex_char_facts [of "unat c div 16"] hex_char_facts [of "unat c mod 16"] byte_hex [of c]
      by (subst splitargs_token.simps) (simp add: repr_byte_def char_from_def adv_def numeral_2_eq_2 numeral_3_eq_3)
  qed
qed

lemma token_reprs:
  "splitargs_token (concat (map repr_byte a) @ q) True False cur = splitargs_token q True False (cur @ a)"
  by (induction a arbitrary: cur) (simp_all add: token_repr)

lemma catrepr_loop_eq: "catrepr_loop s a = s @ concat (map repr_byte a)"
  by (induction a arbitrary: s) simp_all

abbreviation quoted :: "byte list \<Rightarrow> byte list" where
  "quoted a \<equiv> sdscatrepr [] a (length a)"

lemma quoted_eq: "quoted a = 34 # concat (map repr_byte a) @ [34]"
  by (simp add: sdscatrepr_def catrepr_loop_eq)

lemma token_open: "splitargs_token (34 # q) False False cur = splitargs_token q True False cur"
  by (subst splitargs_token.simps) (simp add: char_from_def adv_def)

lemma token_close:
  "splitargs_token (34 # q) True False cur =
    (if char_from q 0 \<noteq> 0 \<and> \<not> c_isspace (char_from q 0) then None else Some (cur, q))"
  by (subst splitargs_token.simps) (cases q; simp add: char_from_def adv_def)

lemma token_quoted:
  "splitargs_token (quoted a @ q) False False [] =
    (if char_from q 0 \<noteq> 0 \<and> \<not> c_isspace (char_from q 0) then None else Some (a, q))"
  by (simp add: quoted_eq token_open token_reprs token_close)

lemma loop_quoted:
  "splitargs_loop (quoted a @ q) vec =
    (if char_from q 0 \<noteq> 0 \<and> \<not> c_isspace (char_from q 0) then None else splitargs_loop q (vec @ [a]))"
proof -
  have "dropWhile (\<lambda>c. c \<noteq> 0 \<and> c_isspace c) (quoted a @ q) = quoted a @ q" "char_from (quoted a @ q) 0 = 34"
    by (simp_all add: quoted_eq c_isspace_def char_from_def)
  then show ?thesis by (subst splitargs_loop.simps) (simp add: token_quoted)
qed

lemma loop_space: "splitargs_loop (32 # q) vec = splitargs_loop q vec"
  by (simp add: splitargs_loop.simps [of "32 # q"] splitargs_loop.simps [of q] c_isspace_def)

lemma loop_Nil: "splitargs_loop [] vec = Some vec"
  by (simp add: splitargs_loop.simps char_from_def)

lemma sdsjoinsds_acc: "sdsjoinsds argv sep join = join @ sdsjoinsds argv sep []"
proof (induction argv arbitrary: join)
  case (Cons a argv)
  show ?case
    using Cons.IH [of "join @ a @ sep"] Cons.IH [of "a @ sep"] by (cases "argv = []") (simp_all add: Let_def)
qed simp

lemma sdsjoinsds_Cons: "sdsjoinsds (a # argv) sep [] = a @ (if argv = [] then [] else sep @ sdsjoinsds argv sep [])"
  using sdsjoinsds_acc [of argv sep "a @ sep"] by (cases "argv = []") (simp_all add: Let_def)

lemma c_str_terminated: "0 \<notin> set v \<Longrightarrow> c_str (v @ 0 # r) = v"
  by (induction v) auto

lemma loop_line:
  "splitargs_loop (sdsjoinsds (map quoted args) [32] []) vec = Some (vec @ args)"
proof (induction args arbitrary: vec)
  case (Cons a args)
  show ?case
    by (cases "args = []") (simp_all only: list.map sdsjoinsds_Cons loop_quoted, simp_all add: loop_Nil loop_space Cons char_from_def c_isspace_def)
qed (simp add: loop_Nil)

section \<open>Splitting and joining back\<close>

lemma sdsjoinsds_split: "sdsjoinsds (ts @ [a @ sep @ b]) sep [] = sdsjoinsds (ts @ [a, b]) sep []"
  by (induction ts) (simp_all add: sdsjoinsds_Cons del: sdsjoinsds.simps(2))

lemma no_separator:
  assumes "\<And>k. start \<le> k \<Longrightarrow> k < e \<Longrightarrow> take (length sep) (drop k s) \<noteq> sep" "start + m < e + length sep"
  shows "\<not> sublist sep (take m (drop start s))"
proof
  assume "sublist sep (take m (drop start s))"
  then obtain ps ss where ps: "take m (drop start s) = ps @ sep @ ss" by (auto simp: sublist_def)
  then have len: "length ps + length sep \<le> m" by (metis add_leD1 length_append length_take min.bounded_iff add.assoc nle_le)
  have "take (length sep) (drop (length ps) (take m (drop start s))) = sep" unfolding ps by simp
  then have "take (length sep) (drop (start + length ps) s) = sep"
    using len by (simp add: drop_take add.commute min_absorb1 le_diff_conv2)
  with assms(1) [of "start + length ps"] assms(2) len show False by simp
qed

lemma split_loop_spec:
  assumes "sep \<noteq> []" "start \<le> j" "j \<le> length s" "sdsjoinsds (tokens @ [drop start s]) sep [] = s"
    "length tokens < slots" "2 \<le> slots" "\<And>k. start \<le> k \<Longrightarrow> k < j \<Longrightarrow> take (length sep) (drop k s) \<noteq> sep"
    "\<forall>t \<in> set tokens. \<not> sublist sep t"
  shows "\<exists>ts. split_loop s (length s) sep (length sep) j start tokens slots = Some ts \<and>
    sdsjoinsds ts sep [] = s \<and> (\<forall>t \<in> set ts. \<not> sublist sep t)"
  using assms
proof (induction "length s - j" arbitrary: j start tokens slots rule: less_induct)
  case less
  let ?n = "length sep" and ?slots = "if slots < length tokens + 2 then slots * 2 else slots"
  have n: "?n \<noteq> 0" using less.prems(1) by simp
  have slots: "length tokens + 1 < ?slots" "2 \<le> ?slots" using less.prems(5,6) by auto
  show ?case
  proof (cases "int j < int (length s) - (int ?n - 1)")
    case False
    then have "split_loop s (length s) sep ?n j start tokens slots = Some (tokens @ [take (length s - start) (drop start s)])"
      using n less.prems(5) by (simp add: split_loop.simps)
    moreover have "\<not> sublist sep (take (length s - start) (drop start s))"
      using False less.prems(2,3) by (intro no_separator [OF less.prems(7)]) auto
    ultimately show ?thesis using less.prems by simp
  next
    case True
    then have j: "j < length s" "j + ?n \<le> length s" using n by linarith+
    show ?thesis
    proof (cases "take ?n (drop j s) = sep")
      case m: True
      let ?tok = "take (j - start) (drop start s)"
      have step: "split_loop s (length s) sep ?n j start tokens slots
          = split_loop s (length s) sep ?n (j + ?n) (j + ?n) (tokens @ [?tok]) ?slots"
        using True m n slots(1) by (subst split_loop.simps) (simp add: Let_def)
      have "drop start s = ?tok @ sep @ drop (j + ?n) s"
        using m less.prems(2) by (metis add.commute append_take_drop_id drop_drop le_add_diff_inverse)
      then have jn: "sdsjoinsds ((tokens @ [?tok]) @ [drop (j + ?n) s]) sep [] = s"
        using less.prems(4) sdsjoinsds_split [of tokens ?tok sep "drop (j + ?n) s"] by simp
      have "\<not> sublist sep ?tok" using n less.prems(2) by (intro no_separator [OF less.prems(7)]) auto
      moreover have "length s - (j + ?n) < length s - j" using j n by linarith
      ultimately show ?thesis unfolding step
        using j n slots jn less.prems(1,8) by (intro less.hyps) auto
    next
      case m: False
      have eq: "(?n = 1 \<and> s ! j = sep ! 0 \<or> take ?n (drop j s) = take ?n sep) = False"
      proof -
        have "take ?n (drop j s) = sep" if "?n = 1" "s ! j = sep ! 0"
          using that j(1) by (cases sep) (auto simp: take_Suc hd_drop_conv_nth)
        with m show ?thesis by auto
      qed
      have step: "split_loop s (length s) sep ?n j start tokens slots
          = split_loop s (length s) sep ?n (j + 1) start tokens ?slots"
        using True n by (subst split_loop.simps) (simp only: Let_def eq if_True if_False)
      have "length s - (j + 1) < length s - j" "j + 1 \<le> length s" using j(1) by linarith+
      then show ?thesis unfolding step
        using slots m less.prems by (intro less.hyps) (auto simp: less_Suc_eq)
    qed
  qed
qed

section \<open>Properties\<close>

text \<open>C35: Any list of arguments, empty ones and ones with quotes, blanks, newlines, zero bytes and
  non-ASCII bytes included, comes back unchanged from \<open>sdssplitargs\<close> when each was quoted by
  \<open>sdscatrepr\<close> and they were joined by blanks, as the comment on \<open>sdssplitargs\<close> promises.\<close>

theorem sdssplitargs_sdscatrepr:
  "sdssplitargs (sdsjoinsds (map (\<lambda>a. sdscatrepr [] a (length a)) args) [32] [] @ [0]) = Some args"
proof -
  have "0 \<notin> set (sdsjoinsds (map quoted args) [32] [])"
    by (induction args) (auto simp: sdsjoinsds_Cons quoted_eq repr_byte_nonzero simp del: sdsjoinsds.simps(2))
  then have "c_str (sdsjoinsds (map quoted args) [32] [] @ [0]) = sdsjoinsds (map quoted args) [32] []"
    by (rule c_str_terminated)
  then show ?thesis by (simp add: sdssplitargs_def loop_line)
qed





end
