(* ===== verification/Resp.thy ===== *)
theory Resp
  imports Sds Sds_Args
begin

text \<open>
  The request parser of \<open>networking.c\<close>: \<open>readQueryFromClient\<close>, \<open>processInputBuffer\<close>,
  \<open>processInlineBuffer\<close>, \<open>processMultibulkBuffer\<close>, \<open>resetClient\<close>.  The query buffer is the value of its
  dynamic string (theory \<open>Sds\<close>), read through \<open>qb_pos\<close>.  The command processor (\<open>processCommand\<close> in
  \<open>server.c\<close>) is a parameter of the loop; what the parser relies on is stated as \<open>command_contract\<close>.
  \<open>None\<close> is a failed \<open>serverAssert\<close> or a loop that does not end.
\<close>

section \<open>Clients\<close>

abbreviation (input) PROTO_INLINE_MAX_SIZE :: nat where "PROTO_INLINE_MAX_SIZE \<equiv> 65536"
abbreviation (input) PROTO_MBULK_BIG_ARG :: int where "PROTO_MBULK_BIG_ARG \<equiv> 32768"
abbreviation (input) PROTO_REQ_INLINE :: nat where "PROTO_REQ_INLINE \<equiv> Suc 0"
abbreviation (input) PROTO_REQ_MULTIBULK :: nat where "PROTO_REQ_MULTIBULK \<equiv> 2"

definition CLIENT_SLAVE :: u32 where "CLIENT_SLAVE = 1"
definition CLIENT_MASTER :: u32 where "CLIENT_MASTER = 2"
definition CLIENT_MULTI :: u32 where "CLIENT_MULTI = 8"
definition CLIENT_BLOCKED :: u32 where "CLIENT_BLOCKED = 16"
definition CLIENT_CLOSE_AFTER_REPLY :: u32 where "CLIENT_CLOSE_AFTER_REPLY = 64"
definition CLIENT_ASKING :: u32 where "CLIENT_ASKING = 512"
definition CLIENT_CLOSE_ASAP :: u32 where "CLIENT_CLOSE_ASAP = 1024"
definition CLIENT_REPLY_SKIP_NEXT :: u32 where "CLIENT_REPLY_SKIP_NEXT = 8388608"
definition CLIENT_REPLY_SKIP :: u32 where "CLIENT_REPLY_SKIP = 16777216"

text \<open>
  The fields of \<open>struct client\<close> the parser works on.  \<open>argc\<close> is the length of \<open>argv\<close>; \<open>cmd_asking\<close> says
  that \<open>cmd->proc\<close> is \<open>askingCommand\<close>, \<open>blocked_module\<close> that \<open>btype\<close> is \<open>BLOCKED_MODULE\<close>; \<open>db\<close> stands for
  the data the commands act on.
\<close>

record 'a client =
  querybuf :: "byte list"
  qb_pos :: nat
  pending_querybuf :: "byte list"
  argv :: "byte list list"
  cmd_asking :: bool
  reqtype :: nat
  multibulklen :: nat
  bulklen :: int
  reply :: "byte list"
  flags :: u32
  blocked_module :: bool
  read_reploff :: int
  reploff :: int
  repl_ack_time :: int
  db :: 'a

record server =
  proto_max_bulk_len :: int
  client_max_querybuf_len :: nat
  clients_paused :: bool
  lua_timedout :: bool
  unixtime :: int

definition resetClient :: "'a client \<Rightarrow> 'a client" where
  "resetClient c =
    (let asking = cmd_asking c;
         c1 = c\<lparr>argv := [], cmd_asking := False, reqtype := 0, multibulklen := 0, bulklen := - 1\<rparr>;
         f1 = (if flags c1 AND CLIENT_MULTI = 0 \<and> \<not> asking then flags c1 AND NOT CLIENT_ASKING else flags c1);
         f2 = f1 AND NOT CLIENT_REPLY_SKIP;
         f3 = (if f2 AND CLIENT_REPLY_SKIP_NEXT \<noteq> 0
               then (f2 OR CLIENT_REPLY_SKIP) AND NOT CLIENT_REPLY_SKIP_NEXT else f2)
     in c1\<lparr>flags := f3\<rparr>)"

section \<open>Errors\<close>

text \<open>
  \<open>addReplyError\<close> and \<open>setProtocolError\<close> without its log message.  The field \<open>reply\<close> is the sequence of
  what was handed to \<open>addReplyString\<close>; the output buffers behind it are not part of the model.
\<close>

definition addReplyError :: "'a client \<Rightarrow> byte list \<Rightarrow> 'a client" where
  "addReplyError c err =
    c\<lparr>reply := reply c @ (if err = [] \<or> hd err \<noteq> 45 then bytes ''-ERR '' else []) @ err @ [13, 10]\<rparr>"

definition setProtocolError :: "'a client \<Rightarrow> 'a client" where
  "setProtocolError c = c\<lparr>flags := flags c OR CLIENT_CLOSE_AFTER_REPLY\<rparr>"

definition proto_error :: "string \<Rightarrow> 'a client \<Rightarrow> 'a client" where
  "proto_error msg c = setProtocolError (addReplyError c (bytes msg))"

text \<open>
  \<open>addReplyErrorFormat(c, "... got '%c'", x)\<close>: the text ends at a zero byte, and newlines become
  blanks.
\<close>

definition expected_dollar :: "byte \<Rightarrow> 'a client \<Rightarrow> 'a client" where
  "expected_dollar x c =
    (let msg = c_str (bytes ''Protocol error: expected '' @ [39, 36, 39] @ bytes '', got '' @ [39, x, 39]);
         msg' = map (\<lambda>b. if b = 13 \<or> b = 10 then 32 else b) msg
     in setProtocolError (addReplyError c msg'))"

section \<open>Inline requests\<close>

text \<open>\<open>strchr(c->querybuf+c->qb_pos, ch)\<close>, as an offset from \<open>qb_pos\<close>; the search ends at a zero byte.\<close>

definition strchr_off :: "byte list \<Rightarrow> byte \<Rightarrow> nat option" where
  "strchr_off s ch =
    (let k = length (takeWhile (\<lambda>x. x \<noteq> ch \<and> x \<noteq> 0) s)
     in if k < length s \<and> s ! k = ch then Some k else None)"

abbreviation unread :: "'a client \<Rightarrow> byte list" where
  "unread c \<equiv> drop (qb_pos c) (querybuf c)"

text \<open>The client and whether the result is \<open>C_OK\<close>.\<close>

definition processInlineBuffer :: "server \<Rightarrow> 'a client \<Rightarrow> 'a client \<times> bool" where
  "processInlineBuffer srv c =
    (case strchr_off (unread c) 10 of
       None \<Rightarrow>
         (if length (querybuf c) - qb_pos c > PROTO_INLINE_MAX_SIZE
          then (proto_error ''Protocol error: too big inline request'' c, False)
          else (c, False))
     | Some nl \<Rightarrow>
         (let (querylen, linefeed_chars) =
                (if nl \<noteq> 0 \<and> unread c ! (nl - 1) = 13 then (nl - 1, 2) else (nl, 1 :: nat));
              aux = take querylen (unread c)
          in case sdssplitargs (aux @ [0]) of
               None \<Rightarrow> (proto_error ''Protocol error: unbalanced quotes in request'' c, False)
             | Some av \<Rightarrow>
                 (let c1 = (if querylen = 0 \<and> flags c AND CLIENT_SLAVE \<noteq> 0
                            then c\<lparr>repl_ack_time := unixtime srv\<rparr> else c)
                  in (c1\<lparr>qb_pos := qb_pos c + querylen + linefeed_chars, argv := filter (\<lambda>a. a \<noteq> []) av\<rparr>, True))))"

section \<open>Multi bulk requests\<close>

datatype 'c step = Go 'c | Stop 'c

text \<open>
  Reading the number of arguments.  \<open>Stop\<close> with \<open>True\<close> and \<open>False\<close> are the early returns of \<open>C_OK\<close> and
  \<open>C_ERR\<close>.
\<close>

definition read_mbulk_count :: "'a client \<Rightarrow> ('a client \<times> bool) step option" where
  "read_mbulk_count c =
    (if argv c \<noteq> [] then None
     else
       (case strchr_off (unread c) 13 of
          None \<Rightarrow>
            Some (Stop
              (if length (querybuf c) - qb_pos c > PROTO_INLINE_MAX_SIZE
               then (proto_error ''Protocol error: too big mbulk count string'' c, False)
               else (c, False)))
        | Some nl \<Rightarrow>
            (if int nl > int (length (querybuf c)) - int (qb_pos c) - 2 then Some (Stop (c, False))
             else if unread c ! 0 \<noteq> 42 then None
             else
               (case string2ll (take (nl - 1) (drop 1 (unread c))) of
                  None \<Rightarrow> Some (Stop (proto_error ''Protocol error: invalid multibulk length'' c, False))
                | Some ll \<Rightarrow>
                    (if ll > 1024 * 1024
                     then Some (Stop (proto_error ''Protocol error: invalid multibulk length'' c, False))
                     else
                       (let c1 = c\<lparr>qb_pos := qb_pos c + nl + 2\<rparr>
                        in if ll \<le> 0 then Some (Stop (c1, True))
                           else Some (Go (c1\<lparr>multibulklen := nat ll\<rparr>, True))))))))"

text \<open>Reading the length of the next argument; \<open>Stop\<close> is \<open>break\<close> or the return of \<open>C_ERR\<close>.\<close>

definition read_bulk_len :: "server \<Rightarrow> 'a client \<Rightarrow> 'a client step" where
  "read_bulk_len srv c =
    (case strchr_off (unread c) 13 of
       None \<Rightarrow>
         Stop (if length (querybuf c) - qb_pos c > PROTO_INLINE_MAX_SIZE
               then proto_error ''Protocol error: too big bulk count string'' c else c)
     | Some nl \<Rightarrow>
         (if int nl > int (length (querybuf c)) - int (qb_pos c) - 2 then Stop c
          else if unread c ! 0 \<noteq> 36 then Stop (expected_dollar (unread c ! 0) c)
          else
            (case string2ll (take (nl - 1) (drop 1 (unread c))) of
               None \<Rightarrow> Stop (proto_error ''Protocol error: invalid bulk length'' c)
             | Some ll \<Rightarrow>
                 (if ll < 0 \<or> ll > proto_max_bulk_len srv
                  then Stop (proto_error ''Protocol error: invalid bulk length'' c)
                  else
                    (let c1 = c\<lparr>qb_pos := qb_pos c + nl + 2\<rparr>;
                         c2 = (if ll \<ge> PROTO_MBULK_BIG_ARG \<and>
                                  int (length (querybuf c1)) - int (qb_pos c1) \<le> ll + 2
                               then c1\<lparr>querybuf := range_spec (querybuf c1) (int (qb_pos c1)) (- 1), qb_pos := 0\<rparr>
                               else c1)
                     in Go (c2\<lparr>bulklen := ll\<rparr>))))))"

text \<open>
  Taking the argument, by copying it or, for a big one that is alone in the buffer, by making the
  buffer itself the argument.
\<close>

definition take_bulk :: "'a client \<Rightarrow> 'a client" where
  "take_bulk c =
    (if qb_pos c = 0 \<and> bulklen c \<ge> PROTO_MBULK_BIG_ARG \<and> int (length (querybuf c)) = bulklen c + 2
     then c\<lparr>argv := argv c @ [take (length (querybuf c) - 2) (querybuf c)], querybuf := []\<rparr>
     else c\<lparr>argv := argv c @ [take (nat (bulklen c)) (unread c)], qb_pos := qb_pos c + nat (bulklen c + 2)\<rparr>)"

text \<open>The loop \<open>while(c->multibulklen)\<close>, given that many arguments are left.\<close>

fun mbulk_loop :: "server \<Rightarrow> nat \<Rightarrow> 'a client \<Rightarrow> 'a client \<times> bool" where
  "mbulk_loop srv 0 c = (c, True)"
| "mbulk_loop srv (Suc n) c =
    (case (if bulklen c = - 1 then read_bulk_len srv c else Go c) of
       Stop c1 \<Rightarrow> (c1, False)
     | Go c1 \<Rightarrow>
         if int (length (querybuf c1)) - int (qb_pos c1) < bulklen c1 + 2 then (c1, False)
         else mbulk_loop srv n ((take_bulk c1)\<lparr>bulklen := - 1, multibulklen := n\<rparr>))"

definition processMultibulkBuffer :: "server \<Rightarrow> 'a client \<Rightarrow> ('a client \<times> bool) option" where
  "processMultibulkBuffer srv c = do {
     st \<leftarrow> (if multibulklen c = 0 then read_mbulk_count c else Some (Go (c, True)));
     (case st of
        Stop r \<Rightarrow> Some r
      | Go (c1, _) \<Rightarrow> if multibulklen c1 = 0 then None else Some (mbulk_loop srv (multibulklen c1) c1))
   }"

section \<open>The input buffer\<close>

text \<open>
  The result of the command processor: the client, whether it returned \<open>C_OK\<close>, and whether the
  current client was freed meanwhile.
\<close>

type_synonym 'a processor = "'a client \<Rightarrow> 'a client \<times> bool \<times> bool"

text \<open>The guards at the head of the loop.\<close>

definition input_blocked :: "server \<Rightarrow> 'a client \<Rightarrow> bool" where
  "input_blocked srv c \<longleftrightarrow>
    flags c AND CLIENT_SLAVE = 0 \<and> clients_paused srv \<or>
    flags c AND CLIENT_BLOCKED \<noteq> 0 \<or>
    lua_timedout srv \<and> flags c AND CLIENT_MASTER \<noteq> 0 \<or>
    flags c AND (CLIENT_CLOSE_AFTER_REPLY OR CLIENT_CLOSE_ASAP) \<noteq> 0"

definition parse_request :: "server \<Rightarrow> 'a client \<Rightarrow> ('a client \<times> bool) option" where
  "parse_request srv c =
    (let c1 = (if reqtype c = 0
               then c\<lparr>reqtype := if unread c ! 0 = 42 then PROTO_REQ_MULTIBULK else PROTO_REQ_INLINE\<rparr> else c)
     in if reqtype c1 = PROTO_REQ_INLINE then Some (processInlineBuffer srv c1)
        else if reqtype c1 = PROTO_REQ_MULTIBULK then processMultibulkBuffer srv c1
        else None)"

text \<open>What follows a complete request; the flag of the result says that the client was freed.\<close>

definition run_command :: "'a processor \<Rightarrow> 'a client \<Rightarrow> 'a client \<times> bool" where
  "run_command processCommand c =
    (if argv c = [] then (resetClient c, False)
     else
       (let (c1, ok, freed) = processCommand c in
        if ok then
          (let c2 = (if flags c1 AND CLIENT_MASTER \<noteq> 0 \<and> flags c1 AND CLIENT_MULTI = 0
                     then c1\<lparr>reploff := read_reploff c1 - int (length (querybuf c1)) + int (qb_pos c1)\<rparr> else c1);
               c3 = (if flags c2 AND CLIENT_BLOCKED = 0 \<or> \<not> blocked_module c2 then resetClient c2 else c2)
           in (c3, freed))
        else (c1, freed)))"

partial_function (option) input_loop :: "server \<Rightarrow> 'a processor \<Rightarrow> 'a client \<Rightarrow> ('a client \<times> bool) option" where
  "input_loop srv processCommand c =
    (if qb_pos c < length (querybuf c) \<and> \<not> input_blocked srv c then
       do {
         (c1, ok) \<leftarrow> parse_request srv c;
         if \<not> ok then Some (c1, False)
         else
           (let (c2, freed) = run_command processCommand c1 in
            if freed then Some (c2, True) else input_loop srv processCommand c2)
       }
     else Some (c, False))"

definition processInputBuffer :: "server \<Rightarrow> 'a processor \<Rightarrow> 'a client \<Rightarrow> ('a client \<times> bool) option" where
  "processInputBuffer srv processCommand c = do {
     (c1, freed) \<leftarrow> input_loop srv processCommand c;
     Some (if \<not> freed \<and> qb_pos c1 \<noteq> 0
           then c1\<lparr>querybuf := range_spec (querybuf c1) (int (qb_pos c1)) (- 1), qb_pos := 0\<rparr> else c1, freed)
   }"

text \<open>
  For a client that is a master, the part of the stream that was applied goes to the sub-slaves; the
  result has those bytes as its third component.
\<close>

definition processInputBufferAndReplicate ::
    "server \<Rightarrow> 'a processor \<Rightarrow> 'a client \<Rightarrow> ('a client \<times> bool \<times> byte list) option" where
  "processInputBufferAndReplicate srv processCommand c =
    (if flags c AND CLIENT_MASTER = 0 then do {
       (c1, freed) \<leftarrow> processInputBuffer srv processCommand c;
       Some (c1, freed, [])
     } else do {
       (c1, freed) \<leftarrow> processInputBuffer srv processCommand c;
       let applied = u64_of (reploff c1 - reploff c);
       Some (if applied \<noteq> 0
             then (c1\<lparr>pending_querybuf := range_spec (pending_querybuf c1) (int applied) (- 1)\<rparr>, freed,
                   take applied (pending_querybuf c1))
             else (c1, freed, []))
     })"

text \<open>What \<open>read(2)\<close> gave: \<open>EAGAIN\<close>, another error or the end of the stream, or bytes.\<close>

datatype read_result = Read_EAGAIN | Read_closed | Read_bytes "byte list"

definition readQueryFromClient ::
    "server \<Rightarrow> 'a processor \<Rightarrow> read_result \<Rightarrow> 'a client \<Rightarrow> ('a client \<times> bool \<times> byte list) option" where
  "readQueryFromClient srv processCommand r c =
    (case r of
       Read_EAGAIN \<Rightarrow> Some (c, False, [])
     | Read_closed \<Rightarrow> Some (c, True, [])
     | Read_bytes bs \<Rightarrow>
         (let c1 = (if flags c AND CLIENT_MASTER \<noteq> 0
                    then c\<lparr>pending_querybuf := pending_querybuf c @ bs, read_reploff := read_reploff c + int (length bs)\<rparr>
                    else c);
              c2 = c1\<lparr>querybuf := querybuf c1 @ bs\<rparr>
          in if length (querybuf c2) > client_max_querybuf_len srv then Some (c2, True, [])
             else processInputBufferAndReplicate srv processCommand c2))"

end
