(* ===== verification/Resp_Stream.thy ===== *)
theory Resp_Stream
  imports Resp
begin

text \<open>
  The request parser on a stream of well-formed requests that arrives in pieces: whatever the pieces
  are, the commands of the stream are executed, each once and in order.  The parser only looks at the
  unread part of the query buffer, so that the optimisation for big arguments, which moves the unread
  part to the front or takes the buffer as the argument, cannot be noticed.
\<close>

section \<open>Reading one line\<close>

lemma range_spec_drop: "n \<le> length v \<Longrightarrow> range_spec v (int n) (- 1) = drop n v"
proof -
  assume n: "n \<le> length v"
  then have "nat (max 0 (int (length v) - 1) - int n + 1) = length v - n \<or> v = []"
    by (cases v) (auto simp: max_def)
  then show ?thesis by (auto simp: range_spec_def Let_def)
qed

lemma strchr_off_None: "13 \<notin> set s \<Longrightarrow> strchr_off s 13 = None"
proof -
  assume "13 \<notin> set s"
  then have "\<not> (k < length s \<and> s ! k = 13)" for k by (metis nth_mem)
  then show ?thesis unfolding strchr_off_def Let_def by (simp only: if_False)
qed

lemma strchr_off_first:
  assumes "ch \<notin> set a" "0 \<notin> set a" "ch \<noteq> 0"
  shows "strchr_off (a @ ch # r) ch = Some (length a)"
proof -
  have "takeWhile (\<lambda>x. x \<noteq> ch \<and> x \<noteq> 0) a = a" unfolding takeWhile_eq_all_conv using assms by auto
  then have "takeWhile (\<lambda>x. x \<noteq> ch \<and> x \<noteq> 0) (a @ ch # r) = a"
    using takeWhile_stop [of "\<lambda>x. x \<noteq> ch \<and> x \<noteq> 0" ch a r] by simp
  then show ?thesis by (simp add: strchr_off_def Let_def)
qed

lemma dec_clean: "13 \<notin> set (dec v)" "0 \<notin> set (dec v)" "10 \<notin> set (dec v)"
proof -
  have d: "c = 45 \<or> 48 \<le> c" if "c \<in> set (dec v)" for c
    using that dec_nat_digits [of c] by (auto simp: dec_def split: if_splits)
  show "13 \<notin> set (dec v)" "0 \<notin> set (dec v)" "10 \<notin> set (dec v)"
    using d [of 13] d [of 0] d [of 10] by auto
qed

text \<open>A line of the protocol: a type byte, a number and the end of the line.\<close>

definition resp_line :: "byte \<Rightarrow> nat \<Rightarrow> byte list" where
  "resp_line x n = x # dec (int n) @ [13, 10]"

lemma prefix_cases:
  assumes "u @ f = h @ r"
  obtains (full) u' where "u = h @ u'" "r = u' @ f" | (part) g where "u @ g = h" "g \<noteq> []" "f \<noteq> []"
proof -
  from assms consider us where "u = h @ us" "us @ f = r" | us where "u @ us = h" "f = us @ r"
    by (auto simp: append_eq_append_conv2)
  then show thesis
  proof cases
    case 1
    with full show thesis by simp
  next
    case 2
    then show thesis using full [of "[]"] part [of us] by (cases "us = []") auto
  qed
qed

lemma line_full:
  assumes "x \<noteq> 13" "x \<noteq> 0"
  shows "strchr_off (resp_line x n @ r) 13 = Some (1 + length (dec (int n)))"
  using strchr_off_first [of 13 "x # dec (int n)" "10 # r"] assms dec_clean [of "int n"] by (simp add: resp_line_def)

lemma line_part:
  assumes "u @ g = resp_line x n" "g \<noteq> []" "x \<noteq> 13" "x \<noteq> 0"
  shows "strchr_off u 13 = None \<or> (\<exists>k. strchr_off u 13 = Some k \<and> length u = k + 1)"
proof -
  let ?h = "x # dec (int n)"
  from assms(1) have "u @ g = ?h @ [13, 10]" by (simp add: resp_line_def)
  then consider us where "u @ us = ?h" | us where "u = ?h @ us" "us @ g = [13, 10]"
    unfolding append_eq_append_conv2 by (elim exE disjE conjE) (simp_all only:)
  then show ?thesis
  proof cases
    case 1
    have "13 \<notin> set (u @ us)" unfolding 1 using assms dec_clean by auto
    then show ?thesis by (simp add: strchr_off_None)
  next
    case 2
    then consider "us = []" | "us = [13]" using assms(2) by (auto simp: append_eq_Cons_conv)
    then show ?thesis
    proof cases
      case 1
      then show ?thesis using 2 assms dec_clean [of "int n"] by (simp add: strchr_off_None)
    next
      case b: 2
      then show ?thesis using 2 strchr_off_first [of 13 ?h "[]"] assms dec_clean [of "int n"] by auto
    qed
  qed
qed

lemma line_short: "u @ g = resp_line x n \<Longrightarrow> int n \<le> LLONG_MAX \<Longrightarrow> length u \<le> 23"
proof -
  assume "u @ g = resp_line x n" "int n \<le> LLONG_MAX"
  then have "length u + length g = length (resp_line x n)" by (metis length_append)
  with length_dec_le [of "int n"] \<open>int n \<le> LLONG_MAX\<close> show ?thesis by (simp add: resp_line_def)
qed

lemma line_number: "take (length (dec (int n))) (drop 1 (resp_line x n @ r)) = dec (int n)"
  by (simp add: resp_line_def)

lemma string2ll_dec: "int n \<le> LLONG_MAX \<Longrightarrow> string2ll (dec (int n)) = Some (int n)"
  by (simp add: string2ll_spec)

lemma len_unread:
  "qb_pos c \<le> length (querybuf c) \<Longrightarrow> int (length (querybuf c)) - int (qb_pos c) = int (length (unread c))"
  "length (querybuf c) - qb_pos c = length (unread c)"
  by auto

text \<open>Steps of the parser leave the flags, the kind of request and the data alone.\<close>

definition same :: "'a client \<Rightarrow> 'a client \<Rightarrow> bool" where
  "same c c1 \<longleftrightarrow> flags c1 = flags c \<and> reqtype c1 = reqtype c \<and> db c1 = db c"

lemma count_full:
  assumes "unread c = resp_line 42 n @ r" "argv c = []" "0 < n" "n \<le> 1024 * 1024" "qb_pos c \<le> length (querybuf c)"
  shows "read_mbulk_count c =
    Some (Go (c\<lparr>qb_pos := qb_pos c + length (resp_line 42 n), multibulklen := n\<rparr>, True))"
proof -
  have nl: "strchr_off (unread c) 13 = Some (1 + length (dec (int n)))" unfolding assms(1) by (rule line_full) simp_all
  have hd: "unread c ! 0 = 42" by (simp add: assms(1) resp_line_def)
  have num: "take (length (dec (int n))) (drop 1 (unread c)) = dec (int n)" unfolding assms(1) by (rule line_number)
  have len: "length (unread c) = length (dec (int n)) + 3 + length r" by (simp add: assms(1) resp_line_def)
  show ?thesis
    unfolding read_mbulk_count_def nl option.case len_unread(1) [OF assms(5)]
    using assms(2-4) len hd num string2ll_dec [of n] by (simp add: resp_line_def add.assoc)
qed

lemma count_part:
  assumes "unread c @ g = resp_line 42 n" "g \<noteq> []" "argv c = []" "int n \<le> LLONG_MAX" "qb_pos c \<le> length (querybuf c)"
  shows "read_mbulk_count c = Some (Stop (c, False))"
  using line_part [OF assms(1,2)] line_short [OF assms(1,4)] assms(3)
  unfolding read_mbulk_count_def len_unread(1) [OF assms(5)] len_unread(2)
  by auto

lemma bulk_full:
  assumes "unread c = resp_line 36 n @ r" "int n \<le> proto_max_bulk_len srv" "int n \<le> LLONG_MAX" "qb_pos c \<le> length (querybuf c)"
  shows "\<exists>c1. read_bulk_len srv c = Go c1 \<and> unread c1 = r \<and> bulklen c1 = int n \<and> qb_pos c1 \<le> length (querybuf c1) \<and>
    argv c1 = argv c \<and> multibulklen c1 = multibulklen c \<and> same c c1"
proof -
  have nl: "strchr_off (unread c) 13 = Some (1 + length (dec (int n)))" unfolding assms(1) by (rule line_full) simp_all
  have hd: "unread c ! 0 = 36" by (simp add: assms(1) resp_line_def)
  have num: "take (length (dec (int n))) (drop 1 (unread c)) = dec (int n)" unfolding assms(1) by (rule line_number)
  have len: "length (unread c) = length (resp_line 36 n) + length r" by (simp add: assms(1))
  have l2: "length (resp_line 36 n) = length (dec (int n)) + 3" by (simp add: resp_line_def)
  define c1 where "c1 = c\<lparr>qb_pos := qb_pos c + (1 + length (dec (int n))) + 2\<rparr>"
  have p1: "qb_pos c1 \<le> length (querybuf c1)" using len l2 assms(4) by (simp add: c1_def)
  have u1: "unread c1 = r"
  proof -
    have "qb_pos c1 = length (resp_line 36 n) + qb_pos c" "querybuf c1 = querybuf c" by (simp_all add: c1_def l2)
    then have "unread c1 = drop (length (resp_line 36 n)) (unread c)" by (simp only: drop_drop)
    then show ?thesis by (simp add: assms(1))
  qed
  define c2 where "c2 = (if int n \<ge> 32768 \<and> int (length (querybuf c1)) - int (qb_pos c1) \<le> int n + 2
      then c1\<lparr>querybuf := range_spec (querybuf c1) (int (qb_pos c1)) (- 1), qb_pos := 0\<rparr> else c1)"
  have "read_bulk_len srv c = Go (c2\<lparr>bulklen := int n\<rparr>)"
    unfolding read_bulk_len_def nl option.case len_unread(1) [OF assms(4)]
    using len l2 hd num string2ll_dec [OF assms(3)] assms(2)
    by (simp add: c2_def c1_def Let_def)
  moreover have "unread c2 = r" "qb_pos c2 \<le> length (querybuf c2)" "argv c2 = argv c" "multibulklen c2 = multibulklen c" "same c c2"
    using u1 p1 range_spec_drop [OF p1] by (auto simp: c2_def c1_def same_def)
  ultimately show ?thesis by (simp add: same_def)
qed

lemma bulk_part:
  assumes "unread c @ g = resp_line 36 n" "g \<noteq> []" "int n \<le> LLONG_MAX" "qb_pos c \<le> length (querybuf c)"
  shows "read_bulk_len srv c = Stop c"
  using line_part [OF assms(1,2)] line_short [OF assms(1,3)]
  unfolding read_bulk_len_def len_unread(1) [OF assms(4)] len_unread(2)
  by auto

lemma take_bulk_full:
  assumes "unread c = a @ 13 # 10 # r" "bulklen c = int (length a)" "qb_pos c \<le> length (querybuf c)"
  shows "unread (take_bulk c) = r" "argv (take_bulk c) = argv c @ [a]" "qb_pos (take_bulk c) \<le> length (querybuf (take_bulk c))"
    "same c (take_bulk c)"
proof -
  have len: "length (querybuf c) = qb_pos c + length a + 2 + length r"
    using arg_cong [OF assms(1), of length] assms(3) by simp
  have d: "drop (qb_pos c + (length a + 2)) (querybuf c) = r"
  proof -
    have "drop (length a + 2) (unread c) = r" by (simp add: assms(1))
    then show ?thesis by (simp add: add.commute)
  qed
  show "unread (take_bulk c) = r" "argv (take_bulk c) = argv c @ [a]" "qb_pos (take_bulk c) \<le> length (querybuf (take_bulk c))"
    "same c (take_bulk c)"
    using len d assms(1,2) by (auto simp: take_bulk_def same_def nat_add_distrib)
qed

section \<open>A stream of requests\<close>

definition enc_bulk :: "byte list \<Rightarrow> byte list" where
  "enc_bulk a = resp_line 36 (length a) @ a @ [13, 10]"

definition enc_cmd :: "byte list list \<Rightarrow> byte list" where
  "enc_cmd av = resp_line 42 (length av) @ concat (map enc_bulk av)"

definition legal_arg :: "server \<Rightarrow> byte list \<Rightarrow> bool" where
  "legal_arg srv a \<longleftrightarrow> int (length a) \<le> proto_max_bulk_len srv \<and> int (length a) \<le> LLONG_MAX"

definition legal_cmd :: "server \<Rightarrow> byte list list \<Rightarrow> bool" where
  "legal_cmd srv av \<longleftrightarrow> av \<noteq> [] \<and> length av \<le> 1024 * 1024 \<and> (\<forall>a \<in> set av. legal_arg srv a)"

text \<open>A client that has yet to read the arguments \<open>args\<close>: the stream is \<open>s\<close>, and \<open>r\<close> comes behind them.\<close>

definition mid :: "'a client \<Rightarrow> byte list list \<Rightarrow> byte list \<Rightarrow> byte list \<Rightarrow> bool" where
  "mid c args s r \<longleftrightarrow> multibulklen c = length args \<and> qb_pos c \<le> length (querybuf c) \<and>
    (bulklen c = - 1 \<and> s = concat (map enc_bulk args) @ r \<or>
     (\<exists>a args'. args = a # args' \<and> bulklen c = int (length a) \<and> s = (a @ [13, 10]) @ concat (map enc_bulk args') @ r))"

lemma bulk_len_step:
  assumes "mid c (a # args) s r" "unread c @ f = s" "legal_arg srv a"
  shows "(\<exists>c1. (if bulklen c = - 1 then read_bulk_len srv c else Go c) = Go c1 \<and> bulklen c1 = int (length a) \<and>
      unread c1 @ f = (a @ [13, 10]) @ concat (map enc_bulk args) @ r \<and> mid c1 (a # args) (unread c1 @ f) r \<and>
      argv c1 = argv c \<and> same c c1) \<or>
    (if bulklen c = - 1 then read_bulk_len srv c else Go c) = Stop c \<and> f \<noteq> []"
proof (cases "bulklen c = - 1")
  case False
  then show ?thesis using assms by (auto simp: mid_def same_def)
next
  case True
  let ?t = "(a @ [13, 10]) @ concat (map enc_bulk args) @ r"
  have pos: "qb_pos c \<le> length (querybuf c)" and m: "multibulklen c = Suc (length args)"
    using assms(1) by (auto simp: mid_def)
  have "unread c @ f = resp_line 36 (length a) @ ?t" using assms True by (auto simp: mid_def enc_bulk_def)
  then show ?thesis
  proof (cases rule: prefix_cases)
    case (full u')
    from bulk_full [OF full(1) _ _ pos] assms(3) obtain c1 where
      "read_bulk_len srv c = Go c1" "unread c1 = u'" "bulklen c1 = int (length a)" "qb_pos c1 \<le> length (querybuf c1)"
      "argv c1 = argv c" "multibulklen c1 = multibulklen c" "same c c1" by (auto simp: legal_arg_def)
    with full(2) m True show ?thesis by (auto simp: mid_def)
  next
    case (part g)
    from bulk_part [OF part(1,2) _ pos] assms(3) part(3) True show ?thesis by (auto simp: legal_arg_def)
  qed
qed

lemma mbulk_loop_stream:
  assumes "mid c args s r" "unread c @ f = s" "\<forall>a \<in> set args. legal_arg srv a"
  shows "(\<exists>c1. mbulk_loop srv (length args) c = (c1, True) \<and> unread c1 @ f = r \<and> argv c1 = argv c @ args \<and>
      mid c1 [] r r \<and> same c c1) \<or>
    (\<exists>c1 got args'. mbulk_loop srv (length args) c = (c1, False) \<and> args = got @ args' \<and> args' \<noteq> [] \<and>
      argv c1 = argv c @ got \<and> mid c1 args' (unread c1 @ f) r \<and> f \<noteq> [] \<and> same c c1)"
  using assms
proof (induction args arbitrary: c s)
  case Nil
  then show ?case by (auto simp: mid_def same_def)
next
  case (Cons a args)
  let ?t = "concat (map enc_bulk args) @ r"
  have "legal_arg srv a" using Cons.prems(3) by simp
  from bulk_len_step [OF Cons.prems(1,2) this] consider
    (go) c1 where "(if bulklen c = - 1 then read_bulk_len srv c else Go c) = Go c1" "bulklen c1 = int (length a)"
      "unread c1 @ f = (a @ [13, 10]) @ ?t" "mid c1 (a # args) (unread c1 @ f) r" "argv c1 = argv c" "same c c1"
    | (stop) "(if bulklen c = - 1 then read_bulk_len srv c else Go c) = Stop c" "f \<noteq> []" by blast
  then show ?case
  proof cases
    case stop
    then show ?thesis using Cons.prems(1,2) by (intro disjI2 exI [of _ c] exI [of _ "[]"] exI [of _ "a # args"]) (simp add: same_def)
  next
    case go
    have pos: "qb_pos c1 \<le> length (querybuf c1)" using go(4) by (simp add: mid_def)
    have cmp: "int (length (querybuf c1)) - int (qb_pos c1) < bulklen c1 + 2 \<longleftrightarrow> length (unread c1) < length a + 2"
      unfolding len_unread(1) [OF pos] go(2) by linarith
    show ?thesis
    proof (cases "length (unread c1) < length a + 2")
      case True
      then have "mbulk_loop srv (length (a # args)) c = (c1, False)"
        unfolding list.size(4) add_Suc_right add_0_right mbulk_loop.simps go(1) step.case cmp by simp
      moreover have "f \<noteq> []"
      proof
        assume "f = []"
        with arg_cong [OF go(3), of length] True show False by simp
      qed
      ultimately show ?thesis using go by (intro disjI2 exI [of _ c1] exI [of _ "[]"] exI [of _ "a # args"]) simp
    next
      case False
      from go(3) obtain u' where u': "unread c1 = (a @ [13, 10]) @ u'" "?t = u' @ f"
      proof (cases rule: prefix_cases)
        case (full u')
        with that show ?thesis by simp
      next
        case (part g)
        with arg_cong [OF part(1), of length] False show ?thesis by (cases g) simp_all
      qed
      define c2 where "c2 = (take_bulk c1)\<lparr>bulklen := - 1, multibulklen := length args\<rparr>"
      note tb = take_bulk_full [of c1 a u', OF _ go(2) pos]
      have c2: "unread c2 = u'" "argv c2 = argv c @ [a]" "mid c2 args ?t r" "same c c2"
        using tb u'(1) go(5,6) by (auto simp: c2_def mid_def same_def)
      have "mbulk_loop srv (length (a # args)) c = mbulk_loop srv (length args) c2"
        unfolding list.size(4) add_Suc_right add_0_right mbulk_loop.simps go(1) step.case cmp using False by (simp add: c2_def)
      with Cons.IH [OF c2(3)] c2 u'(2) Cons.prems(3) show ?thesis by (fastforce simp: same_def)
    qed
  qed
qed

text \<open>A client between or within the requests \<open>cmds\<close> of the stream \<open>s\<close>.\<close>

definition expects :: "'a client \<Rightarrow> byte list list list \<Rightarrow> byte list \<Rightarrow> bool" where
  "expects c cmds s \<longleftrightarrow> flags c = 0 \<and> qb_pos c \<le> length (querybuf c) \<and>
    ((reqtype c = 0 \<or> reqtype c = PROTO_REQ_MULTIBULK) \<and> argv c = [] \<and> multibulklen c = 0 \<and> bulklen c = - 1 \<and>
       s = concat (map enc_cmd cmds) \<or>
     reqtype c = PROTO_REQ_MULTIBULK \<and>
       (\<exists>args cmds'. args \<noteq> [] \<and> cmds = (argv c @ args) # cmds' \<and> mid c args s (concat (map enc_cmd cmds'))))"

definition parsed :: "'a client \<Rightarrow> 'a client \<Rightarrow> byte list list list \<Rightarrow> byte list \<Rightarrow> bool" where
  "parsed c c1 cmds f \<longleftrightarrow> flags c1 = 0 \<and> qb_pos c1 \<le> length (querybuf c1) \<and> db c1 = db c \<and>
    (\<exists>cmds'. cmds = argv c1 # cmds' \<and> unread c1 @ f = concat (map enc_cmd cmds'))"

lemma parse_args:
  assumes "reqtype c = PROTO_REQ_MULTIBULK" "mid c args (unread c @ f) (concat (map enc_cmd cmds'))" "args \<noteq> []"
    "\<forall>a \<in> set args. legal_arg srv a" "flags c = 0"
  shows "(\<exists>c1. mbulk_loop srv (length args) c = (c1, True) \<and> parsed c c1 ((argv c @ args) # cmds') f) \<or>
    (\<exists>c1. mbulk_loop srv (length args) c = (c1, False) \<and> expects c1 ((argv c @ args) # cmds') (unread c1 @ f) \<and>
      db c1 = db c \<and> f \<noteq> [])"
  using mbulk_loop_stream [OF assms(2) refl assms(4)]
proof (elim disjE exE conjE)
  fix c1
  assume "mbulk_loop srv (length args) c = (c1, True)" "unread c1 @ f = concat (map enc_cmd cmds')"
    "argv c1 = argv c @ args" "mid c1 [] (concat (map enc_cmd cmds')) (concat (map enc_cmd cmds'))" "same c c1"
  then show ?thesis using assms(5) by (intro disjI1 exI [of _ c1]) (simp add: parsed_def same_def mid_def)
next
  fix c1 got args'
  assume "mbulk_loop srv (length args) c = (c1, False)" "args = got @ args'" "args' \<noteq> []" "argv c1 = argv c @ got"
    "mid c1 args' (unread c1 @ f) (concat (map enc_cmd cmds'))" "f \<noteq> []" "same c c1"
  then show ?thesis using assms(1,5) by (intro disjI2 exI [of _ c1]) (auto simp: expects_def same_def mid_def)
qed

lemma parse_request_stream:
  assumes "expects c cmds (unread c @ f)" "unread c \<noteq> []" "\<forall>av \<in> set cmds. legal_cmd srv av"
  shows "(\<exists>c1. parse_request srv c = Some (c1, True) \<and> parsed c c1 cmds f) \<or>
    (\<exists>c1. parse_request srv c = Some (c1, False) \<and> expects c1 cmds (unread c1 @ f) \<and> db c1 = db c \<and> f \<noteq> [])"
proof -
  have pos: "qb_pos c \<le> length (querybuf c)" and fl: "flags c = 0" using assms(1) by (auto simp: expects_def)
  consider (start) "reqtype c = 0 \<or> reqtype c = PROTO_REQ_MULTIBULK" "argv c = []" "multibulklen c = 0" "bulklen c = - 1"
      "unread c @ f = concat (map enc_cmd cmds)"
    | (args) args cmds' where "reqtype c = PROTO_REQ_MULTIBULK" "args \<noteq> []" "cmds = (argv c @ args) # cmds'"
      "mid c args (unread c @ f) (concat (map enc_cmd cmds'))"
    using assms(1) unfolding expects_def by fastforce
  then show ?thesis
  proof cases
    case args
    then have "parse_request srv c = Some (mbulk_loop srv (length args) c)"
      by (simp add: parse_request_def processMultibulkBuffer_def mid_def)
    moreover have "\<forall>a \<in> set args. legal_arg srv a" using assms(3) args(3) by (simp add: legal_cmd_def)
    ultimately show ?thesis using parse_args [OF args(1,4,2) _ fl] args(3) by simp
  next
    case start
    obtain av cmds' where cmds: "cmds = av # cmds'" using start(5) assms(2) by (cases cmds) auto
    then have av: "av \<noteq> []" "length av \<le> 1024 * 1024" "\<forall>a \<in> set av. legal_arg srv a"
      using assms(3) by (auto simp: legal_cmd_def)
    let ?t = "concat (map enc_bulk av) @ concat (map enc_cmd cmds')"
    have s: "unread c @ f = resp_line 42 (length av) @ ?t" using start(5) cmds by (simp add: enc_cmd_def)
    have star: "unread c ! 0 = 42" using s assms(2) by (cases "unread c") (auto simp: resp_line_def)
    define c0 where "c0 = c\<lparr>reqtype := PROTO_REQ_MULTIBULK\<rparr>"
    have c0: "unread c0 = unread c" "argv c0 = []" "qb_pos c0 \<le> length (querybuf c0)" "flags c0 = 0" "db c0 = db c"
      "multibulklen c0 = 0" "bulklen c0 = - 1" "reqtype c0 = PROTO_REQ_MULTIBULK"
      using start pos fl by (auto simp: c0_def)
    have "reqtype c = 2 \<Longrightarrow> c = c0" by (simp add: c0_def)
    then have rq: "(if reqtype c = 0 then c\<lparr>reqtype := if unread c ! 0 = 42 then 2 else Suc 0\<rparr> else c) = c0"
      using start(1) star by (cases "reqtype c = 2") (simp_all add: c0_def)
    have pr: "parse_request srv c = processMultibulkBuffer srv c0"
      unfolding parse_request_def Let_def rq using c0(8) by simp
    from s [folded c0(1)] show ?thesis
    proof (cases rule: prefix_cases)
      case (full u')
      define c1 where "c1 = c0\<lparr>qb_pos := qb_pos c0 + length (resp_line 42 (length av)), multibulklen := length av\<rparr>"
      have rd: "read_mbulk_count c0 = Some (Go (c1, True))"
        using count_full [OF full(1) c0(2) _ av(2) c0(3)] av(1) by (simp add: c1_def)
      have u1: "unread c1 = u'"
      proof -
        have "drop (length (resp_line 42 (length av))) (unread c0) = u'" by (simp only: full(1) append_eq_conv_conj [THEN iffD1]) simp
        then show ?thesis by (simp add: c1_def add.commute)
      qed
      have p1: "qb_pos c1 \<le> length (querybuf c1)" using arg_cong [OF full(1), of length] c0(3) by (simp add: c1_def)
      have mid: "mid c1 av (unread c1 @ f) (concat (map enc_cmd cmds'))"
        using full(2) u1 p1 c0 by (simp add: mid_def c1_def)
      have "parse_request srv c = Some (mbulk_loop srv (length av) c1)"
        unfolding pr processMultibulkBuffer_def using c0(6) rd av(1) by (simp add: c1_def)
      moreover have "argv c1 = []" "flags c1 = 0" "db c1 = db c" "reqtype c1 = PROTO_REQ_MULTIBULK" using c0 by (auto simp: c1_def)
      ultimately show ?thesis
        using parse_args [OF _ mid av(1,3)] cmds by (simp add: parsed_def)
    next
      case (part g)
      have "int (length av) \<le> LLONG_MAX" using av(2) by simp
      from count_part [OF part(1,2) c0(2) this c0(3)]
      have "parse_request srv c = Some (c0, False)" unfolding pr processMultibulkBuffer_def using c0(6) by simp
      then show ?thesis using part(3) c0 start(5) by (auto simp: expects_def)
    qed
  qed
qed

section \<open>The input loop\<close>

text \<open>
  The command processor on ordinary commands: the data change, a reply is written, \<open>C_OK\<close> is returned
  and the client stays.
\<close>

definition executes :: "'a processor \<Rightarrow> (byte list list \<Rightarrow> 'a \<Rightarrow> 'a) \<Rightarrow> bool" where
  "executes processCommand exec \<longleftrightarrow>
    (\<forall>c. \<exists>r. processCommand c = (c\<lparr>db := exec (argv c) (db c), reply := r\<rparr>, True, False))"

lemma run_command_stream:
  assumes "executes processCommand exec" "parsed c c1 (av # cmds) f" "av \<noteq> []"
  shows "\<exists>c2. run_command processCommand c1 = (c2, False) \<and> db c2 = exec av (db c) \<and> expects c2 cmds (unread c2 @ f)"
proof -
  have a: "argv c1 = av" "flags c1 = 0" "db c1 = db c" using assms(2) by (auto simp: parsed_def)
  obtain r where r: "processCommand c1 = (c1\<lparr>db := exec av (db c), reply := r\<rparr>, True, False)"
    using assms(1) a unfolding executes_def by metis
  have "run_command processCommand c1 = (resetClient (c1\<lparr>db := exec av (db c), reply := r\<rparr>), False)"
    using assms(3) a by (simp add: run_command_def r)
  moreover have "expects (resetClient (c1\<lparr>db := exec av (db c), reply := r\<rparr>)) cmds
      (unread (resetClient (c1\<lparr>db := exec av (db c), reply := r\<rparr>)) @ f)"
    using assms(2) a by (auto simp: expects_def resetClient_def Let_def parsed_def)
  ultimately show ?thesis by (simp add: resetClient_def Let_def)
qed

lemma expects_nonempty: "expects c (av # cmds) s \<Longrightarrow> s \<noteq> []"
proof -
  assume "expects c (av # cmds) s"
  moreover have "enc_cmd av \<noteq> []" by (simp add: enc_cmd_def resp_line_def)
  moreover have "enc_bulk a \<noteq> []" for a by (simp add: enc_bulk_def)
  ultimately show ?thesis by (auto simp: expects_def mid_def)
qed

lemma expects_length: "expects c cmds s \<Longrightarrow> length s \<le> length (concat (map enc_cmd cmds))"
  by (auto simp: expects_def mid_def enc_cmd_def enc_bulk_def)

lemma input_loop_stream:
  assumes "executes processCommand exec" "\<not> clients_paused srv" "\<forall>av \<in> set cmds. legal_cmd srv av"
    "expects c cmds (unread c @ f)"
  shows "\<exists>c' got cmds'. input_loop srv processCommand c = Some (c', False) \<and> cmds = got @ cmds' \<and>
    db c' = fold exec got (db c) \<and> expects c' cmds' (unread c' @ f) \<and> (f = [] \<longrightarrow> cmds' = [])"
  using assms(3,4)
proof (induction cmds arbitrary: c)
  case Nil
  then have "unread c = []" by (auto simp: expects_def)
  then have "input_loop srv processCommand c = Some (c, False)" by (subst input_loop.simps) simp
  with Nil show ?case by simp
next
  case (Cons av cmds)
  have nb: "\<not> input_blocked srv c" using Cons.prems(2) assms(2) by (simp add: input_blocked_def expects_def)
  show ?case
  proof (cases "unread c = []")
    case True
    then have "input_loop srv processCommand c = Some (c, False)" by (subst input_loop.simps) simp
    moreover have "f \<noteq> []" using expects_nonempty [OF Cons.prems(2)] True by simp
    ultimately show ?thesis using Cons.prems(2) by (intro exI [of _ c] exI [of _ "[]"] exI [of _ "av # cmds"]) simp
  next
    case False
    from parse_request_stream [OF Cons.prems(2) False Cons.prems(1)] show ?thesis
    proof (elim disjE exE conjE)
      fix c1
      assume c1: "parse_request srv c = Some (c1, True)" "parsed c c1 (av # cmds) f"
      have "av \<noteq> []" using Cons.prems(1) by (simp add: legal_cmd_def)
      from run_command_stream [OF assms(1) c1(2) this] obtain c2 where
        c2: "run_command processCommand c1 = (c2, False)" "db c2 = exec av (db c)" "expects c2 cmds (unread c2 @ f)"
        by blast
      have "input_loop srv processCommand c = input_loop srv processCommand c2"
        using False nb c1(1) c2(1) by (subst input_loop.simps) simp
      moreover obtain c' got cmds' where "input_loop srv processCommand c2 = Some (c', False)" "cmds = got @ cmds'"
        "db c' = fold exec got (db c2)" "expects c' cmds' (unread c' @ f)" "f = [] \<longrightarrow> cmds' = []"
        using Cons.IH [OF _ c2(3)] Cons.prems(1) by auto
      ultimately show ?thesis using c2(2)
        by (intro exI [of _ c'] exI [of _ "av # got"] exI [of _ cmds']) simp
    next
      fix c1
      assume c1: "parse_request srv c = Some (c1, False)" "expects c1 (av # cmds) (unread c1 @ f)" "db c1 = db c" "f \<noteq> []"
      then have "input_loop srv processCommand c = Some (c1, False)"
        using False nb by (subst input_loop.simps) simp
      with c1 show ?thesis by (intro exI [of _ c1] exI [of _ "[]"] exI [of _ "av # cmds"]) simp
    qed
  qed
qed

lemma processInputBuffer_stream:
  assumes "executes processCommand exec" "\<not> clients_paused srv" "\<forall>av \<in> set cmds. legal_cmd srv av"
    "expects c cmds (unread c @ f)"
  shows "\<exists>c' got cmds'. processInputBuffer srv processCommand c = Some (c', False) \<and> cmds = got @ cmds' \<and>
    db c' = fold exec got (db c) \<and> expects c' cmds' (unread c' @ f) \<and> qb_pos c' = 0 \<and> (f = [] \<longrightarrow> cmds' = [])"
proof -
  obtain c1 got cmds' where c1: "input_loop srv processCommand c = Some (c1, False)" "cmds = got @ cmds'"
    "db c1 = fold exec got (db c)" "expects c1 cmds' (unread c1 @ f)" "f = [] \<longrightarrow> cmds' = []"
    using input_loop_stream [OF assms] by blast
  define c2 where "c2 = (if qb_pos c1 \<noteq> 0
      then c1\<lparr>querybuf := range_spec (querybuf c1) (int (qb_pos c1)) (- 1), qb_pos := 0\<rparr> else c1)"
  have pos: "qb_pos c1 \<le> length (querybuf c1)" using c1(4) by (simp add: expects_def)
  have "unread c2 = unread c1" "qb_pos c2 = 0" "db c2 = db c1"
    using range_spec_drop [OF pos] by (auto simp: c2_def)
  moreover have "expects c2 cmds' s" if "expects c1 cmds' s" for s
    using that range_spec_drop [OF pos] by (auto simp: c2_def expects_def mid_def)
  moreover have "processInputBuffer srv processCommand c = Some (c2, False)"
    by (simp add: processInputBuffer_def c1(1) c2_def)
  ultimately show ?thesis using c1 by (intro exI [of _ c2] exI [of _ got] exI [of _ cmds']) auto
qed

text \<open>Reading the pieces of a stream one after the other; \<open>None\<close> also when the client is closed meanwhile.\<close>

fun read_all :: "server \<Rightarrow> 'a processor \<Rightarrow> byte list list \<Rightarrow> 'a client \<Rightarrow> 'a client option" where
  "read_all srv processCommand [] c = Some c"
| "read_all srv processCommand (b # bs) c =
    (case readQueryFromClient srv processCommand (Read_bytes b) c of
       Some (c1, False, _) \<Rightarrow> read_all srv processCommand bs c1
     | _ \<Rightarrow> None)"

lemma readQuery_stream:
  assumes "executes processCommand exec" "\<not> clients_paused srv" "\<forall>av \<in> set cmds. legal_cmd srv av"
    "expects c cmds (unread c @ b @ f)" "qb_pos c = 0" "length (concat (map enc_cmd cmds)) \<le> client_max_querybuf_len srv"
  shows "\<exists>c' got cmds'. readQueryFromClient srv processCommand (Read_bytes b) c = Some (c', False, []) \<and> cmds = got @ cmds' \<and>
    db c' = fold exec got (db c) \<and> expects c' cmds' (unread c' @ f) \<and> qb_pos c' = 0 \<and> (f = [] \<longrightarrow> cmds' = [])"
proof -
  define c1 where "c1 = c\<lparr>querybuf := querybuf c @ b\<rparr>"
  have fl: "flags c = 0" using assms(4) by (simp add: expects_def)
  have "unread c1 @ f = unread c @ b @ f" using assms(5) by (simp add: c1_def)
  moreover have "expects c1 cmds (unread c @ b @ f)"
    using assms(4,5) by (auto simp: expects_def mid_def c1_def)
  ultimately have e: "expects c1 cmds (unread c1 @ f)" by simp
  have "length (querybuf c1) \<le> client_max_querybuf_len srv"
    using expects_length [OF assms(4)] assms(5,6) by (simp add: c1_def)
  then have "readQueryFromClient srv processCommand (Read_bytes b) c = processInputBufferAndReplicate srv processCommand c1"
    using fl by (simp add: readQueryFromClient_def c1_def)
  moreover have "db c1 = db c" "flags c1 = 0" using fl by (simp_all add: c1_def)
  moreover obtain c' got cmds' where "processInputBuffer srv processCommand c1 = Some (c', False)" "cmds = got @ cmds'"
    "db c' = fold exec got (db c1)" "expects c' cmds' (unread c' @ f)" "qb_pos c' = 0" "f = [] \<longrightarrow> cmds' = []"
    using processInputBuffer_stream [OF assms(1-3) e] by blast
  ultimately show ?thesis
    by (intro exI [of _ c'] exI [of _ got] exI [of _ cmds']) (simp add: processInputBufferAndReplicate_def)
qed

lemma read_all_stream:
  assumes "executes processCommand exec" "\<not> clients_paused srv" "\<forall>av \<in> set cmds. legal_cmd srv av"
    "expects c cmds (unread c @ concat chunks)" "qb_pos c = 0" "concat chunks = [] \<Longrightarrow> cmds = []"
    "length (concat (map enc_cmd cmds)) \<le> client_max_querybuf_len srv"
  shows "\<exists>c'. read_all srv processCommand chunks c = Some c' \<and> db c' = fold exec cmds (db c) \<and> querybuf c' = []"
  using assms(3-)
proof (induction chunks arbitrary: c cmds)
  case Nil
  then have "cmds = []" by simp
  with Nil show ?case by (auto simp: expects_def)
next
  case (Cons b bs)
  have e: "expects c cmds (unread c @ b @ concat bs)" using Cons.prems(2) by simp
  obtain c' got cmds' where c': "readQueryFromClient srv processCommand (Read_bytes b) c = Some (c', False, [])"
    "cmds = got @ cmds'" "db c' = fold exec got (db c)" "expects c' cmds' (unread c' @ concat bs)" "qb_pos c' = 0"
    "concat bs = [] \<longrightarrow> cmds' = []"
    using readQuery_stream [OF assms(1,2) Cons.prems(1) e Cons.prems(3,5)] by blast
  have "\<exists>c2. read_all srv processCommand bs c' = Some c2 \<and> db c2 = fold exec cmds' (db c') \<and> querybuf c2 = []"
    using Cons.prems(1,5) c'(2,6) by (intro Cons.IH [OF _ c'(4,5)]) auto
  with c'(1-3) show ?case by auto
qed

section \<open>Properties\<close>

definition new_client :: "'a \<Rightarrow> 'a client" where
  "new_client d = \<lparr>querybuf = [], qb_pos = 0, pending_querybuf = [], argv = [], cmd_asking = False, reqtype = 0,
     multibulklen = 0, bulklen = - 1, reply = [], flags = 0, blocked_module = False, read_reploff = 0, reploff = 0,
     repl_ack_time = 0, db = d\<rparr>"

text \<open>C3: A stream of well-formed multi bulk requests, cut into pieces at arbitrary places as the reads
  from the socket happen to return it, makes a fresh client execute exactly its commands, each once and
  in order, with their arguments byte for byte (binary and empty ones, and ones big enough for the
  zero-copy path), and leaves nothing unread.\<close>

theorem request_stream_executed:
  assumes "executes processCommand exec" "\<not> clients_paused srv" "\<forall>av \<in> set cmds. legal_cmd srv av"
    "concat chunks = concat (map enc_cmd cmds)" "length (concat chunks) \<le> client_max_querybuf_len srv"
  shows "\<exists>c'. read_all srv processCommand chunks (new_client d) = Some c' \<and> db c' = fold exec cmds d \<and> querybuf c' = []"
proof -
  have c: "qb_pos (new_client d) = 0" "db (new_client d) = d" by (simp_all add: new_client_def)
  have e: "expects (new_client d) cmds (unread (new_client d) @ concat chunks)"
    using assms(4) by (simp add: expects_def new_client_def)
  have "cmds = []" if "concat chunks = []"
    using that assms(4) by (cases cmds) (auto simp: enc_cmd_def resp_line_def)
  from read_all_stream [OF assms(1-3) e c(1) this assms(5) [unfolded assms(4)]] show ?thesis unfolding c(2) .
qed

definition ex_server :: server where
  "ex_server = \<lparr>proto_max_bulk_len = 536870912, client_max_querybuf_len = 100, clients_paused = False,
     lua_timedout = False, unixtime = 0\<rparr>"

definition ex_processor :: "byte list list list processor" where
  "ex_processor c = (c\<lparr>db := db c @ [argv c], reply := []\<rparr>, True, False)"

theorem request_stream_executed_witness:
  "\<exists>c'. read_all ex_server ex_processor [bytes ''*2'', [13], 10 # bytes ''$1'', [13, 10, 65, 13], 10 # bytes ''$0'' @ [13, 10, 13], [10]]
     (new_client []) = Some c' \<and> db c' = [[[65], []]] \<and> querybuf c' = []"
proof -
  have 1: "executes ex_processor (\<lambda>av d. d @ [av])" by (auto simp: executes_def ex_processor_def)
  have 2: "\<forall>av \<in> set [[[65], []]]. legal_cmd ex_server av" by (simp add: legal_cmd_def legal_arg_def ex_server_def)
  have 3: "concat [bytes ''*2'', [13], 10 # bytes ''$1'', [13, 10, 65, 13], 10 # bytes ''$0'' @ [13, 10, 13], [10]]
      = concat (map enc_cmd [[[65], []]])" by code_simp
  have 4: "\<not> clients_paused ex_server" by (simp add: ex_server_def)
  have 5: "length (concat [bytes ''*2'', [13], 10 # bytes ''$1'', [13, 10, 65, 13], 10 # bytes ''$0'' @ [13, 10, 13], [10]])
      \<le> client_max_querybuf_len ex_server" by (simp add: ex_server_def bytes_def)
  have 6: "fold (\<lambda>av d. d @ [av]) [[[65], []]] [] = [[[65], []]]" by simp
  show ?thesis using request_stream_executed [OF 1 4 2 3 5, of "[]"] unfolding 6 .
qed

end
