(* ===== verification/Resp_Safe.thy ===== *)
theory Resp_Safe
  imports Resp_Stream
begin

text \<open>
  The request parser on arbitrary bytes: no assertion fails, the loop ends, protocol errors close the
  connection, and inline requests give back quoted arguments.
\<close>

section \<open>The invariant of the parser\<close>

definition parser_ok :: "'a client \<Rightarrow> bool" where
  "parser_ok c \<longleftrightarrow> qb_pos c \<le> length (querybuf c) \<and> reqtype c \<le> 2 \<and> - 1 \<le> bulklen c \<and>
    (if multibulklen c = 0
     then argv c = [] \<and> bulklen c = - 1 \<and> (reqtype c = PROTO_REQ_MULTIBULK \<longrightarrow> unread c \<noteq> [] \<and> unread c ! 0 = 42)
     else reqtype c = PROTO_REQ_MULTIBULK)"

text \<open>A client the loop does not serve any more, whatever its state: blocked, or about to be closed.\<close>

definition halted :: "'a client \<Rightarrow> bool" where
  "halted c \<longleftrightarrow> flags c AND CLIENT_BLOCKED \<noteq> 0 \<or> flags c AND (CLIENT_CLOSE_AFTER_REPLY OR CLIENT_CLOSE_ASAP) \<noteq> 0"

text \<open>
  What the parser relies on: a command leaves the query buffer alone, and after \<open>C_ERR\<close> the client
  was freed or is to be closed (see the comment on \<open>processCommand\<close> in \<open>server.c\<close>).
\<close>

definition command_contract :: "'a processor \<Rightarrow> bool" where
  "command_contract processCommand \<longleftrightarrow>
    (\<forall>c c1 ok freed. processCommand c = (c1, ok, freed) \<longrightarrow>
       querybuf c1 = querybuf c \<and> qb_pos c1 = qb_pos c \<and>
       (ok \<or> freed \<or> flags c1 AND (CLIENT_CLOSE_AFTER_REPLY OR CLIENT_CLOSE_ASAP) \<noteq> 0))"

text \<open>The unread part does not grow, and a request that was read shortens it.\<close>

definition forward :: "'a client \<Rightarrow> 'a client \<Rightarrow> bool" where
  "forward c c1 \<longleftrightarrow> qb_pos c1 \<le> length (querybuf c1) \<and> length (unread c1) \<le> length (unread c) \<and>
    db c1 = db c \<and> reqtype c1 = reqtype c"

lemma error_fields [simp]:
  "querybuf (proto_error m c) = querybuf c" "qb_pos (proto_error m c) = qb_pos c" "argv (proto_error m c) = argv c"
  "reqtype (proto_error m c) = reqtype c" "multibulklen (proto_error m c) = multibulklen c"
  "bulklen (proto_error m c) = bulklen c" "db (proto_error m c) = db c"
  "querybuf (expected_dollar x c) = querybuf c" "qb_pos (expected_dollar x c) = qb_pos c" "argv (expected_dollar x c) = argv c"
  "reqtype (expected_dollar x c) = reqtype c" "multibulklen (expected_dollar x c) = multibulklen c"
  "bulklen (expected_dollar x c) = bulklen c" "db (expected_dollar x c) = db c"
  by (simp_all add: proto_error_def expected_dollar_def setProtocolError_def addReplyError_def Let_def)

lemma strchr_off_Some: "strchr_off s ch = Some k \<Longrightarrow> k < length s \<and> s ! k = ch"
  by (auto simp: strchr_off_def Let_def split: if_splits)

lemma read_bulk_len_safe:
  assumes "qb_pos c \<le> length (querybuf c)"
  shows "case read_bulk_len srv c of
      Stop c1 \<Rightarrow> forward c c1 \<and> multibulklen c1 = multibulklen c \<and> bulklen c1 = bulklen c
    | Go c1 \<Rightarrow> forward c c1 \<and> multibulklen c1 = multibulklen c \<and> 0 \<le> bulklen c1"
proof (cases "strchr_off (unread c) 13")
  case None
  then show ?thesis using assms by (simp add: read_bulk_len_def forward_def)
next
  case (Some nl)
  show ?thesis
  proof (cases "int nl > int (length (querybuf c)) - int (qb_pos c) - 2")
    case True
    with Some assms show ?thesis by (simp add: read_bulk_len_def forward_def)
  next
    case False
    then have p: "qb_pos c + nl + 2 \<le> length (querybuf c)" using assms by simp
    with Some False show ?thesis using range_spec_drop [OF p, simplified]
      by (auto simp: read_bulk_len_def forward_def Let_def split: option.splits step.splits)
  qed
qed

lemma take_bulk_safe:
  assumes "qb_pos c \<le> length (querybuf c)" "0 \<le> bulklen c" "\<not> int (length (querybuf c)) - int (qb_pos c) < bulklen c + 2"
  shows "forward c (take_bulk c)" "length (unread (take_bulk c)) < length (unread c)"
  using assms by (auto simp: take_bulk_def forward_def)

lemma mbulk_loop_safe:
  assumes "qb_pos c \<le> length (querybuf c)" "- 1 \<le> bulklen c" "multibulklen c = n" "mbulk_loop srv n c = (c1, ok)"
  shows "forward c c1 \<and> - 1 \<le> bulklen c1 \<and>
    (if ok then multibulklen c1 = 0 \<and> (n \<noteq> 0 \<longrightarrow> bulklen c1 = - 1 \<and> length (unread c1) < length (unread c))
     else multibulklen c1 \<noteq> 0)"
  using assms
proof (induction n arbitrary: c)
  case 0
  then show ?case by (simp add: forward_def)
next
  case (Suc n)
  let ?st = "if bulklen c = - 1 then read_bulk_len srv c else Go c"
  show ?case
  proof (cases ?st)
    case (Stop c2)
    with Suc.prems read_bulk_len_safe [OF Suc.prems(1), of srv] show ?thesis by (auto split: if_splits)
  next
    case (Go c2)
    have c2: "forward c c2" "multibulklen c2 = Suc n" "0 \<le> bulklen c2"
      using Go Suc.prems read_bulk_len_safe [OF Suc.prems(1), of srv] by (auto simp: forward_def split: if_splits)
    show ?thesis
    proof (cases "int (length (querybuf c2)) - int (qb_pos c2) < bulklen c2 + 2")
      case True
      with Suc.prems(4) Go c2 show ?thesis by auto
    next
      case False
      define c3 where "c3 = (take_bulk c2)\<lparr>bulklen := - 1, multibulklen := n\<rparr>"
      have p2: "qb_pos c2 \<le> length (querybuf c2)" using c2(1) by (simp add: forward_def)
      have "forward c2 c3" "length (unread c3) < length (unread c2)"
        using take_bulk_safe [OF p2 c2(3) False] by (simp_all add: c3_def forward_def)
      moreover have "mbulk_loop srv n c3 = (c1, ok)" using Suc.prems(4) Go False by (simp add: c3_def)
      ultimately show ?thesis using Suc.IH [of c3] c2(1) by (auto simp: forward_def c3_def split: if_splits)
    qed
  qed
qed

lemma read_mbulk_count_safe:
  assumes "parser_ok c" "multibulklen c = 0" "reqtype c = PROTO_REQ_MULTIBULK"
  shows "\<exists>st. read_mbulk_count c = Some st \<and>
    (case st of
       Stop (c1, ok) \<Rightarrow> forward c c1 \<and> multibulklen c1 = 0 \<and> bulklen c1 = - 1 \<and>
         (if ok then length (unread c1) < length (unread c) else parser_ok c1)
     | Go (c1, _) \<Rightarrow> forward c c1 \<and> multibulklen c1 \<noteq> 0 \<and> bulklen c1 = - 1)"
proof -
  have c: "argv c = []" "bulklen c = - 1" "unread c ! 0 = 42" "qb_pos c \<le> length (querybuf c)"
    using assms by (auto simp: parser_ok_def)
  have ok: "parser_ok (proto_error m c)" for m using assms(1) unfolding parser_ok_def error_fields .
  show ?thesis
  proof (cases "strchr_off (unread c) 13")
    case None
    then show ?thesis using assms c ok by (simp add: read_mbulk_count_def forward_def)
  next
    case (Some nl)
    show ?thesis
    proof (cases "int nl > int (length (querybuf c)) - int (qb_pos c) - 2")
      case True
      with Some assms c show ?thesis by (simp add: read_mbulk_count_def forward_def)
    next
      case False
      then have p: "qb_pos c + nl + 2 \<le> length (querybuf c)" using c(4) by simp
      with Some False assms c ok show ?thesis
        by (auto simp: read_mbulk_count_def forward_def Let_def split: option.splits if_splits)
    qed
  qed
qed

text \<open>Reading one request: it fails neither an assertion nor to make progress.\<close>

definition request_read :: "'a client \<Rightarrow> 'a client \<Rightarrow> bool \<Rightarrow> bool" where
  "request_read c c1 ok \<longleftrightarrow> db c1 = db c \<and> qb_pos c1 \<le> length (querybuf c1) \<and>
    (if ok then length (unread c1) < length (unread c) else parser_ok c1)"

lemma processMultibulkBuffer_safe:
  assumes "parser_ok c" "reqtype c = PROTO_REQ_MULTIBULK"
  shows "\<exists>c1 ok. processMultibulkBuffer srv c = Some (c1, ok) \<and> request_read c c1 ok"
proof -
  have loop: "request_read c (fst r) (snd r)"
    if "forward c c1" "multibulklen c1 \<noteq> 0" "- 1 \<le> bulklen c1" "r = mbulk_loop srv (multibulklen c1) c1" for c1 r
    using mbulk_loop_safe [of c1 "multibulklen c1" srv "fst r" "snd r"] that assms
    by (auto simp: request_read_def forward_def parser_ok_def split: if_splits)
  show ?thesis
  proof (cases "multibulklen c = 0")
    case False
    have "forward c c" "- 1 \<le> bulklen c" using assms(1) by (auto simp: forward_def parser_ok_def)
    from loop [OF this(1) False this(2) refl] False show ?thesis
      by (auto simp: processMultibulkBuffer_def prod.collapse intro!: exI [of _ "fst (mbulk_loop srv (multibulklen c) c)"]
          exI [of _ "snd (mbulk_loop srv (multibulklen c) c)"])
  next
    case True
    from read_mbulk_count_safe [OF assms(1) True assms(2)] obtain st where st: "read_mbulk_count c = Some st"
      "case st of
         Stop (c1, ok) \<Rightarrow> forward c c1 \<and> multibulklen c1 = 0 \<and> bulklen c1 = - 1 \<and>
           (if ok then length (unread c1) < length (unread c) else parser_ok c1)
       | Go (c1, _) \<Rightarrow> forward c c1 \<and> multibulklen c1 \<noteq> 0 \<and> bulklen c1 = - 1" by blast
    show ?thesis
    proof (cases st)
      case (Stop r)
      with st True show ?thesis
        by (cases r) (auto simp: processMultibulkBuffer_def request_read_def forward_def split: if_splits)
    next
      case (Go r)
      obtain c1 b where r: "r = (c1, b)" by (cases r)
      with st Go have "forward c c1" "multibulklen c1 \<noteq> 0" "- 1 \<le> bulklen c1" by auto
      from loop [OF this refl] this(2) st(1) Go r True show ?thesis
        by (auto simp: processMultibulkBuffer_def intro!: exI [of _ "fst (mbulk_loop srv (multibulklen c1) c1)"]
            exI [of _ "snd (mbulk_loop srv (multibulklen c1) c1)"])
    qed
  qed
qed

lemma parser_ok_inline:
  "parser_ok c \<Longrightarrow> reqtype c = PROTO_REQ_INLINE \<Longrightarrow> qb_pos c \<le> length (querybuf c) \<and> parser_ok (proto_error m c)"
  unfolding parser_ok_def error_fields by (simp split: if_splits)

lemma processInlineBuffer_safe:
  assumes "parser_ok c" "reqtype c = PROTO_REQ_INLINE"
  shows "request_read c (fst (processInlineBuffer srv c)) (snd (processInlineBuffer srv c))"
proof (cases "strchr_off (unread c) 10")
  case None
  then show ?thesis using assms(1) parser_ok_inline [OF assms] by (simp add: processInlineBuffer_def request_read_def)
next
  case (Some nl)
  have nl: "nl < length (unread c)" using strchr_off_Some [OF Some] by blast
  obtain q l where ql: "(if nl \<noteq> 0 \<and> unread c ! (nl - 1) = 13 then (nl - 1, 2) else (nl, 1 :: nat)) = (q, l)" "q + l = nl + 1"
    by (cases "nl \<noteq> 0 \<and> unread c ! (nl - 1) = 13") auto
  define c1 where "c1 = (if q = 0 \<and> flags c AND CLIENT_SLAVE \<noteq> 0 then c\<lparr>repl_ack_time := unixtime srv\<rparr> else c)"
  have c1: "querybuf c1 = querybuf c" "db c1 = db c" by (auto simp: c1_def)
  have e: "processInlineBuffer srv c =
      (case sdssplitargs (take q (unread c) @ [0]) of
         None \<Rightarrow> (proto_error ''Protocol error: unbalanced quotes in request'' c, False)
       | Some av \<Rightarrow> (c1\<lparr>qb_pos := qb_pos c + q + l, argv := filter (\<lambda>a. a \<noteq> []) av\<rparr>, True))"
    unfolding processInlineBuffer_def Some option.case ql(1) Let_def prod.case c1_def ..
  show ?thesis
  proof (cases "sdssplitargs (take q (unread c) @ [0])")
    case None
    then show ?thesis using parser_ok_inline [OF assms] by (simp add: e request_read_def)
  next
    case (Some av)
    have "qb_pos c + q + l \<le> length (querybuf c)" "length (querybuf c) - (qb_pos c + q + l) < length (querybuf c) - qb_pos c"
      using ql(2) nl by auto
    then show ?thesis using Some c1 by (simp add: e request_read_def)
  qed
qed

lemma parse_request_safe:
  assumes "parser_ok c" "unread c \<noteq> []"
  shows "\<exists>c1 ok. parse_request srv c = Some (c1, ok) \<and> request_read c c1 ok"
proof -
  define c0 where "c0 = (if reqtype c = 0
    then c\<lparr>reqtype := if unread c ! 0 = 42 then PROTO_REQ_MULTIBULK else PROTO_REQ_INLINE\<rparr> else c)"
  have c0: "parser_ok c0" "reqtype c0 = 1 \<or> reqtype c0 = 2" "unread c0 = unread c" "db c0 = db c"
    using assms by (auto simp: c0_def parser_ok_def split: if_splits)
  have rr: "request_read c c1 ok \<longleftrightarrow> request_read c0 c1 ok" for c1 ok using c0 by (simp add: request_read_def)
  show ?thesis
    using processMultibulkBuffer_safe [OF c0(1), of srv] processInlineBuffer_safe [OF c0(1), of srv] c0(2)
    unfolding parse_request_def c0_def [symmetric] Let_def rr
    by (cases "processInlineBuffer srv c0") auto
qed

lemma resetClient_fields [simp]:
  "querybuf (resetClient c) = querybuf c" "qb_pos (resetClient c) = qb_pos c" "argv (resetClient c) = []"
  "reqtype (resetClient c) = 0" "multibulklen (resetClient c) = 0" "bulklen (resetClient c) = - 1" "db (resetClient c) = db c"
  by (simp_all add: resetClient_def Let_def)

lemma resetClient_ok: "qb_pos c \<le> length (querybuf c) \<Longrightarrow> parser_ok (resetClient c)"
  by (simp add: parser_ok_def)

lemma run_command_safe:
  assumes "command_contract processCommand" "qb_pos c \<le> length (querybuf c)" "run_command processCommand c = (c1, freed)"
  shows "freed \<or> querybuf c1 = querybuf c \<and> qb_pos c1 = qb_pos c \<and> (parser_ok c1 \<or> halted c1)"
proof (cases "argv c = []")
  case True
  with assms resetClient_ok [OF assms(2)] show ?thesis by (auto simp: run_command_def)
next
  case False
  obtain c2 ok fr where pc: "processCommand c = (c2, ok, fr)" by (cases "processCommand c") auto
  then have c2: "querybuf c2 = querybuf c" "qb_pos c2 = qb_pos c"
    "ok \<or> fr \<or> flags c2 AND (CLIENT_CLOSE_AFTER_REPLY OR CLIENT_CLOSE_ASAP) \<noteq> 0"
    using assms(1) unfolding command_contract_def by blast+
  show ?thesis
  proof (cases ok)
    case True
    define c3 where "c3 = (if flags c2 AND CLIENT_MASTER \<noteq> 0 \<and> flags c2 AND CLIENT_MULTI = 0
      then c2\<lparr>reploff := read_reploff c2 - int (length (querybuf c2)) + int (qb_pos c2)\<rparr> else c2)"
    have c3: "querybuf c3 = querybuf c" "qb_pos c3 = qb_pos c" using c2 by (auto simp: c3_def)
    have "run_command processCommand c =
        (if flags c3 AND CLIENT_BLOCKED = 0 \<or> \<not> blocked_module c3 then resetClient c3 else c3, fr)"
      using False True by (simp add: run_command_def pc c3_def Let_def)
    then show ?thesis using assms(2,3) c3 resetClient_ok [of c3] by (auto simp: halted_def split: if_splits)
  next
    case nok: False
    then have "run_command processCommand c = (c2, fr)" using False by (simp add: run_command_def pc)
    then show ?thesis using assms(3) c2 nok by (auto simp: halted_def)
  qed
qed

lemma halted_blocked: "halted c \<Longrightarrow> input_blocked srv c"
  by (auto simp: halted_def input_blocked_def)

lemma input_loop_safe:
  assumes "command_contract processCommand" "qb_pos c \<le> length (querybuf c)" "parser_ok c \<or> halted c"
  shows "\<exists>c1 freed. input_loop srv processCommand c = Some (c1, freed) \<and>
    (freed \<or> qb_pos c1 \<le> length (querybuf c1) \<and> (parser_ok c1 \<or> halted c1))"
  using assms(2,3)
proof (induction "length (unread c)" arbitrary: c rule: less_induct)
  case less
  show ?case
  proof (cases "unread c = [] \<or> input_blocked srv c")
    case True
    then have "input_loop srv processCommand c = Some (c, False)" by (subst input_loop.simps) auto
    with less.prems show ?thesis by auto
  next
    case False
    then have "parser_ok c" "unread c \<noteq> []" using less.prems halted_blocked by auto
    from parse_request_safe [OF this, of srv] obtain c1 ok where
      c1: "parse_request srv c = Some (c1, ok)" "request_read c c1 ok" by blast
    show ?thesis
    proof (cases ok)
      case nok: False
      then have "input_loop srv processCommand c = Some (c1, False)"
        using False c1(1) by (subst input_loop.simps) simp
      with c1(2) nok show ?thesis by (auto simp: request_read_def)
    next
      case True
      obtain c2 freed where c2: "run_command processCommand c1 = (c2, freed)" by (cases "run_command processCommand c1")
      have p1: "qb_pos c1 \<le> length (querybuf c1)" "length (unread c1) < length (unread c)"
        using c1(2) True by (auto simp: request_read_def)
      have e: "input_loop srv processCommand c = (if freed then Some (c2, True) else input_loop srv processCommand c2)"
        using False c1(1) c2 True by (subst input_loop.simps) simp
      show ?thesis
      proof (cases freed)
        case True
        with e show ?thesis by auto
      next
        case nf: False
        with run_command_safe [OF assms(1) p1(1) c2] have
          "querybuf c2 = querybuf c1" "qb_pos c2 = qb_pos c1" "parser_ok c2 \<or> halted c2" by auto
        with less.hyps [of c2] p1 e nf show ?thesis by simp
      qed
    qed
  qed
qed

text \<open>The state between two events.\<close>

definition client_ok :: "'a client \<Rightarrow> bool" where
  "client_ok c \<longleftrightarrow> qb_pos c \<le> length (querybuf c) \<and> (parser_ok c \<or> halted c)"

lemma client_ok_view:
  assumes "client_ok c" "qb_pos c1 \<le> length (querybuf c1)" "unread c1 = unread c @ bs" "argv c1 = argv c" "reqtype c1 = reqtype c"
    "multibulklen c1 = multibulklen c" "bulklen c1 = bulklen c" "flags c1 = flags c"
  shows "client_ok c1"
proof -
  have "parser_ok c1" if "parser_ok c"
  proof -
    have "unread c \<noteq> [] \<Longrightarrow> (unread c @ bs) ! 0 = unread c ! 0" by (simp only: nth_append) simp
    with that assms(2-) show ?thesis unfolding parser_ok_def by (auto split: if_splits)
  qed
  with assms show ?thesis by (auto simp: client_ok_def halted_def)
qed

lemma processInputBuffer_safe:
  assumes "command_contract processCommand" "client_ok c"
  shows "\<exists>c1 freed. processInputBuffer srv processCommand c = Some (c1, freed) \<and> (freed \<or> client_ok c1)"
proof -
  from input_loop_safe [OF assms(1), of c srv] assms(2) obtain c1 freed where
    c1: "input_loop srv processCommand c = Some (c1, freed)" "freed \<or> client_ok c1"
    by (auto simp: client_ok_def)
  show ?thesis
  proof (cases "\<not> freed \<and> qb_pos c1 \<noteq> 0")
    case True
    let ?c = "c1\<lparr>querybuf := range_spec (querybuf c1) (int (qb_pos c1)) (- 1), qb_pos := 0\<rparr>"
    have ok: "client_ok c1" using True c1(2) by simp
    then have "range_spec (querybuf c1) (int (qb_pos c1)) (- 1) = unread c1"
      by (intro range_spec_drop) (simp add: client_ok_def)
    then have "client_ok ?c" by (intro client_ok_view [OF ok, of _ "[]"]) simp_all
    with c1(1) True show ?thesis by (auto simp: processInputBuffer_def)
  next
    case False
    with c1 show ?thesis by (auto simp: processInputBuffer_def)
  qed
qed

lemma replicate_safe:
  assumes "command_contract processCommand" "client_ok c"
  shows "\<exists>c1 freed fed. processInputBufferAndReplicate srv processCommand c = Some (c1, freed, fed) \<and> (freed \<or> client_ok c1)"
proof -
  from processInputBuffer_safe [OF assms, of srv] obtain c1 freed where
    c1: "processInputBuffer srv processCommand c = Some (c1, freed)" "freed \<or> client_ok c1" by blast
  have "client_ok (c1\<lparr>pending_querybuf := p\<rparr>)" if "client_ok c1" for p
    using that by (intro client_ok_view [OF that, of _ "[]"]) (simp_all add: client_ok_def)
  with c1 show ?thesis
    by (cases "u64_of (reploff c1 - reploff c) = 0") (auto simp: processInputBufferAndReplicate_def Let_def)
qed

lemma readQuery_safe:
  assumes "command_contract processCommand" "client_ok c"
  shows "\<exists>c1 freed fed. readQueryFromClient srv processCommand r c = Some (c1, freed, fed) \<and> (freed \<or> client_ok c1)"
proof (cases r)
  case (Read_bytes bs)
  define c1 where "c1 = (if flags c AND CLIENT_MASTER \<noteq> 0
    then c\<lparr>pending_querybuf := pending_querybuf c @ bs, read_reploff := read_reploff c + int (length bs)\<rparr> else c)"
  define c2 where "c2 = c1\<lparr>querybuf := querybuf c1 @ bs\<rparr>"
  have "client_ok c2"
    using assms(2) by (intro client_ok_view [OF assms(2), of _ bs]) (auto simp: c2_def c1_def client_ok_def)
  from replicate_safe [OF assms(1) this, of srv] show ?thesis
    by (cases "length (querybuf c2) > client_max_querybuf_len srv")
      (auto simp: readQueryFromClient_def Read_bytes c1_def [symmetric] c2_def [symmetric] Let_def)
qed (use assms in \<open>auto simp: readQueryFromClient_def\<close>)

text \<open>Any sequence of reads, under settings of the server that may change in between.\<close>

inductive client_reach :: "'a processor \<Rightarrow> 'a client \<Rightarrow> bool" for processCommand where
  fresh: "client_reach processCommand (new_client d)"
| read: "client_reach processCommand c \<Longrightarrow> readQueryFromClient srv processCommand r c = Some (c', False, fed) \<Longrightarrow>
    client_reach processCommand c'"

lemma client_reach_ok: "client_reach processCommand c \<Longrightarrow> command_contract processCommand \<Longrightarrow> client_ok c"
proof (induction rule: client_reach.induct)
  case (fresh d)
  show ?case by (simp add: client_ok_def parser_ok_def new_client_def)
next
  case (read c srv r c' fed)
  from readQuery_safe [OF read.prems read.IH [OF read.prems], of srv r] read.hyps(2) show ?case by auto
qed

section \<open>Protocol errors\<close>

text \<open>
  A line \<open>x line\<close> the client must not send where it is: a number of arguments or a length that is not
  a number or not in range, or something else than a length where one is due.
\<close>

definition bad_line :: "server \<Rightarrow> 'a client \<Rightarrow> byte \<Rightarrow> byte list \<Rightarrow> bool" where
  "bad_line srv c x line \<longleftrightarrow>
    (if multibulklen c = 0
     then x = 42 \<and> reqtype c \<noteq> PROTO_REQ_INLINE \<and> (case string2ll line of None \<Rightarrow> True | Some ll \<Rightarrow> ll > 1024 * 1024)
     else bulklen c = - 1 \<and>
       (x \<noteq> 36 \<or> (case string2ll line of None \<Rightarrow> True | Some ll \<Rightarrow> ll < 0 \<or> ll > proto_max_bulk_len srv)))"

definition rejected :: "'a client \<Rightarrow> 'a client \<Rightarrow> bool" where
  "rejected c c1 \<longleftrightarrow> db c1 = db c \<and> flags c1 AND CLIENT_CLOSE_AFTER_REPLY \<noteq> 0 \<and>
    (\<exists>err. reply c1 = reply c @ bytes ''-ERR Protocol error: '' @ err)"

lemma flag_set: "(f OR CLIENT_CLOSE_AFTER_REPLY) AND CLIENT_CLOSE_AFTER_REPLY \<noteq> 0"
  by (simp add: word_ao_absorbs CLIENT_CLOSE_AFTER_REPLY_def)

lemma closing_halted: "flags c AND CLIENT_CLOSE_AFTER_REPLY \<noteq> 0 \<Longrightarrow> halted c"
  by (simp add: halted_def bit.conj_disj_distrib or_eq_0_iff)

lemma proto_error_rejects:
  "rejected c (proto_error (''Protocol error: '' @ m) (c\<lparr>reqtype := t\<rparr>))" "rejected c (proto_error (''Protocol error: '' @ m) c)"
  "rejected c (expected_dollar x c)"
  using flag_set
  by (auto simp: rejected_def proto_error_def expected_dollar_def setProtocolError_def addReplyError_def bytes_def Let_def)

lemma bad_line_rejected:
  assumes "parser_ok c" "unread c = x # line @ 13 # 10 # rest" "13 \<notin> set (x # line)" "0 \<notin> set (x # line)" "bad_line srv c x line"
  shows "\<exists>c1. parse_request srv c = Some (c1, False) \<and> rejected c c1 \<and> qb_pos c1 \<le> length (querybuf c1)"
proof -
  have nl: "strchr_off (unread c) 13 = Some (Suc (length line))"
    unfolding assms(2) using strchr_off_first [OF assms(3,4), of "10 # rest"] by simp
  have hd: "unread c ! 0 = x" and num: "take (length line) (drop 1 (unread c)) = line" by (simp_all add: assms(2))
  have pos: "qb_pos c \<le> length (querybuf c)" using assms(1) by (simp add: parser_ok_def)
  have len: "\<not> int (Suc (length line)) > int (length (querybuf c)) - int (qb_pos c) - 2"
    unfolding len_unread(1) [OF pos] by (simp add: assms(2))
  show ?thesis
  proof (cases "multibulklen c = 0")
    case True
    define c0 where "c0 = c\<lparr>reqtype := PROTO_REQ_MULTIBULK\<rparr>"
    have x: "x = 42" "reqtype c = 0 \<or> reqtype c = 2" "argv c = []" and bad: "case string2ll line of None \<Rightarrow> True | Some ll \<Rightarrow> ll > 1024 * 1024"
      using assms(1,5) True by (auto simp: bad_line_def parser_ok_def)
    have "reqtype c = 2 \<Longrightarrow> c = c0" by (simp add: c0_def)
    then have rq: "(if reqtype c = 0 then c\<lparr>reqtype := if unread c ! 0 = 42 then 2 else Suc 0\<rparr> else c) = c0"
      using x(1,2) hd by (cases "reqtype c = 2") (simp_all add: c0_def)
    have "unread c0 = unread c" "querybuf c0 = querybuf c" "qb_pos c0 = qb_pos c" "argv c0 = []" using x by (simp_all add: c0_def)
    then have "read_mbulk_count c0 = Some (Stop (proto_error ''Protocol error: invalid multibulk length'' c0, False))"
      unfolding read_mbulk_count_def using nl len hd x(1) num bad by (auto split: option.splits)
    then have "parse_request srv c = Some (proto_error (''Protocol error: '' @ ''invalid multibulk length'') c0, False)"
      unfolding parse_request_def Let_def rq using True by (simp add: processMultibulkBuffer_def c0_def)
    then show ?thesis using proto_error_rejects(1) pos unfolding c0_def by fastforce
  next
    case False
    then obtain n where n: "multibulklen c = Suc n" by (cases "multibulklen c") auto
    have b: "bulklen c = - 1" "reqtype c = 2"
      "x \<noteq> 36 \<or> (case string2ll line of None \<Rightarrow> True | Some ll \<Rightarrow> ll < 0 \<or> ll > proto_max_bulk_len srv)"
      using assms(1,5) False by (auto simp: bad_line_def parser_ok_def)
    have "read_bulk_len srv c = Stop (if x \<noteq> 36 then expected_dollar x c
        else proto_error (''Protocol error: '' @ ''invalid bulk length'') c)"
      unfolding read_bulk_len_def using nl len hd num b(3) by (auto split: option.splits)
    then have "parse_request srv c = Some (if x \<noteq> 36 then expected_dollar x c
        else proto_error (''Protocol error: '' @ ''invalid bulk length'') c, False)"
      using b n by (simp add: parse_request_def processMultibulkBuffer_def)
    then show ?thesis using proto_error_rejects(2,3) pos by (cases "x = 36") fastforce+
  qed
qed

lemma halted_idle:
  assumes "halted c" "qb_pos c \<le> length (querybuf c)"
  shows "\<exists>c1. processInputBuffer srv processCommand c = Some (c1, False) \<and> db c1 = db c \<and> reply c1 = reply c"
proof -
  have "input_loop srv processCommand c = Some (c, False)"
    using halted_blocked [OF assms(1)] by (subst input_loop.simps) simp
  then show ?thesis by (auto simp: processInputBuffer_def)
qed

section \<open>Inline requests\<close>

abbreviation quoted_line :: "byte list list \<Rightarrow> byte list" where
  "quoted_line args \<equiv> sdsjoinsds (map (\<lambda>a. sdscatrepr [] a (length a)) args) [32] []"

lemma hex_char_visible: "n < 16 \<Longrightarrow> hex_char n \<noteq> 10 \<and> hex_char n \<noteq> 13"
proof -
  have "list_all (\<lambda>n. hex_char n \<noteq> 10 \<and> hex_char n \<noteq> 13) [0..<16]" by code_simp
  then show "n < 16 \<Longrightarrow> hex_char n \<noteq> 10 \<and> hex_char n \<noteq> 13" by (rule all_upt_nat)
qed

lemma quoted_line_clean: "10 \<notin> set (quoted_line args)" "13 \<notin> set (quoted_line args)" "0 \<notin> set (quoted_line args)"
proof -
  have r: "10 \<notin> set (repr_byte b)" "13 \<notin> set (repr_byte b)" for b
    using hex_char_visible [of "unat b div 16"] hex_char_visible [of "unat b mod 16"] byte_hex(2) [of b]
    by (auto simp: repr_byte_def)
  show "10 \<notin> set (quoted_line args)" "13 \<notin> set (quoted_line args)" "0 \<notin> set (quoted_line args)"
    by (induction args) (auto simp: sdsjoinsds_Cons quoted_eq r repr_byte_nonzero simp del: sdsjoinsds.simps(2))
qed

lemma line_end:
  assumes "13 \<notin> set l" "cr = [] \<or> cr = [13]" "u = l @ cr @ 10 # rest"
  shows "(if length (l @ cr) \<noteq> 0 \<and> u ! (length (l @ cr) - 1) = (13 :: byte)
    then (length (l @ cr) - 1, 2) else (length (l @ cr), 1)) = (length l, length cr + 1)"
proof (cases "cr = []")
  case True
  then show ?thesis using assms(1,3) by (cases l rule: rev_cases) (auto simp: nth_append)
next
  case False
  then show ?thesis using assms(2,3) by (simp add: nth_append)
qed

lemma splitargs_quoted_line: "sdssplitargs (quoted_line args @ [0]) = Some args"
  using c_str_terminated [OF quoted_line_clean(3)] by (simp add: sdssplitargs_def loop_line)

section \<open>Properties\<close>

text \<open>C5: Whatever bytes a client sends, in whatever pieces and under whatever settings of the server,
  the request parser returns: its loop ends, none of its assertions fails, and the client is closed or
  in a state from which the next read is safe again; all that is asked of the commands is that they
  leave the query buffer alone and report a client they give up.\<close>

theorem request_parser_total:
  assumes "command_contract processCommand" "client_reach processCommand c"
  shows "\<exists>c' freed fed. readQueryFromClient srv processCommand r c = Some (c', freed, fed) \<and> (freed \<or> client_reach processCommand c')"
proof -
  obtain c' freed fed where "readQueryFromClient srv processCommand r c = Some (c', freed, fed)"
    using readQuery_safe [OF assms(1) client_reach_ok [OF assms(2,1)]] by blast
  with assms(2) show ?thesis by (cases freed) (auto intro: client_reach.read)
qed

lemma ex_processor_contract: "command_contract ex_processor"
  by (simp add: command_contract_def ex_processor_def)

theorem request_parser_total_witness:
  "\<exists>c' freed fed. readQueryFromClient ex_server ex_processor (Read_bytes (bytes ''*x'' @ [13, 10, 0])) (new_client []) = Some (c', freed, fed)
    \<and> (freed \<or> client_reach ex_processor c')"
  by (rule request_parser_total [OF ex_processor_contract client_reach.fresh])

text \<open>C17: A line that is not what the protocol asks for (a bad number of arguments, a missing or bad
  length) is answered with a protocol error, executes nothing, and marks the client to be closed: of
  what it sends afterwards nothing is executed or answered any more.\<close>

theorem protocol_error_closes:
  assumes "parser_ok c" "\<not> input_blocked srv c" "unread c = x # line @ 13 # 10 # rest"
    "13 \<notin> set (x # line)" "0 \<notin> set (x # line)" "bad_line srv c x line"
  shows "\<exists>c1. processInputBuffer srv processCommand c = Some (c1, False) \<and> rejected c c1 \<and>
    (\<forall>bs. \<exists>c2. processInputBuffer srv processCommand (c1\<lparr>querybuf := querybuf c1 @ bs\<rparr>) = Some (c2, False) \<and>
      db c2 = db c \<and> reply c2 = reply c1)"
proof -
  obtain c0 where c0: "parse_request srv c = Some (c0, False)" "rejected c c0" "qb_pos c0 \<le> length (querybuf c0)"
    using bad_line_rejected [OF assms(1,3-6)] by blast
  have "unread c \<noteq> []" using assms(3) by simp
  then have il: "input_loop srv processCommand c = Some (c0, False)"
    using assms(2) c0(1) by (subst input_loop.simps) simp
  define c1 where "c1 = (if qb_pos c0 \<noteq> 0
    then c0\<lparr>querybuf := range_spec (querybuf c0) (int (qb_pos c0)) (- 1), qb_pos := 0\<rparr> else c0)"
  have c1: "rejected c c1" "qb_pos c1 = 0" using c0(2) by (auto simp: c1_def rejected_def)
  moreover have "processInputBuffer srv processCommand c = Some (c1, False)" by (simp add: processInputBuffer_def il c1_def)
  moreover have "\<exists>c2. processInputBuffer srv processCommand (c1\<lparr>querybuf := querybuf c1 @ bs\<rparr>) = Some (c2, False) \<and>
      db c2 = db c \<and> reply c2 = reply c1" for bs
    using halted_idle [of "c1\<lparr>querybuf := querybuf c1 @ bs\<rparr>" srv processCommand] closing_halted [of c1] c1
    by (auto simp: rejected_def halted_def)
  ultimately show ?thesis by blast
qed

theorem protocol_error_closes_witness:
  "\<exists>c1. processInputBuffer ex_server ex_processor ((new_client [])\<lparr>querybuf := bytes ''*x'' @ [13, 10]\<rparr>) = Some (c1, False) \<and>
    rejected ((new_client [])\<lparr>querybuf := bytes ''*x'' @ [13, 10]\<rparr>) c1 \<and>
    (\<forall>bs. \<exists>c2. processInputBuffer ex_server ex_processor (c1\<lparr>querybuf := querybuf c1 @ bs\<rparr>) = Some (c2, False) \<and>
      db c2 = [] \<and> reply c2 = reply c1)"
proof -
  let ?c = "(new_client [])\<lparr>querybuf := bytes ''*x'' @ [13, 10]\<rparr>"
  have 1: "parser_ok ?c" "\<not> input_blocked ex_server ?c" "unread ?c = 42 # [120] @ 13 # 10 # []" "db ?c = []"
    by (simp_all add: parser_ok_def new_client_def input_blocked_def ex_server_def bytes_def)
  have 2: "13 \<notin> set [42 :: byte, 120]" "0 \<notin> set [42 :: byte, 120]" by simp_all
  have "string2ll [120] = None" by code_simp
  then have 3: "bad_line ex_server ?c 42 [120]" by (simp add: bad_line_def new_client_def)
  from protocol_error_closes [OF 1(1-3) 2 3, of ex_processor] show ?thesis unfolding 1(4) .
qed

text \<open>C38: An inline request whose arguments were quoted by \<open>sdscatrepr\<close> and joined by blanks, ended by
  a newline with or without a carriage return before it, gives exactly these arguments, except that
  empty ones are dropped, and consumes exactly the line.\<close>

theorem inline_request_arguments:
  assumes "unread c = quoted_line args @ cr @ 10 # rest" "cr = [] \<or> cr = [13]"
  shows "\<exists>c1. processInlineBuffer srv c = (c1, True) \<and> argv c1 = filter (\<lambda>a. a \<noteq> []) args \<and> unread c1 = rest \<and> db c1 = db c"
proof -
  let ?l = "quoted_line args"
  have nl: "strchr_off (unread c) 10 = Some (length (?l @ cr))"
    unfolding assms(1) using strchr_off_first [of 10 "?l @ cr" rest] quoted_line_clean [of args] assms(2) by auto
  have ql: "(if length (?l @ cr) \<noteq> 0 \<and> unread c ! (length (?l @ cr) - 1) = 13
      then (length (?l @ cr) - 1, 2) else (length (?l @ cr), 1)) = (length ?l, length cr + 1)"
    by (rule line_end [OF quoted_line_clean(2) assms(2,1)])
  have "take (length ?l) (unread c) = ?l" by (simp add: assms(1))
  moreover have "drop (qb_pos c + length ?l + (length cr + 1)) (querybuf c) = rest"
  proof -
    have "drop (length ?l + (length cr + 1)) (unread c) = rest" by (simp add: assms(1))
    then show ?thesis by (simp add: add_ac)
  qed
  ultimately show ?thesis
    unfolding processInlineBuffer_def nl option.case ql Let_def prod.case
    by (auto simp: splitargs_quoted_line)
qed

theorem inline_request_arguments_witness:
  "\<exists>c1. processInlineBuffer ex_server ((new_client ())\<lparr>querybuf := quoted_line [[65, 0], []] @ [13] @ 10 # [66]\<rparr>) = (c1, True) \<and>
    argv c1 = [[65, 0]] \<and> unread c1 = [66] \<and> db c1 = ()"
proof -
  have "unread ((new_client ())\<lparr>querybuf := quoted_line [[65, 0], []] @ [13] @ 10 # [66]\<rparr>) = quoted_line [[65, 0], []] @ [13] @ 10 # [66]"
    by (simp add: new_client_def)
  from inline_request_arguments [OF this, of ex_server] show ?thesis by simp
qed

end
