(* ===== verification/Spec2Isabelle.thy ===== *)
theory Spec2Isabelle
  imports Util Glob Dict_Iter Dict_Scan Dict_Random Lzf Intset Adlist Zset_Thms Sds_Fmt Sds_Args Resp_Safe
begin

text \<open>
  A verification development for the C code of this repository, the Redis server under
  \<open>src/redis-stable/src\<close>: its containers (hash tables, linked lists, integer sets, skip lists,
  dynamic strings), the number conversions and the glob matcher they are used with, the sorted sets
  built from them, and the request parser through which clients reach all of it.

  \<^bold>\<open>The program and its parts.\<close>  A connection delivers bytes to \<open>readQueryFromClient\<close>
  (\<open>networking.c\<close>), which appends them to the query buffer of the client, a dynamic string
  (\<open>sds.c\<close>).  \<open>processInputBuffer\<close> cuts requests out of the buffer, reading the numbers of the protocol
  by \<open>string2ll\<close> (\<open>util.c\<close>) and inline requests by \<open>sdssplitargs\<close> (\<open>sds.c\<close>), and hands them to the
  command processor.  Commands work on the keyspace, a hash table (\<open>dict.c\<close>) that is rehashed in small
  steps by the operations themselves; \<open>SCAN\<close> iterates over it by \<open>dictScan\<close> and filters keys by
  \<open>stringmatchlen\<close> (\<open>util.c\<close>).  Small sets of integers are integer sets (\<open>intset.c\<close>); sorted sets
  (\<open>t_zset.c\<close>) are a hash table from elements to scores beside a skip list in the order of scores;
  linked lists (\<open>adlist.c\<close>) hold clients, replies and subscribers.

  \<^bold>\<open>Conventions.\<close>  A byte is an 8-bit word, a buffer a list of bytes.  A record of the model is a struct
  of the code, with the fields of the code.  Where the code links nodes by pointers and a claim depends
  on the links (linked lists, skip lists) the nodes are in an explicit heap, a map from addresses to
  nodes; where it does not (chains of a hash table) the chain is a list.  Operations return \<open>'a option\<close>
  wherever the code could fail an \<open>assert\<close>, dereference \<open>NULL\<close> or freed memory, or access a block out of
  bounds: these are \<open>None\<close>, and the theorems that an operation returns \<open>Some\<close> are theorems of memory
  safety.  Error codes of the C functions (\<open>DICT_ERR\<close>, \<open>NULL\<close>, \<open>C_ERR\<close>) are ordinary values.  Addresses
  returned by the allocator, the contents of fresh memory, results of \<open>random()\<close>, the hash function and
  what \<open>read(2)\<close> delivers are arguments of the operations.

  \<^bold>\<open>Theories.\<close>

  \<^item> \<open>Prelude\<close> (types, lemmas on lists and words) and \<open>Bytes\<close> (blocks of memory, little-endian integers).

  \<^item> \<open>Refine\<close>: the locale \<open>simulation\<close>, the contract between a container and its abstract value: each
    operation in a state of the invariant returns, keeps the invariant and answers what the abstract
    operation answers.  Its consequence for sequences of operations is proved once and used through the
    interpretations \<open>dict_sim\<close>, \<open>intset_sim\<close>, \<open>list_sim\<close> and \<open>sds_sim\<close>.

  \<^item> \<open>Util\<close>, \<open>Glob\<close>: \<open>util.c\<close>.  \<open>ll2string\<close> writes the decimal notation within its buffer, or nothing;
    \<open>string2ll\<close> is its exact inverse, so that non-canonical spellings and overflows are refused;
    \<open>stringmatchlen\<close> agrees with a matcher of parsed patterns.

  \<^item> \<open>Dict\<close>, \<open>Dict_Iter\<close>, \<open>Rev_Cursor\<close>, \<open>Dict_Scan\<close>: \<open>dict.c\<close>, \<open>dict.h\<close>.  The invariant says that every entry
    is in the bucket of its hash in one of the two tables, split at \<open>rehashidx\<close>, that no key occurs
    twice and that \<open>used\<close> counts the entries.  The operations refine those of a map, in the presence
    of rehashing steps and expansions anywhere.  Safe iterators visit every entry once although the
    entries just returned are deleted; unsafe ones pass the check of their fingerprint when nothing is
    modified.  A cursor iteration returns every entry that is present throughout, although the table is resized
    and rehashed between the calls, and it ends when the table is stable.

  \<^item> \<open>Intset\<close>: \<open>intset.c\<close>, \<open>intset.h\<close>, on the bytes of the array, refining finite sets of integers.

  \<^item> \<open>Adlist\<close>: \<open>adlist.c\<close>, \<open>adlist.h\<close>, on a heap of nodes, refining lists; copying with its failure
    path, removal during an iteration, joining.

  \<^item> \<open>Sds_Order\<close>, \<open>Skiplist\<close>, \<open>Skiplist_Ops\<close>, \<open>Skiplist_Spec\<close>, \<open>Skiplist_Range\<close>: the skip lists of \<open>t_zset.c\<close> with
    their levels, spans and backward pointers.  A skip list represents the sorted sequence of its
    pairs of score and string; insertion, deletion and the update of a score are these operations on
    the sequence, ranks are positions, and the first and last node of a range are what a linear search
    finds.  The locale \<open>key_range\<close> states what score ranges and lexicographic ranges have in common and
    is interpreted for both.

  \<^item> \<open>Zset\<close>, \<open>Zset_Thms\<close>: the sorted set API of \<open>t_zset.c\<close> over hash table and skip list, refining a map from
    elements to scores; in the states reachable by the API (\<open>zset_reach\<close>) the two structures agree.

  \<^item> \<open>Sds\<close>, \<open>Sds_Fmt\<close>, \<open>Sds_Args\<close>: \<open>sds.c\<close>, \<open>sds.h\<close>.  Headers of the five types with their widths, growth and
    reallocation, every operation against plain byte strings; number formatting and \<open>sdscatfmt\<close>;
    splitting, joining, quoting and parsing back.

  \<^item> \<open>Resp\<close>, \<open>Resp_Stream\<close>, \<open>Resp_Safe\<close>: the request parser of \<open>networking.c\<close>.  A stream of requests cut at
    arbitrary places is executed command by command; on arbitrary bytes the parser returns and no
    assertion fails; protocol errors close the connection; inline requests undo quoting.

  \<^bold>\<open>Bounds and fuel.\<close>  The refinement theorems of the containers hold for sequences of operations short
  enough that no counter of the code overflows; the bound is the size measure of the locale
  \<open>simulation\<close> and is stated in each theorem.  \<open>stringmatchlen\<close> runs on fuel, and
  \<open>2 * patternLen + stringLen + 2\<close> units are proved to be enough: every round of its loops consumes a
  byte of the pattern or of the string.  \<open>zslRandomLevel\<close> reads its random numbers from a list, and
  returns once the list has a number that ends the coin flips.  The loop of \<open>dictRehashMilliseconds\<close>
  reads the clock from a sequence and spends fuel; as much fuel as the old table has buckets left is
  proved to be enough.  Loops over iterators take a bound that the number of entries satisfies.  The
  loop of \<open>processInputBuffer\<close> is a \<^theory_text>\<open>partial_function\<close> and is proved to return.

  \<^bold>\<open>Assumptions.\<close>  The host is a little-endian 64-bit machine.  The allocator does not return \<open>NULL\<close>
  (\<open>zmalloc.c\<close> aborts instead).  Scores are a linear order, as the doubles other than NaN are; the
  addition of scores is a parameter that may fail, as it does when the sum is NaN.  Of the command
  processor the parser assumes \<open>command_contract\<close> (it leaves the query buffer alone), or \<open>executes\<close>
  when the effect of commands matters.  What \<open>vsnprintf\<close> writes is a parameter of \<open>sdscatvprintf\<close>.

  \<^bold>\<open>Where the code and its description differ.\<close>  \<open>stringmatchlen\<close> does not match the empty string
  against the pattern \<open>*\<close>.  \<open>sdsMakeRoomFor\<close> does not check the sum of length and request for overflow
  (lemma \<open>sdsMakeRoomFor_overflow\<close>), and \<open>sdscatfmt\<close> reads behind a format that ends in a percent sign
  (lemma \<open>sdscatfmt_trailing_percent\<close>).  Inline requests lose their empty arguments.

  \<^bold>\<open>Not modelled.\<close>  Of \<open>dict.c\<close> the sampling functions, whose result is random, and the statistics
  report; of \<open>util.c\<close> the conversions of floating-point numbers and the access to files; of \<open>t_zset.c\<close> the
  ziplist encoding and the commands, which format replies; of \<open>networking.c\<close> the output side, the life
  cycle of clients and the \<open>CLIENT\<close> command.  The command table and its execution (\<open>server.c\<close>, \<open>db.c\<close>,
  \<open>multi.c\<close> and the other data types) work on the global state of the server and are a parameter of the
  parser.  The compact containers (\<open>ziplist.c\<close>, \<open>quicklist.c\<close>, \<open>listpack.c\<close>, \<open>rax.c\<close>) and the numeric
  algorithms (\<open>bitops.c\<close>, \<open>hyperloglog.c\<close>, \<open>geohash.c\<close>, checksums, compression) are independent of the
  parts above and are left out.  The event loop, persistence, replication, cluster, sentinel, scripting
  and modules are input and output, processes and other people's interpreters; \<open>redis-cli.c\<close> and the
  other tools only talk to a server; \<open>deps\<close> is third-party code; and the PHP application beside the
  server rests on a framework that is not part of the repository.
\<close>

end
